(* ===== verification/Prelude.thy ===== *)
theory Prelude
  imports Main "HOL-Library.Word"
begin

text \<open>
  Shared vocabulary of the development: the machine integer types the code uses, the ways in
  which a C++ operation can fail, the result type threaded through every fallible operation,
  and the generic lemmas on words, lists and maps that several components need.

  A C++ exception that the code throws is the value \<open>Throws e\<close>. Undefined behaviour that
  the source can reach (a null submission entry, a dangling pointer, a read of a union member that
  was never constructed) is a fault value of its own, so that a theorem can say that an operation
  is free of it or that it is reached.
\<close>

unbundle bit_operations_syntax

section \<open>Machine integers\<close>

type_synonym i32 = "32 word"
type_synonym u16 = "16 word"
type_synonym u32 = "32 word"
type_synonym i64 = "64 word"
type_synonym u64 = "64 word"
type_synonym address = nat

section \<open>Faults and results\<close>

datatype exn =
    RuntimeError string
  | LogicError string
  | UserException nat

datatype fault =
    Throws exn
  | Terminated exn
  | NullSqe
  | NullPointer
  | NullBufferRing
  | DanglingPointer
  | DeadCoroutine
  | DeadObject
  | NoResult
  | BadFunctionCall
  | OutOfRange
  | DivisionByZero
  | MissingReturn
  | WrongUnionMember

type_synonym 'a res = "fault + 'a"

definition bind_res :: "'a res \<Rightarrow> ('a \<Rightarrow> 'b res) \<Rightarrow> 'b res" where
  "bind_res m f = (case m of Inl e \<Rightarrow> Inl e | Inr x \<Rightarrow> f x)"

definition is_ok :: "'a res \<Rightarrow> bool" where
  "is_ok m = (case m of Inl e \<Rightarrow> False | Inr x \<Rightarrow> True)"

named_theorems res_simps

lemma bind_res_Inl [simp, res_simps]: "bind_res (Inl e) f = Inl e"
  by (simp add: bind_res_def)

lemma bind_res_Inr [simp, res_simps]: "bind_res (Inr x) f = f x"
  by (simp add: bind_res_def)

lemma is_ok_simps [simp]: "is_ok (Inr x)" "\<not> is_ok (Inl e)"
  by (simp_all add: is_ok_def)

lemma bind_res_eq_Inr: "bind_res m f = Inr y \<longleftrightarrow> (\<exists>x. m = Inr x \<and> f x = Inr y)"
  by (cases m) auto

lemma bind_res_eq_Inl:
  "bind_res m f = Inl e \<longleftrightarrow> m = Inl e \<or> (\<exists>x. m = Inr x \<and> f x = Inl e)"
  by (cases m) auto

lemma bind_res_InrE:
  assumes "bind_res m f = Inr y"
  obtains x where "m = Inr x" and "f x = Inr y"
  using assms by (auto simp: bind_res_eq_Inr)

lemma bind_res_assoc: "bind_res (bind_res m f) g = bind_res m (\<lambda>x. bind_res (f x) g)"
  by (cases m) auto

section \<open>Words read as signed values\<close>

lemma sint_eq_uint_64: "uint (w :: 64 word) < 2 ^ 63 \<Longrightarrow> sint w = uint w"
  by (simp add: sint_uint signed_take_bit_int_eq_self_iff order_trans [OF _ uint_ge_0])

lemma sint_eq_uint_32: "uint (w :: 32 word) < 2 ^ 31 \<Longrightarrow> sint w = uint w"
  by (simp add: sint_uint signed_take_bit_int_eq_self_iff order_trans [OF _ uint_ge_0])

lemma uint_bound_64: "uint (w :: 64 word) < 18446744073709551616"
  using uint_lt2p [of w] by simp

section \<open>Lists\<close>

lemma nth_append_last [simp]: "(xs @ [x]) ! length xs = x"
  by simp

lemma list_update_map_nth:
  "i < length xs \<Longrightarrow> map f (xs[i := y]) = (map f xs)[i := f y]"
  by (simp add: map_update)

end
