(* ===== verification/Timer.thy ===== *)
theory Timer
  imports Prelude
begin

text \<open>
  The duration literals of \<open>timer/timer.hpp\<close>. The argument of a literal operator is an
  \<open>unsigned long long\<close>; the fields of \<open>__kernel_timespec\<close> are \<open>long long\<close>. Both are
  64-bit words here: the conversions between them keep the bits, and a field is read as a signed
  value with \<open>sint\<close>.
\<close>

record timespec =
  tv_sec :: i64
  tv_nsec :: i64

definition lit_s :: "u64 \<Rightarrow> timespec" where
  "lit_s second = \<lparr>tv_sec = second, tv_nsec = 0\<rparr>"

definition lit_ms :: "u64 \<Rightarrow> timespec" where
  "lit_ms ms =
     (let sec = ms div 1000;
          ms' = ms - sec * 1000;
          ms'' = ms' * 1000000
      in \<lparr>tv_sec = sec, tv_nsec = ms''\<rparr>)"

definition lit_us :: "u64 \<Rightarrow> timespec" where
  "lit_us us =
     (let sec = us div 1000000;
          us' = us - sec * 1000000;
          us'' = us' * 1000
      in \<lparr>tv_sec = sec, tv_nsec = us''\<rparr>)"

definition lit_ns :: "u64 \<Rightarrow> timespec" where
  "lit_ns ns =
     (let sec = ns div 1000000000;
          ns' = ns - sec * 1000000000
      in \<lparr>tv_sec = sec, tv_nsec = ns'\<rparr>)"

text \<open>The duration a \<open>__kernel_timespec\<close> stands for, in nanoseconds.\<close>

definition nanoseconds :: "timespec \<Rightarrow> int" where
  "nanoseconds t = sint (tv_sec t) * 1000000000 + sint (tv_nsec t)"

text \<open>The kernel's condition on a timespec: a non-negative time with a normalised fraction.\<close>

definition normalised :: "timespec \<Rightarrow> bool" where
  "normalised t \<longleftrightarrow> 0 \<le> sint (tv_sec t) \<and> 0 \<le> sint (tv_nsec t) \<and> sint (tv_nsec t) < 1000000000"

lemma word_sub_div_mult:
  fixes w d :: "64 word"
  shows "w - w div d * d = w mod d"
  by (metis minus_div_mult_eq_mod)

text \<open>
  The common core of the three scaled literals: a quotient by \<open>d\<close> as the seconds and the
  remainder times \<open>m\<close> as the nanoseconds, where \<open>d * m\<close> is a second.
\<close>

lemma scaled_literal:
  fixes w d m :: "64 word"
  assumes d: "2 \<le> uint d" and dm: "uint d * uint m = 1000000000"
  defines "t \<equiv> \<lparr>tv_sec = w div d, tv_nsec = (w - w div d * d) * m\<rparr>"
  shows "nanoseconds t = uint w * uint m" and "normalised t"
proof -
  have m0: "0 \<le> uint m" and m1: "uint m \<noteq> 0" using dm by auto
  have r: "uint (w mod d) < uint d" "0 \<le> uint (w mod d)"
    using d by (simp_all add: uint_mod_distrib)
  have rm: "uint (w mod d) * uint m < 1000000000"
    using r m0 m1 dm by (metis mult_strict_right_mono order_le_less)
  have "uint ((w mod d) * m) = uint (w mod d) * uint m"
    using rm r m0 by (simp add: uint_word_ariths)
  then have ns: "sint ((w mod d) * m) = uint (w mod d) * uint m"
    using rm by (subst sint_eq_uint_64) simp_all
  have q: "uint (w div d) = uint w div uint d" by (simp add: uint_div_distrib)
  have "uint w div uint d \<le> uint w div 2"
    using d by (intro zdiv_mono2) simp_all
  also have "\<dots> < 2 ^ 63" using uint_bound_64 [of w] by simp
  finally have s: "sint (w div d) = uint w div uint d"
    using q by (subst sint_eq_uint_64) simp_all
  have "uint w div uint d * 1000000000 + uint w mod uint d * uint m
      = (uint w div uint d * uint d + uint w mod uint d) * uint m"
    by (simp only: distrib_right mult.assoc dm)
  then show "nanoseconds t = uint w * uint m"
    by (simp add: nanoseconds_def t_def word_sub_div_mult s ns uint_mod_distrib)
  show "normalised t"
    using rm r m0 d by (simp add: normalised_def t_def word_sub_div_mult s ns pos_imp_zdiv_nonneg_iff)
qed

lemma nanoseconds_lit_ms: "nanoseconds (lit_ms ms) = uint ms * 1000000"
  and normalised_lit_ms: "normalised (lit_ms ms)"
  using scaled_literal [of 1000 1000000 ms] by (simp_all add: lit_ms_def Let_def)

lemma nanoseconds_lit_us: "nanoseconds (lit_us us) = uint us * 1000"
  and normalised_lit_us: "normalised (lit_us us)"
  using scaled_literal [of 1000000 1000 us] by (simp_all add: lit_us_def Let_def)

lemma nanoseconds_lit_ns: "nanoseconds (lit_ns ns) = uint ns"
  and normalised_lit_ns: "normalised (lit_ns ns)"
  using scaled_literal [of 1000000000 1 ns] by (simp_all add: lit_ns_def Let_def)

lemma lit_s_normalised_iff: "normalised (lit_s s) \<longleftrightarrow> uint s < 2 ^ 63"
proof
  assume "normalised (lit_s s)"
  then have "0 \<le> sint s" by (simp add: normalised_def lit_s_def)
  moreover have "sint s < 2 ^ 63" using sint_lt [of s] by simp
  ultimately show "uint s < 2 ^ 63" by (simp add: uint_sint take_bit_int_eq_self)
next
  assume "uint s < 2 ^ 63"
  then show "normalised (lit_s s)" by (simp add: normalised_def lit_s_def sint_eq_uint_64)
qed

end
