(* ===== verification/Config.thy ===== *)
theory Config
  imports Timer
begin

text \<open>
  The compile-time constants of \<open>config.hpp\<close>. Sizes and counts are \<open>size_t\<close> values that
  the code only multiplies within their range, hence natural numbers; the periods are built with the
  literals of Timer.
\<close>

definition WORKERS :: nat where
  "WORKERS = 0"

definition URING_MAIN_CQES :: nat where
  "URING_MAIN_CQES = 1024"

definition URING_MAIN_SQES :: nat where
  "URING_MAIN_SQES = 128"

definition URING_WOKERS_SQES :: nat where
  "URING_WOKERS_SQES = 512"

definition URING_PEEK_CQES_BATCH :: nat where
  "URING_PEEK_CQES_BATCH = 256"

definition URING_USE_MULTISHOT_ACCEPT :: bool where
  "URING_USE_MULTISHOT_ACCEPT = False"

definition MINOR_URING_WAIT_CQE_TIMEOUT :: timespec where
  "MINOR_URING_WAIT_CQE_TIMEOUT = lit_s 3"

definition WORKER_URING_WAIT_CQE_INTERVAL :: timespec where
  "WORKER_URING_WAIT_CQE_INTERVAL = lit_ms 15"

definition URING_USE_DIRECT_FD_AS_SOCKET :: bool where
  "URING_USE_DIRECT_FD_AS_SOCKET = True"

definition URING_DIRECT_FD_TABLE_SIZE :: nat where
  "URING_DIRECT_FD_TABLE_SIZE = 32768"

definition BUFFER_RING_SIZE :: nat where
  "BUFFER_RING_SIZE = 512"

definition N_BUFFERS :: nat where
  "N_BUFFERS = 1024 * 16"

definition AUTO_EXTEND_WHEN_NOBUFS :: bool where
  "AUTO_EXTEND_WHEN_NOBUFS = True"

definition NOBUFS_SLEEP_FOR :: timespec where
  "NOBUFS_SLEEP_FOR = lit_ms 15"

text \<open>The errno values the code compares completion results with (Linux).\<close>

definition ENFILE :: int where "ENFILE = 23"
definition ENOSYS :: int where "ENOSYS = 38"
definition ETIME :: int where "ETIME = 62"
definition ENOBUFS :: int where "ENOBUFS = 105"

lemma N_BUFFERS_val: "N_BUFFERS = 16384"
  by (simp add: N_BUFFERS_def)

lemma config_periods_normalised:
  "normalised MINOR_URING_WAIT_CQE_TIMEOUT"
  "normalised WORKER_URING_WAIT_CQE_INTERVAL"
  "normalised NOBUFS_SLEEP_FOR"
  by (simp_all add: MINOR_URING_WAIT_CQE_TIMEOUT_def WORKER_URING_WAIT_CQE_INTERVAL_def
      NOBUFS_SLEEP_FOR_def normalised_lit_ms lit_s_normalised_iff)

end
