(* ===== verification/Tokens.thy ===== *)
theory Tokens
  imports Config
begin

text \<open>
  What the code hands to the kernel as user data: the completion tokens of
  \<open>io/prep/completion_token.hpp\<close> and the messages between rings of \<open>io/uring_msg.hpp\<close>.
  They are C++ objects at an address; a completion carries the address back and the code casts it.

  A \<open>std::function\<close> is \<open>'f option\<close>: \<open>None\<close> is an empty function object, which is
  what a function that has been moved from is left as. A coroutine handle is the address of its
  frame, and a null handle is \<open>None\<close>. A pointer to a \<open>ScheduledTask\<close> is the pair of the
  thread whose task loop holds it and its position in that loop: the loop is a \<open>std::list\<close> that
  is only ever appended to, so the position of an element never changes.
\<close>

type_synonym handle = address
type_synonym task_ptr = "nat \<times> nat"

section \<open>Completion tokens\<close>

datatype op =
    Op_Wakeup
  | Op_Timeout
  | Op_Socket
  | Op_Accept
  | Op_MultishotAccept
  | Op_MultishotAcceptRetry
  | Op_MultishotAcceptPending
  | Op_MultishotAcceptFdSender
  | Op_MultishotAcceptFdReceiver
  | Op_MultishotAcceptTaskReceiver
  | Op_RingTask
  | Op_RingFdSender
  | Op_RingFdReceiver
  | Op_Send
  | Op_Receive
  | Op_MultishotReceive
  | Op_RegisterRingBuffer
  | Op_Shutdown
  | Op_Close
  | Op_SyncCloseDirect
  | Op_AsyncCloseDirect
  | Op_MainRingCloseDirectSocket
  | Op_CancelAny
  | Op_Quit
  | Op_Unknown

record completion_token =
  tok_op :: op
  chain_task :: "task_ptr option"
  cqe_res :: int
  cqe_flags :: i32

definition default_token :: completion_token where
  "default_token = \<lparr>tok_op = Op_Unknown, chain_task = None, cqe_res = - ENOSYS, cqe_flags = 0\<rparr>"

section \<open>Messages between rings\<close>

datatype ring_msg_type = RingTask | RingFuncTask | MultiAccTask | RingFd

fun ring_msg_code :: "ring_msg_type \<Rightarrow> int" where
  "ring_msg_code RingTask = 0x7a51"
| "ring_msg_code RingFuncTask = 0x7a51b"
| "ring_msg_code MultiAccTask = 0x7a51c"
| "ring_msg_code RingFd = 0xd1fd"

record ring_msg_task =
  msg_task :: "handle option"

definition RingMsgTask_move_out :: "ring_msg_task \<Rightarrow> handle option \<times> ring_msg_task" where
  "RingMsgTask_move_out m = (msg_task m, m\<lparr>msg_task := None\<rparr>)"

record 'f conn_task_helper =
  direct_fd :: int
  helper_func :: "'f option"

definition RingMsgConnTaskHelper :: "'f option \<Rightarrow> int \<Rightarrow> 'f conn_task_helper" where
  "RingMsgConnTaskHelper task fd = \<lparr>direct_fd = fd, helper_func = task\<rparr>"

definition ConnTaskHelper_move_out :: "'f conn_task_helper \<Rightarrow> 'f option \<times> 'f conn_task_helper" where
  "ConnTaskHelper_move_out m = (helper_func m, m\<lparr>helper_func := None\<rparr>)"

record 'f macc_task_token =
  macc_op :: op
  macc_func :: "'f option"

definition MultishotAcceptTaskToken :: "op \<Rightarrow> 'f option \<Rightarrow> 'f macc_task_token" where
  "MultishotAcceptTaskToken op' task = \<lparr>macc_op = op', macc_func = task\<rparr>"

definition MAccTaskToken_move_out :: "'f macc_task_token \<Rightarrow> 'f option \<times> 'f macc_task_token" where
  "MAccTaskToken_move_out m = (macc_func m, m\<lparr>macc_func := None\<rparr>)"

text \<open>The objects a completion's user data may point to.\<close>

datatype 'f obj =
    Token completion_token
  | MsgTask ring_msg_task
  | ConnHelper "'f conn_task_helper"
  | MAccTask "'f macc_task_token"

type_synonym 'f heap = "address \<rightharpoonup> 'f obj"

definition token_at :: "'f heap \<Rightarrow> address \<Rightarrow> completion_token res" where
  "token_at H a = (case H a of Some (Token tk) \<Rightarrow> Inr tk | _ \<Rightarrow> Inl DanglingPointer)"

definition msg_task_at :: "'f heap \<Rightarrow> address \<Rightarrow> ring_msg_task res" where
  "msg_task_at H a = (case H a of Some (MsgTask m) \<Rightarrow> Inr m | _ \<Rightarrow> Inl DanglingPointer)"

definition conn_helper_at :: "'f heap \<Rightarrow> address \<Rightarrow> 'f conn_task_helper res" where
  "conn_helper_at H a = (case H a of Some (ConnHelper m) \<Rightarrow> Inr m | _ \<Rightarrow> Inl DanglingPointer)"

definition macc_task_at :: "'f heap \<Rightarrow> address \<Rightarrow> 'f macc_task_token res" where
  "macc_task_at H a = (case H a of Some (MAccTask m) \<Rightarrow> Inr m | _ \<Rightarrow> Inl DanglingPointer)"

lemma token_at_Inr: "token_at H a = Inr tk \<longleftrightarrow> H a = Some (Token tk)"
  by (auto simp: token_at_def split: option.splits obj.splits)

lemma msg_task_at_Inr: "msg_task_at H a = Inr m \<longleftrightarrow> H a = Some (MsgTask m)"
  by (auto simp: msg_task_at_def split: option.splits obj.splits)

lemma conn_helper_at_Inr: "conn_helper_at H a = Inr m \<longleftrightarrow> H a = Some (ConnHelper m)"
  by (auto simp: conn_helper_at_def split: option.splits obj.splits)

lemma macc_task_at_Inr: "macc_task_at H a = Inr m \<longleftrightarrow> H a = Some (MAccTask m)"
  by (auto simp: macc_task_at_def split: option.splits obj.splits)

lemmas obj_at_Inr = token_at_Inr msg_task_at_Inr conn_helper_at_Inr macc_task_at_Inr

text \<open>No two message types share a code, so the receiver's dispatch is unambiguous.\<close>

lemma ring_msg_code_inj: "inj ring_msg_code"
proof (rule injI)
  fix a b
  show "ring_msg_code a = ring_msg_code b \<Longrightarrow> a = b"
    by (cases a; cases b) simp_all
qed

end
