(* ===== verification/Coroutine.thy ===== *)
theory Coroutine
  imports Tokens
begin

text \<open>
  The coroutine layer of \<open>async/\<close> and of \<open>io/prep/uring_awaiter.hpp\<close>: result slots,
  promises, tasks, the awaiters, and scheduled tasks, as operations on a process state, and the
  machine that composes them the way the compiled coroutines do.

  A coroutine body is code of the library's user or of another component. It enters as the
  parameter \<open>code\<close>: given the point at which a coroutine is suspended (its label and, inside the
  label, its locals) and what the \<open>co_await\<close> it is suspended in returns, \<open>code\<close> says what
  the body does next. This is the state machine the compiler makes of a coroutine.
\<close>

section \<open>Result slots\<close>

record 'v result =
  slot :: "'v option"

definition construct_result :: "'v \<Rightarrow> 'v result \<Rightarrow> 'v result" where
  "construct_result v r = r\<lparr>slot := Some v\<rparr>"

definition move_out_result :: "'v result \<Rightarrow> ('v \<times> 'v result) res" where
  "move_out_result r = (case slot r of None \<Rightarrow> Inl NoResult | Some v \<Rightarrow> Inr (v, r\<lparr>slot := None\<rparr>))"

section \<open>Promises\<close>

record basic_promise =
  caller :: "handle option"
  exn_ptr :: "exn option"
  this_chain_task :: "task_ptr option"

record 'v task_promise = basic_promise +
  promise_res :: "'v result"

definition new_promise :: "'v task_promise" where
  "new_promise = \<lparr>caller = None, exn_ptr = None, this_chain_task = None, promise_res = \<lparr>slot = None\<rparr>\<rparr>"

definition unhandled_exception :: "exn \<Rightarrow> 'v task_promise \<Rightarrow> 'v task_promise" where
  "unhandled_exception e pr = pr\<lparr>exn_ptr := Some e\<rparr>"

definition set_caller :: "handle option \<Rightarrow> 'v task_promise \<Rightarrow> 'v task_promise" where
  "set_caller c pr = pr\<lparr>caller := c\<rparr>"

definition set_chain_root :: "task_ptr option \<Rightarrow> 'v task_promise \<Rightarrow> 'v task_promise" where
  "set_chain_root t pr = pr\<lparr>this_chain_task := t\<rparr>"

definition return_value :: "'v \<Rightarrow> 'v task_promise \<Rightarrow> 'v task_promise" where
  "return_value v pr = pr\<lparr>promise_res := construct_result v (promise_res pr)\<rparr>"

text \<open>
  \<open>TaskPromise<T>::result\<close>: the stored exception is rethrown, otherwise the value is moved out.
  The rethrown exception is caught by the awaiting coroutine, so it is a value here (\<open>Inl e\<close>
  inside the result), while reading a slot that holds nothing is a fault. A \<open>Task<void>\<close> is a
  task whose value is a unit value.
\<close>

definition promise_result :: "'v task_promise \<Rightarrow> ((exn + 'v) \<times> 'v task_promise) res" where
  "promise_result pr =
     (case exn_ptr pr of
        Some e \<Rightarrow> Inr (Inl e, pr)
      | None \<Rightarrow> bind_res (move_out_result (promise_res pr))
                  (\<lambda>(v, r). Inr (Inr v, pr\<lparr>promise_res := r\<rparr>)))"

text \<open>
  \<open>FinalTaskAwaiter::await_suspend\<close>: control goes to the caller; without a caller a stored
  exception is rethrown from a \<open>noexcept\<close> function, which ends the process, and otherwise
  control goes back to whoever resumed the chain (\<open>std::noop_coroutine\<close>, here \<open>None\<close>).
\<close>

definition final_await_suspend :: "'v task_promise \<Rightarrow> handle option res" where
  "final_await_suspend pr =
     (case caller pr of
        Some c \<Rightarrow> Inr (Some c)
      | None \<Rightarrow> (case exn_ptr pr of Some e \<Rightarrow> Inl (Terminated e) | None \<Rightarrow> Inr None))"

section \<open>Coroutine frames and tasks\<close>

datatype awaiter =
    AwInitial
  | AwTask handle
  | AwToken address
  | AwNothing

datatype 'l costate =
    Suspended 'l awaiter
  | Running
  | AtFinal

record ('l, 'v) frame =
  promise :: "'v task_promise"
  costate :: "'l costate"

type_synonym ('l, 'v) frames = "handle \<rightharpoonup> ('l, 'v) frame"

definition destroy_frame :: "handle \<Rightarrow> ('l, 'v) frames \<Rightarrow> ('l, 'v) frames res" where
  "destroy_frame h F =
     (case F h of
        None \<Rightarrow> Inl DanglingPointer
      | Some f \<Rightarrow> (case costate f of Running \<Rightarrow> Inl DeadCoroutine | _ \<Rightarrow> Inr (F(h := None))))"

record task =
  task_handle :: "handle option"

definition Task_move_ctor :: "task \<Rightarrow> task \<times> task" where
  "Task_move_ctor rhs = (\<lparr>task_handle = task_handle rhs\<rparr>, rhs\<lparr>task_handle := None\<rparr>)"

definition Task_move_assign :: "task \<Rightarrow> task \<Rightarrow> task \<times> task" where
  "Task_move_assign self rhs = (self\<lparr>task_handle := task_handle rhs\<rparr>, rhs\<lparr>task_handle := None\<rparr>)"

definition Task_dtor :: "task \<Rightarrow> ('l, 'v) frames \<Rightarrow> ('l, 'v) frames res" where
  "Task_dtor tk F = (case task_handle tk of None \<Rightarrow> Inr F | Some h \<Rightarrow> destroy_frame h F)"

definition Task_take :: "task \<Rightarrow> handle option \<times> task" where
  "Task_take tk = (task_handle tk, tk\<lparr>task_handle := None\<rparr>)"

definition Task_done :: "task \<Rightarrow> ('l, 'v) frames \<Rightarrow> bool res" where
  "Task_done tk F =
     (case task_handle tk of
        None \<Rightarrow> Inl NullPointer
      | Some h \<Rightarrow> (case F h of None \<Rightarrow> Inl DanglingPointer | Some f \<Rightarrow> Inr (costate f = AtFinal)))"

section \<open>Scheduled tasks\<close>

record scheduled_task =
  sched_task :: task
  awaiting_handle :: "handle option"
  valid :: bool
  pending :: bool

definition set_awaiting_handle :: "handle \<Rightarrow> scheduled_task \<Rightarrow> scheduled_task" where
  "set_awaiting_handle next_h st = st\<lparr>awaiting_handle := Some next_h\<rparr>"

definition set_pending :: "bool \<Rightarrow> scheduled_task \<Rightarrow> scheduled_task" where
  "set_pending b st = st\<lparr>pending := b\<rparr>"

section \<open>The process state\<close>

text \<open>
  Frames and heap objects share one address space, whose next free address is \<open>fresh\<close>;
  \<open>loops t\<close> is the task list of thread \<open>t\<close> (thread 0 is the main thread); \<open>env\<close> is the
  state of the other components (rings, buffers, the system loop), which this layer does not look
  into.
\<close>

record ('l, 'v, 'f, 's) proc =
  frames :: "('l, 'v) frames"
  objs :: "'f heap"
  fresh :: address
  loops :: "nat \<Rightarrow> scheduled_task list"
  env :: 's

text \<open>
  The null address and the address of the static object
  \<open>MultishotAcceptDirectAwaiter::multishot_token_\<close>; allocation starts above them.
\<close>

definition nullptr :: address where "nullptr = 0"
definition multishot_token :: address where "multishot_token = 1"

definition alloc_obj :: "'f obj \<Rightarrow> ('l, 'v, 'f, 's) proc \<Rightarrow> address \<times> ('l, 'v, 'f, 's) proc" where
  "alloc_obj ob p = (fresh p, p\<lparr>objs := (objs p)(fresh p \<mapsto> ob), fresh := Suc (fresh p)\<rparr>)"

definition delete_obj :: "address \<Rightarrow> ('l, 'v, 'f, 's) proc \<Rightarrow> ('l, 'v, 'f, 's) proc" where
  "delete_obj a p = p\<lparr>objs := (objs p)(a := None)\<rparr>"

text \<open>Calling a coroutine function: a new frame, suspended at its start, and a task that owns it.\<close>

definition create_coroutine :: "'l \<Rightarrow> ('l, 'v, 'f, 's) proc \<Rightarrow> task \<times> ('l, 'v, 'f, 's) proc" where
  "create_coroutine l p =
     (\<lparr>task_handle = Some (fresh p)\<rparr>,
      p\<lparr>frames := (frames p)(fresh p \<mapsto> \<lparr>promise = new_promise, costate = Suspended l AwInitial\<rparr>),
        fresh := Suc (fresh p)\<rparr>)"

definition upd_promise ::
  "handle \<Rightarrow> ('v task_promise \<Rightarrow> 'v task_promise) \<Rightarrow> ('l, 'v, 'f, 's) proc \<Rightarrow> ('l, 'v, 'f, 's) proc res" where
  "upd_promise h g p =
     (case frames p h of
        None \<Rightarrow> Inl DanglingPointer
      | Some f \<Rightarrow> Inr (p\<lparr>frames := (frames p)(h \<mapsto> f\<lparr>promise := g (promise f)\<rparr>)\<rparr>))"

definition promise_at :: "handle \<Rightarrow> ('l, 'v, 'f, 's) proc \<Rightarrow> 'v task_promise res" where
  "promise_at h p = (case frames p h of None \<Rightarrow> Inl DanglingPointer | Some f \<Rightarrow> Inr (promise f))"

definition set_costate :: "handle \<Rightarrow> 'l costate \<Rightarrow> ('l, 'v, 'f, 's) proc \<Rightarrow> ('l, 'v, 'f, 's) proc res" where
  "set_costate h c p =
     (case frames p h of
        None \<Rightarrow> Inl DanglingPointer
      | Some f \<Rightarrow> Inr (p\<lparr>frames := (frames p)(h \<mapsto> f\<lparr>costate := c\<rparr>)\<rparr>))"

definition upd_task ::
  "task_ptr \<Rightarrow> (scheduled_task \<Rightarrow> scheduled_task) \<Rightarrow> ('l, 'v, 'f, 's) proc \<Rightarrow> ('l, 'v, 'f, 's) proc res" where
  "upd_task ptr g p =
     (let t = fst ptr; i = snd ptr
      in if i < length (loops p t)
         then Inr (p\<lparr>loops := (loops p)(t := (loops p t)[i := g (loops p t ! i)])\<rparr>)
         else Inl DanglingPointer)"

definition deref_task :: "task_ptr option \<Rightarrow> task_ptr res" where
  "deref_task ptr = (case ptr of None \<Rightarrow> Inl NullPointer | Some q \<Rightarrow> Inr q)"

text \<open>
  \<open>ScheduledTask(Task<>&&)\<close>, constructed in place at the end of the list of thread \<open>t\<close>
  (\<open>TaskLoop::enqueue\<close>), and the constructor that calls the coroutine function itself
  (\<open>TaskLoop::emplace_back\<close>).
\<close>

definition ScheduledTask_ctor :: "task \<Rightarrow> scheduled_task" where [simp]:
  "ScheduledTask_ctor tk =
     \<lparr>sched_task = tk, awaiting_handle = task_handle tk, valid = True, pending = False\<rparr>"

definition Task_set_chain_task_root ::
  "task_ptr \<Rightarrow> task \<Rightarrow> ('l, 'v, 'f, 's) proc \<Rightarrow> ('l, 'v, 'f, 's) proc res" where [simp]:
  "Task_set_chain_task_root ptr tk p =
     (case task_handle tk of
        None \<Rightarrow> Inl NullPointer
      | Some h \<Rightarrow> upd_promise h (set_chain_root (Some ptr)) p)"

definition enqueue :: "nat \<Rightarrow> task \<Rightarrow> ('l, 'v, 'f, 's) proc \<Rightarrow> ('l, 'v, 'f, 's) proc res" where
  "enqueue t tk p =
     Task_set_chain_task_root (t, length (loops p t)) tk
       (p\<lparr>loops := (loops p)(t := loops p t @ [ScheduledTask_ctor tk])\<rparr>)"

definition emplace_back :: "nat \<Rightarrow> 'l \<Rightarrow> ('l, 'v, 'f, 's) proc \<Rightarrow> ('l, 'v, 'f, 's) proc res" where
  "emplace_back t l p = (let (tk, p1) = create_coroutine l p in enqueue t tk p1)"

end
