(* ===== verification/Chain.thy ===== *)
theory Chain
  imports Coroutine
begin

text \<open>
  The coroutine machine: what one transfer of control does. It composes the awaiters of
  \<open>async/task.hpp\<close>, \<open>async/awaiter.hpp\<close> and \<open>io/prep/uring_awaiter.hpp\<close> in the
  order in which the compiled coroutines call them, and is iterated until control is back with the
  task loop. \<open>ScheduledTask::resume\<close> and \<open>TaskLoop::run\<close> are built on it.
\<close>

section \<open>The actions of a coroutine body\<close>

text \<open>What a \<open>co_await\<close> returns to the body, or the exception it throws there.\<close>

datatype 'v resume_in =
    RStart
  | RVal 'v
  | RExn exn
  | RCqe int i32
  | RUnit

text \<open>
  What a body does next, up to the next point where control can leave it: return or throw, await a
  task it has just made (\<open>g\<close> is the start of the callee, \<open>k\<close> the point where the body goes
  on), await an operation of the ring (the constructor's effect on the ring gets the running thread and
  the address of the awaiter's token), await nothing but a later resume, arm the multishot accept, or run plain code.
\<close>

datatype ('l, 'v, 'f, 's) action =
    CoReturn 'v
  | CoThrow exn
  | CoAwaitTask 'l 'l
  | CoAwaitUring op "nat \<Rightarrow> address \<Rightarrow> 's \<Rightarrow> 's res" 'l
  | CoAwaitPending 'l
  | CoAwaitMshot "nat \<Rightarrow> address \<Rightarrow> 's \<Rightarrow> 's res" 'l
  | CoStep "nat \<Rightarrow> ('l, 'v, 'f, 's) proc \<Rightarrow> ('v resume_in \<times> ('l, 'v, 'f, 's) proc) res" 'l

type_synonym ('l, 'v, 'f, 's) code = "'l \<Rightarrow> 'v resume_in \<Rightarrow> ('l, 'v, 'f, 's) action"

section \<open>The awaiters\<close>

text \<open>\<open>Task::TaskAwaier\<close>\<close>

definition TaskAwaier_await_suspend ::
  "handle \<Rightarrow> handle \<Rightarrow> ('l, 'v, 'f, 's) proc \<Rightarrow> (handle \<times> ('l, 'v, 'f, 's) proc) res" where
  "TaskAwaier_await_suspend callee h p =
     bind_res (upd_promise callee (set_caller (Some h)) p) (\<lambda>p1.
     bind_res (promise_at h p1) (\<lambda>pr.
     bind_res (upd_promise callee (set_chain_root (this_chain_task pr)) p1) (\<lambda>p2.
     Inr (callee, p2))))"

text \<open>
  \<open>await_resume\<close> of a task, followed by the destructor of the temporary task at the end of the
  full expression, on the normal and on the exceptional path.
\<close>

definition TaskAwaier_await_resume ::
  "handle \<Rightarrow> ('l, 'v, 'f, 's) proc \<Rightarrow> ('v resume_in \<times> ('l, 'v, 'f, 's) proc) res" where
  "TaskAwaier_await_resume callee p =
     bind_res (promise_at callee p) (\<lambda>pr.
     bind_res (promise_result pr) (\<lambda>(r, pr').
     bind_res (upd_promise callee (\<lambda>_. pr') p) (\<lambda>p1.
     bind_res (Task_dtor \<lparr>task_handle = Some callee\<rparr> (frames p1)) (\<lambda>F.
     Inr (case r of Inl e \<Rightarrow> RExn e | Inr v \<Rightarrow> RVal v, p1\<lparr>frames := F\<rparr>)))))"

text \<open>\<open>UringAwaiter\<close>: the token lives in the awaiter, hence in the awaiting frame.\<close>

definition UringAwaiter_ctor ::
  "op \<Rightarrow> (address \<Rightarrow> 's \<Rightarrow> 's res) \<Rightarrow> ('l, 'v, 'f, 's) proc
   \<Rightarrow> (address \<times> ('l, 'v, 'f, 's) proc) res" where
  "UringAwaiter_ctor op' prep p =
     (let (a, p1) = alloc_obj (Token default_token) p
      in bind_res (prep a (env p1)) (\<lambda>s.
         Inr (a, p1\<lparr>env := s, objs := (objs p1)(a \<mapsto> Token (default_token\<lparr>tok_op := op'\<rparr>))\<rparr>)))"

definition UringAwaiter_await_suspend ::
  "handle \<Rightarrow> address \<Rightarrow> ('l, 'v, 'f, 's) proc \<Rightarrow> ('l, 'v, 'f, 's) proc res" where
  "UringAwaiter_await_suspend h a p =
     bind_res (promise_at h p) (\<lambda>pr.
     bind_res (deref_task (this_chain_task pr)) (\<lambda>ptr.
     bind_res (upd_task ptr (set_awaiting_handle h) p) (\<lambda>p1.
     bind_res (token_at (objs p1) a) (\<lambda>tk.
     upd_task ptr (set_pending True)
       (p1\<lparr>objs := (objs p1)(a \<mapsto> Token (tk\<lparr>chain_task := Some ptr\<rparr>))\<rparr>)))))"

definition UringAwaiter_await_resume ::
  "address \<Rightarrow> ('l, 'v, 'f, 's) proc \<Rightarrow> ('v resume_in \<times> ('l, 'v, 'f, 's) proc) res" where
  "UringAwaiter_await_resume a p =
     bind_res (token_at (objs p) a) (\<lambda>tk. Inr (RCqe (cqe_res tk) (cqe_flags tk), delete_obj a p))"

text \<open>\<open>PendingAwaiter\<close>\<close>

definition PendingAwaiter_await_suspend ::
  "handle \<Rightarrow> ('l, 'v, 'f, 's) proc \<Rightarrow> ('l, 'v, 'f, 's) proc res" where
  "PendingAwaiter_await_suspend h p =
     bind_res (promise_at h p) (\<lambda>pr.
     bind_res (deref_task (this_chain_task pr)) (\<lambda>ptr.
     bind_res (upd_task ptr (set_awaiting_handle h) p) (\<lambda>p1.
     upd_task ptr (set_pending True) p1)))"

text \<open>
  \<open>MultishotAcceptDirectAwaiter\<close>: its token is the static one, and \<open>await_suspend\<close> does
  not mark the task as pending.
\<close>

definition MultishotAcceptDirectAwaiter_ctor ::
  "(address \<Rightarrow> 's \<Rightarrow> 's res) \<Rightarrow> ('l, 'v, 'f, 's) proc \<Rightarrow> ('l, 'v, 'f, 's) proc res" where
  "MultishotAcceptDirectAwaiter_ctor prep p =
     bind_res (token_at (objs p) multishot_token) (\<lambda>tk.
     bind_res (prep multishot_token (env p)) (\<lambda>s.
     Inr (p\<lparr>env := s,
            objs := (objs p)(multishot_token \<mapsto> Token (tk\<lparr>tok_op := Op_MultishotAccept\<rparr>))\<rparr>)))"

definition MultishotAcceptDirectAwaiter_await_suspend ::
  "handle \<Rightarrow> ('l, 'v, 'f, 's) proc \<Rightarrow> ('l, 'v, 'f, 's) proc res" where
  "MultishotAcceptDirectAwaiter_await_suspend h p =
     bind_res (promise_at h p) (\<lambda>pr.
     bind_res (token_at (objs p) multishot_token) (\<lambda>tk.
     bind_res (deref_task (this_chain_task pr)) (\<lambda>ptr.
     upd_task ptr (set_awaiting_handle h)
       (p\<lparr>objs := (objs p)(multishot_token \<mapsto> Token (tk\<lparr>chain_task := Some ptr\<rparr>))\<rparr>))))"

section \<open>One transfer of control\<close>

text \<open>
  \<open>Enter h\<close>: the coroutine \<open>h\<close> is about to be resumed; \<open>Exec h l inp\<close>: its body runs at
  \<open>l\<close>; \<open>Back\<close>: control is back with the code that called \<open>resume\<close>.
\<close>

datatype ('l, 'v) ctl =
    Enter handle
  | Exec handle 'l "'v resume_in"
  | Back

definition await_resume ::
  "awaiter \<Rightarrow> ('l, 'v, 'f, 's) proc \<Rightarrow> ('v resume_in \<times> ('l, 'v, 'f, 's) proc) res" where
  "await_resume w p =
     (case w of
        AwInitial \<Rightarrow> Inr (RStart, p)
      | AwTask callee \<Rightarrow> TaskAwaier_await_resume callee p
      | AwToken a \<Rightarrow> UringAwaiter_await_resume a p
      | AwNothing \<Rightarrow> Inr (RUnit, p))"

definition enter ::
  "handle \<Rightarrow> ('l, 'v, 'f, 's) proc \<Rightarrow> (('l, 'v) ctl \<times> ('l, 'v, 'f, 's) proc) res" where
  "enter h p =
     (case frames p h of
        None \<Rightarrow> Inl DanglingPointer
      | Some f \<Rightarrow>
          (case costate f of
             Suspended l w \<Rightarrow>
               bind_res (set_costate h Running p) (\<lambda>p1.
               bind_res (await_resume w p1) (\<lambda>(inp, p2). Inr (Exec h l inp, p2)))
           | _ \<Rightarrow> Inl DeadCoroutine))"

text \<open>The end of a body: the coroutine is at its final suspension point.\<close>

definition finish ::
  "handle \<Rightarrow> ('v task_promise \<Rightarrow> 'v task_promise) \<Rightarrow> ('l, 'v, 'f, 's) proc
   \<Rightarrow> (('l, 'v) ctl \<times> ('l, 'v, 'f, 's) proc) res" where
  "finish h g p =
     bind_res (upd_promise h g p) (\<lambda>p1.
     bind_res (set_costate h AtFinal p1) (\<lambda>p2.
     bind_res (promise_at h p2) (\<lambda>pr.
     bind_res (final_await_suspend pr) (\<lambda>c.
     Inr (case c of Some h' \<Rightarrow> Enter h' | None \<Rightarrow> Back, p2)))))"

definition perform ::
  "nat \<Rightarrow> handle \<Rightarrow> ('l, 'v, 'f, 's) action \<Rightarrow> ('l, 'v, 'f, 's) proc
   \<Rightarrow> (('l, 'v) ctl \<times> ('l, 'v, 'f, 's) proc) res" where
  "perform t h act p =
     (case act of
        CoReturn v \<Rightarrow> finish h (return_value v) p
      | CoThrow e \<Rightarrow> finish h (unhandled_exception e) p
      | CoAwaitTask g k \<Rightarrow>
          (let (tk, p1) = create_coroutine g p in
           case task_handle tk of
             None \<Rightarrow> Inl NullPointer
           | Some callee \<Rightarrow>
               bind_res (set_costate h (Suspended k (AwTask callee)) p1) (\<lambda>p2.
               bind_res (TaskAwaier_await_suspend callee h p2) (\<lambda>(h', p3).
               Inr (Enter h', p3))))
      | CoAwaitUring op' prep k \<Rightarrow>
          bind_res (UringAwaiter_ctor op' (prep t) p) (\<lambda>(a, p1).
          bind_res (set_costate h (Suspended k (AwToken a)) p1) (\<lambda>p2.
          bind_res (UringAwaiter_await_suspend h a p2) (\<lambda>p3.
          Inr (Back, p3))))
      | CoAwaitPending k \<Rightarrow>
          bind_res (set_costate h (Suspended k AwNothing) p) (\<lambda>p1.
          bind_res (PendingAwaiter_await_suspend h p1) (\<lambda>p2.
          Inr (Back, p2)))
      | CoAwaitMshot prep k \<Rightarrow>
          bind_res (MultishotAcceptDirectAwaiter_ctor (prep t) p) (\<lambda>p1.
          bind_res (set_costate h (Suspended k AwNothing) p1) (\<lambda>p2.
          bind_res (MultishotAcceptDirectAwaiter_await_suspend h p2) (\<lambda>p3.
          Inr (Back, p3))))
      | CoStep f k \<Rightarrow> bind_res (f t p) (\<lambda>(r, p1). Inr (Exec h k r, p1)))"

definition cstep ::
  "('l, 'v, 'f, 's) code \<Rightarrow> nat \<Rightarrow> ('l, 'v) ctl \<Rightarrow> ('l, 'v, 'f, 's) proc
   \<Rightarrow> (('l, 'v) ctl \<times> ('l, 'v, 'f, 's) proc) res" where
  "cstep code t c p =
     (case c of
        Enter h \<Rightarrow> enter h p
      | Exec h l inp \<Rightarrow> perform t h (code l inp) p
      | Back \<Rightarrow> Inr (Back, p))"

text \<open>\<open>coroutine_handle::resume\<close>: symmetric transfers until control comes back.\<close>

partial_function (option) run_ctl ::
  "('l, 'v, 'f, 's) code \<Rightarrow> nat \<Rightarrow> ('l, 'v) ctl \<Rightarrow> ('l, 'v, 'f, 's) proc
   \<Rightarrow> ('l, 'v, 'f, 's) proc res option" where
  "run_ctl code t c p =
     (case c of
        Back \<Rightarrow> Some (Inr p)
      | _ \<Rightarrow> (case cstep code t c p of
                Inl e \<Rightarrow> Some (Inl e)
              | Inr cp \<Rightarrow> run_ctl code t (fst cp) (snd cp)))"

section \<open>Scheduled tasks and the task loop\<close>

text \<open>What follows \<open>awaiting_handle_.resume()\<close> in \<open>ScheduledTask::resume\<close>.\<close>

definition after_resume ::
  "task_ptr \<Rightarrow> ('l, 'v, 'f, 's) proc \<Rightarrow> ('l, 'v, 'f, 's) proc res" where
  "after_resume ptr p =
     (let st = loops p (fst ptr) ! snd ptr in
      bind_res (Task_done (sched_task st) (frames p)) (\<lambda>d.
      if d then upd_task ptr (\<lambda>st. st\<lparr>valid := False\<rparr>) p else Inr p))"

definition ScheduledTask_resume ::
  "('l, 'v, 'f, 's) code \<Rightarrow> task_ptr \<Rightarrow> ('l, 'v, 'f, 's) proc \<Rightarrow> ('l, 'v, 'f, 's) proc res option" where
  "ScheduledTask_resume code ptr p =
     (case awaiting_handle (loops p (fst ptr) ! snd ptr) of
        None \<Rightarrow> Some (Inl NullPointer)
      | Some h \<Rightarrow>
          (case run_ctl code (fst ptr) (Enter h) p of
             None \<Rightarrow> None
           | Some (Inl e) \<Rightarrow> Some (Inl e)
           | Some (Inr p1) \<Rightarrow> Some (after_resume ptr p1)))"

text \<open>
  \<open>TaskLoop::run\<close>: the iteration goes on to the end of the list as it then is, so it visits the
  tasks that are appended while it runs.
\<close>

definition runnable :: "scheduled_task \<Rightarrow> bool" where
  "runnable st \<longleftrightarrow> valid st \<and> \<not> pending st"

partial_function (option) TaskLoop_run_from ::
  "('l, 'v, 'f, 's) code \<Rightarrow> nat \<Rightarrow> nat \<Rightarrow> ('l, 'v, 'f, 's) proc \<Rightarrow> ('l, 'v, 'f, 's) proc res option" where
  "TaskLoop_run_from code t i p =
     (if i < length (loops p t)
      then (case (if runnable (loops p t ! i) then ScheduledTask_resume code (t, i) p
                  else Some (Inr p)) of
              None \<Rightarrow> None
            | Some r \<Rightarrow> (case r of
                Inl e \<Rightarrow> Some (Inl e)
              | Inr p1 \<Rightarrow> TaskLoop_run_from code t (Suc i) p1))
      else Some (Inr p))"

definition TaskLoop_run ::
  "('l, 'v, 'f, 's) code \<Rightarrow> nat \<Rightarrow> ('l, 'v, 'f, 's) proc \<Rightarrow> ('l, 'v, 'f, 's) proc res option" where
  "TaskLoop_run code t p = TaskLoop_run_from code t 0 p"

definition TaskLoop_empty :: "nat \<Rightarrow> ('l, 'v, 'f, 's) proc \<Rightarrow> bool" where
  "TaskLoop_empty t p \<longleftrightarrow> loops p t = []"

definition TaskLoop_size :: "nat \<Rightarrow> ('l, 'v, 'f, 's) proc \<Rightarrow> nat" where
  "TaskLoop_size t p = length (loops p t)"

text \<open>\<open>context::co_spawn\<close>, as plain code of a coroutine.\<close>

definition co_spawn ::
  "'l \<Rightarrow> 'v \<Rightarrow> nat \<Rightarrow> ('l, 'v, 'f, 's) proc \<Rightarrow> ('v resume_in \<times> ('l, 'v, 'f, 's) proc) res" where
  "co_spawn l u t p = bind_res (emplace_back t l p) (\<lambda>p1. Inr (RVal u, p1))"

end
