(* ===== verification/Chain_Invariant.thy ===== *)
theory Chain_Invariant
  imports Chain
begin

text \<open>
  The invariant of the coroutine layer. Every scheduled task owns a chain of coroutine frames, from
  the root that the task object holds to the innermost suspended coroutine. The chain is linked
  downwards by what each coroutine awaits and upwards by \<open>caller_\<close>; every promise on it names the
  scheduled task as the root of its chain; \<open>awaiting_handle_\<close> is the innermost coroutine. Chains
  of different tasks share no frame. A map \<open>S\<close> from task pointers to chains is the witness of
  the invariant.
\<close>

declare split_paired_All [simp del] split_paired_Ex [simp del]

section \<open>Linked chains\<close>

definition pr_ok :: "task_ptr \<Rightarrow> handle option \<Rightarrow> 'v task_promise \<Rightarrow> bool" where
  "pr_ok ptr c pr \<longleftrightarrow> caller pr = c \<and> this_chain_task pr = Some ptr \<and> exn_ptr pr = None"

fun linked :: "('l, 'v) frames \<Rightarrow> task_ptr \<Rightarrow> handle option \<Rightarrow> handle list \<Rightarrow> bool" where
  "linked F ptr c [] = True"
| "linked F ptr c (h # hs) =
     (\<exists>f. F h = Some f \<and> pr_ok ptr c (promise f) \<and>
          (case hs of [] \<Rightarrow> True | h' # _ \<Rightarrow> \<exists>l. costate f = Suspended l (AwTask h')) \<and>
          linked F ptr (Some h) hs)"

lemma linked_cong: "(\<And>h. h \<in> set hs \<Longrightarrow> F' h = F h) \<Longrightarrow> linked F' ptr c hs = linked F ptr c hs"
  by (induction hs arbitrary: c) auto

lemma linked_upd_other [simp]: "h \<notin> set hs \<Longrightarrow> linked (F(h := x)) ptr c hs = linked F ptr c hs"
  by (rule linked_cong) auto

lemma linked_snoc:
  "linked F ptr c (hs @ [h]) \<longleftrightarrow>
     linked F ptr c hs \<and>
     (\<exists>f. F h = Some f \<and> pr_ok ptr (if hs = [] then c else Some (last hs)) (promise f)) \<and>
     (hs \<noteq> [] \<longrightarrow> (\<exists>f l. F (last hs) = Some f \<and> costate f = Suspended l (AwTask h)))"
proof (induction hs arbitrary: c)
  case Nil
  then show ?case by simp
next
  case (Cons a hs)
  show ?case
  proof (cases hs)
    case Nil
    then show ?thesis by auto
  next
    case (Cons b zs)
    then have ne: "hs \<noteq> []" by simp
    let ?A = "\<exists>f l. F a = Some f \<and> pr_ok ptr c (promise f) \<and> costate f = Suspended l (AwTask b)"
    have 1: "linked F ptr c ((a # hs) @ [h]) \<longleftrightarrow> ?A \<and> linked F ptr (Some a) (hs @ [h])"
      by (auto simp: Cons)
    have 2: "linked F ptr c (a # hs) \<longleftrightarrow> ?A \<and> linked F ptr (Some a) hs"
      by (auto simp: Cons)
    show ?thesis
      unfolding 1 2 Cons.IH using ne by auto
  qed
qed

lemma linked_dom: "linked F ptr c hs \<Longrightarrow> h \<in> set hs \<Longrightarrow> h \<in> dom F"
  by (induction hs arbitrary: c) auto

lemma linked_last:
  assumes "linked F ptr c hs" and "hs \<noteq> []"
  obtains f where "F (last hs) = Some f"
    and "pr_ok ptr (if butlast hs = [] then c else Some (last (butlast hs))) (promise f)"
  using assms linked_snoc [of F ptr c "butlast hs" "last hs"] by auto

text \<open>Changing the state of the innermost frame, and only that, keeps the chain.\<close>

lemma linked_upd_last:
  assumes L: "linked F ptr c hs" and ne: "hs \<noteq> []" and d: "distinct hs"
    and f: "F (last hs) = Some f" and pr: "promise f' = promise f"
  shows "linked (F(last hs \<mapsto> f')) ptr c hs"
proof -
  obtain ys h where hs: "hs = ys @ [h]" using ne by (metis append_butlast_last_id)
  with L f pr d show ?thesis by (auto simp: linked_snoc)
qed

section \<open>Tasks at rest\<close>

text \<open>The operations whose completion resumes the awaiting task (the default branch of the handler).\<close>

definition default_op :: "op \<Rightarrow> bool" where
  "default_op op' \<longleftrightarrow>
     op' \<notin> {Op_SyncCloseDirect, Op_Quit, Op_CancelAny, Op_RingTask, Op_RingFdSender,
            Op_RingFdReceiver, Op_MainRingCloseDirectSocket, Op_MultishotAccept,
            Op_MultishotAcceptFdReceiver}"

definition aw_ok :: "'f heap \<Rightarrow> task_ptr \<Rightarrow> awaiter \<Rightarrow> bool" where
  "aw_ok H ptr w =
     (case w of
        AwInitial \<Rightarrow> True
      | AwNothing \<Rightarrow> True
      | AwTask _ \<Rightarrow> False
      | AwToken a \<Rightarrow> a \<noteq> multishot_token \<and>
          (\<exists>tk. H a = Some (Token tk) \<and> chain_task tk = Some ptr \<and> default_op (tok_op tk)))"

definition top_ok :: "('l, 'v) frames \<Rightarrow> 'f heap \<Rightarrow> task_ptr \<Rightarrow> handle \<Rightarrow> bool" where
  "top_ok F H ptr h \<longleftrightarrow> (\<exists>f l w. F h = Some f \<and> costate f = Suspended l w \<and> aw_ok H ptr w)"

definition at_rest ::
  "('l, 'v) frames \<Rightarrow> 'f heap \<Rightarrow> handle list \<Rightarrow> task_ptr \<Rightarrow> scheduled_task \<Rightarrow> bool" where
  "at_rest F H hs ptr st \<longleftrightarrow>
     hs \<noteq> [] \<and> distinct hs \<and> task_handle (sched_task st) = Some (hd hs) \<and>
     (if valid st
      then linked F ptr None hs \<and> awaiting_handle st = Some (last hs) \<and> top_ok F H ptr (last hs)
      else hs = [hd hs] \<and> (\<exists>f. F (hd hs) = Some f \<and> costate f = AtFinal))"

lemma at_rest_dom: "at_rest F H hs ptr st \<Longrightarrow> h \<in> set hs \<Longrightarrow> h \<in> dom F"
  by (cases hs) (auto simp: at_rest_def dest: linked_dom split: if_splits)

lemma top_ok_cong:
  assumes "top_ok F H ptr h" and "F' h = F h"
    and "\<And>a tk. H a = Some (Token tk) \<Longrightarrow> chain_task tk = Some ptr \<Longrightarrow> a \<noteq> multishot_token
      \<Longrightarrow> default_op (tok_op tk) \<Longrightarrow> \<exists>tk'. H' a = Some (Token tk') \<and> chain_task tk' = Some ptr \<and> tok_op tk' = tok_op tk"
  shows "top_ok F' H' ptr h"
  using assms unfolding top_ok_def aw_ok_def by (fastforce split: awaiter.splits)

lemma at_rest_cong:
  assumes "at_rest F H hs ptr st" and "\<And>h. h \<in> set hs \<Longrightarrow> F' h = F h"
    and "\<And>a tk. H a = Some (Token tk) \<Longrightarrow> chain_task tk = Some ptr \<Longrightarrow> a \<noteq> multishot_token
      \<Longrightarrow> default_op (tok_op tk) \<Longrightarrow> \<exists>tk'. H' a = Some (Token tk') \<and> chain_task tk' = Some ptr \<and> tok_op tk' = tok_op tk"
  shows "at_rest F' H' hs ptr st"
proof -
  have ne: "hs \<noteq> []" using assms(1) by (simp add: at_rest_def)
  have "linked F' ptr None hs = linked F ptr None hs" using assms(2) by (rule linked_cong)
  moreover have "top_ok F H ptr (last hs) \<Longrightarrow> top_ok F' H' ptr (last hs)"
    by (rule top_ok_cong) (use ne assms(2,3) in auto)
  ultimately show ?thesis using assms(1,2) ne by (auto simp: at_rest_def)
qed

section \<open>The invariant of the process\<close>

definition in_range :: "('l, 'v, 'f, 's) proc \<Rightarrow> task_ptr \<Rightarrow> bool" where
  "in_range p q \<longleftrightarrow> snd q < length (loops p (fst q))"

definition task_at :: "('l, 'v, 'f, 's) proc \<Rightarrow> task_ptr \<Rightarrow> scheduled_task" where
  "task_at p q = loops p (fst q) ! snd q"

type_synonym chains = "task_ptr \<Rightarrow> handle list"

definition disjoint_chains :: "chains \<Rightarrow> ('l, 'v, 'f, 's) proc \<Rightarrow> bool" where
  "disjoint_chains S p \<longleftrightarrow>
     (\<forall>q q'. in_range p q \<longrightarrow> in_range p q' \<longrightarrow> q \<noteq> q' \<longrightarrow> set (S q) \<inter> set (S q') = {})"

definition bounded :: "('l, 'v, 'f, 's) proc \<Rightarrow> bool" where
  "bounded p \<longleftrightarrow>
     multishot_token < fresh p \<and> (\<exists>tk. objs p multishot_token = Some (Token tk)) \<and>
     (\<forall>h f. frames p h = Some f \<longrightarrow> h < fresh p) \<and>
     (\<forall>a ob. objs p a = Some ob \<longrightarrow> a < fresh p)"

text \<open>A coroutine that is held by a message to another ring and has not been scheduled yet.\<close>

definition parked_frame :: "('l, 'v) frame \<Rightarrow> bool" where
  "parked_frame f \<longleftrightarrow>
     caller (promise f) = None \<and> exn_ptr (promise f) = None \<and> (\<exists>l. costate f = Suspended l AwInitial)"

definition parked :: "chains \<Rightarrow> ('l, 'v, 'f, 's) proc \<Rightarrow> bool" where
  "parked S p \<longleftrightarrow>
     (\<forall>a m h. objs p a = Some (MsgTask m) \<longrightarrow> msg_task m = Some h \<longrightarrow>
        (\<exists>f. frames p h = Some f \<and> parked_frame f) \<and>
        (\<forall>q. in_range p q \<longrightarrow> h \<notin> set (S q)) \<and>
        (\<forall>a' m'. objs p a' = Some (MsgTask m') \<longrightarrow> msg_task m' = Some h \<longrightarrow> a' = a))"

lemma parkedD:
  assumes "parked S p" and "objs p a = Some (MsgTask m)" and "msg_task m = Some h"
  shows "\<exists>f. frames p h = Some f \<and> parked_frame f"
    and "in_range p q \<Longrightarrow> h \<notin> set (S q)"
    and "objs p a' = Some (MsgTask m') \<Longrightarrow> msg_task m' = Some h \<Longrightarrow> a' = a"
  using assms unfolding parked_def by blast+

definition others :: "chains \<Rightarrow> task_ptr option \<Rightarrow> ('l, 'v, 'f, 's) proc \<Rightarrow> bool" where
  "others S ptr p \<longleftrightarrow>
     disjoint_chains S p \<and> bounded p \<and> parked S p \<and>
     (\<forall>q. in_range p q \<longrightarrow> set (S q) \<subseteq> dom (frames p)) \<and>
     (\<forall>q. in_range p q \<longrightarrow> Some q \<noteq> ptr \<longrightarrow> at_rest (frames p) (objs p) (S q) q (task_at p q))"

text \<open>No coroutine runs: every task is at rest.\<close>

definition well_formed :: "chains \<Rightarrow> ('l, 'v, 'f, 's) proc \<Rightarrow> bool" where
  "well_formed S p \<longleftrightarrow> others S None p"

text \<open>The callee has just reached its final suspension point and its caller is about to go on.\<close>

definition returned :: "('l, 'v) frames \<Rightarrow> handle \<Rightarrow> handle \<Rightarrow> bool" where
  "returned F h callee \<longleftrightarrow>
     (\<exists>f l g. F h = Some f \<and> costate f = Suspended l (AwTask callee) \<and>
        F callee = Some g \<and> costate g = AtFinal \<and>
        (exn_ptr (promise g) \<noteq> None \<or> slot (promise_res (promise g)) \<noteq> None))"

definition ctl_ok ::
  "handle list \<Rightarrow> task_ptr \<Rightarrow> ('l, 'v) ctl \<Rightarrow> ('l, 'v, 'f, 's) proc \<Rightarrow> bool" where
  "ctl_ok hs ptr c p =
     (case c of
        Exec h l inp \<Rightarrow> linked (frames p) ptr None hs \<and> last hs = h \<and>
          (\<exists>f. frames p h = Some f \<and> costate f = Running)
      | Enter h \<Rightarrow>
          (linked (frames p) ptr None hs \<and> last hs = h \<and> top_ok (frames p) (objs p) ptr h) \<or>
          (butlast hs \<noteq> [] \<and> last (butlast hs) = h \<and> linked (frames p) ptr None (butlast hs) \<and>
           returned (frames p) h (last hs))
      | Back \<Rightarrow>
          at_rest (frames p) (objs p) hs ptr (task_at p ptr) \<or>
          (hs = [hd hs] \<and> (\<exists>f. frames p (hd hs) = Some f \<and> costate f = AtFinal)))"

definition run_inv ::
  "chains \<Rightarrow> task_ptr \<Rightarrow> ('l, 'v) ctl \<Rightarrow> ('l, 'v, 'f, 's) proc \<Rightarrow> bool" where
  "run_inv S ptr c p \<longleftrightarrow>
     others S (Some ptr) p \<and> in_range p ptr \<and> valid (task_at p ptr) \<and>
     S ptr \<noteq> [] \<and> distinct (S ptr) \<and>
     task_handle (sched_task (task_at p ptr)) = Some (hd (S ptr)) \<and>
     ctl_ok (S ptr) ptr c p"

section \<open>Elementary effects on the invariant\<close>

lemma in_range_simps [simp]:
  "in_range (p\<lparr>frames := F\<rparr>) q = in_range p q"
  "in_range (p\<lparr>objs := H\<rparr>) q = in_range p q"
  "in_range (p\<lparr>env := s\<rparr>) q = in_range p q"
  "in_range (p\<lparr>fresh := n\<rparr>) q = in_range p q"
  by (simp_all add: in_range_def)

lemma task_at_simps [simp]:
  "task_at (p\<lparr>frames := F\<rparr>) q = task_at p q"
  "task_at (p\<lparr>objs := H\<rparr>) q = task_at p q"
  "task_at (p\<lparr>env := s\<rparr>) q = task_at p q"
  "task_at (p\<lparr>fresh := n\<rparr>) q = task_at p q"
  by (simp_all add: task_at_def)

lemma upd_task_in_range:
  assumes "in_range p q"
  obtains p' where "upd_task q g p = Inr p'" and "frames p' = frames p" and "objs p' = objs p"
    and "fresh p' = fresh p" and "env p' = env p"
    and "\<And>q'. in_range p' q' = in_range p q'"
    and "\<And>q'. task_at p' q' = (if q' = q then g (task_at p q) else task_at p q')"
    and "\<And>t. length (loops p' t) = length (loops p t)"
proof -
  let ?p = "p\<lparr>loops := (loops p)(fst q := (loops p (fst q))[snd q := g (loops p (fst q) ! snd q)])\<rparr>"
  have "upd_task q g p = Inr ?p" using assms by (simp add: upd_task_def in_range_def Let_def)
  moreover have "task_at ?p q' = (if q' = q then g (task_at p q) else task_at p q')" for q'
    using assms by (cases q, cases q') (auto simp: task_at_def in_range_def nth_list_update)
  moreover have "in_range ?p q' = in_range p q'" for q'
    by (auto simp: in_range_def)
  ultimately show ?thesis using that [of ?p] by simp
qed

text \<open>
  The frame rule of the layer: a step of one task that touches only frames of its own chain and
  fresh ones, and no token of another task, keeps all other tasks as they are.
\<close>

text \<open>
  A step of the task at \<open>ptr\<close> leaves the frames outside its chain alone and takes new frames only from
  the free addresses: the chains stay apart, and what waits in a message for its worker stays parked.
\<close>

lemma disjoint_chains_step:
  assumes DJ: "disjoint_chains S p" and R: "\<And>q. in_range p' q = in_range p q"
    and S: "\<And>q. q \<noteq> ptr \<Longrightarrow> S' q = S q"
    and SP: "\<And>h. h \<in> set (S' ptr) \<Longrightarrow> h \<in> set (S ptr) \<or> fresh p \<le> h"
    and lt: "\<And>h q. in_range p q \<Longrightarrow> q \<noteq> ptr \<Longrightarrow> h \<in> set (S q) \<Longrightarrow> h < fresh p"
    and I: "in_range p ptr"
  shows "disjoint_chains S' p'"
proof -
  have sub: "set (S' q) \<inter> set (S' ptr) = {}" if q: "in_range p q" "q \<noteq> ptr" for q
  proof -
    have "set (S q) \<inter> set (S ptr) = {}" using DJ q I unfolding disjoint_chains_def by blast
    then have "h \<notin> set (S' ptr)" if "h \<in> set (S q)" for h
      using SP [of h] lt [OF q that] that by auto
    then show ?thesis using S [OF q(2)] by auto
  qed
  have dj: "set (S' q) \<inter> set (S' q') = {}" if "in_range p q" "in_range p q'" "q \<noteq> q'" "q \<noteq> ptr" "q' \<noteq> ptr" for q q'
    using DJ S [OF that(4)] S [OF that(5)] that(1-3) by (simp add: disjoint_chains_def)
  show ?thesis
    unfolding disjoint_chains_def R
    using sub dj by (metis Int_commute)
qed

lemma parked_step:
  assumes P: "parked S p" and R: "\<And>q. in_range p' q = in_range p q"
    and S: "\<And>q. q \<noteq> ptr \<Longrightarrow> S' q = S q"
    and SP: "\<And>h. h \<in> set (S' ptr) \<Longrightarrow> h \<in> set (S ptr) \<or> fresh p \<le> h"
    and F: "\<And>h. h \<notin> set (S ptr) \<Longrightarrow> h < fresh p \<Longrightarrow> frames p' h = frames p h"
    and M: "\<And>a m. objs p' a = Some (MsgTask m) \<Longrightarrow> objs p a = Some (MsgTask m)"
    and bp: "\<And>h. h \<in> dom (frames p) \<Longrightarrow> h < fresh p" and I: "in_range p ptr"
  shows "parked S' p'"
  unfolding parked_def
proof (intro allI impI)
  fix a m h assume a: "objs p' a = Some (MsgTask m)" and h: "msg_task m = Some h"
  note pd = parkedD [OF P M [OF a] h]
  then obtain f where f: "frames p h = Some f" "parked_frame f" by blast
  note nin = pd(2) and uq = pd(3)
  have lth: "h < fresh p" using f bp by blast
  then have "frames p' h = Some f" using F nin [OF I] f by simp
  moreover have "h \<notin> set (S' q)" if "in_range p' q" for q
  proof (cases "q = ptr")
    case True
    then show ?thesis using SP nin [OF I] lth by (meson linorder_not_less)
  next
    case False
    then show ?thesis using S nin that R by simp
  qed
  ultimately show "(\<exists>f. frames p' h = Some f \<and> parked_frame f) \<and>
      (\<forall>q. in_range p' q \<longrightarrow> h \<notin> set (S' q)) \<and>
      (\<forall>a' m'. objs p' a' = Some (MsgTask m') \<longrightarrow> msg_task m' = Some h \<longrightarrow> a' = a)"
    using f(2) uq M by blast
qed

lemma others_step:
  assumes O: "others S (Some ptr) p"
    and R: "\<And>q. in_range p' q = in_range p q"
    and T: "\<And>q. q \<noteq> ptr \<Longrightarrow> in_range p q \<Longrightarrow> task_at p' q = task_at p q"
    and B: "bounded p'"
    and F: "\<And>h. h \<notin> set (S ptr) \<Longrightarrow> h < fresh p \<Longrightarrow> frames p' h = frames p h"
    and H: "\<And>q a tk. q \<noteq> ptr \<Longrightarrow> objs p a = Some (Token tk) \<Longrightarrow> chain_task tk = Some q
      \<Longrightarrow> a \<noteq> multishot_token \<Longrightarrow> objs p' a = objs p a"
    and M: "\<And>a m. objs p' a = Some (MsgTask m) \<Longrightarrow> objs p a = Some (MsgTask m)"
    and S: "\<And>q. q \<noteq> ptr \<Longrightarrow> S' q = S q"
    and SP: "\<And>h. h \<in> set (S' ptr) \<Longrightarrow> h \<in> set (S ptr) \<or> fresh p \<le> h"
    and D: "set (S' ptr) \<subseteq> dom (frames p')"
    and I: "in_range p ptr"
  shows "others S' (Some ptr) p'"
proof -
  have bp: "\<And>h. h \<in> dom (frames p) \<Longrightarrow> h < fresh p" using O by (auto simp: others_def bounded_def)
  have rest: "at_rest (frames p) (objs p) (S q) q (task_at p q)" if "in_range p q" "q \<noteq> ptr" for q
    using O that unfolding others_def by blast
  have DJ: "disjoint_chains S p" and P: "parked S p" using O by (simp_all add: others_def)
  have lt: "h < fresh p" if "in_range p q" "q \<noteq> ptr" "h \<in> set (S q)" for h q
    using bp at_rest_dom [OF rest [OF that(1,2)] that(3)] by blast
  have out: "h \<notin> set (S ptr)" if "in_range p q" "q \<noteq> ptr" "h \<in> set (S q)" for h q
    using DJ that I unfolding disjoint_chains_def by blast
  have "disjoint_chains S' p'" by (rule disjoint_chains_step [OF DJ R S SP lt I])
  moreover have "parked S' p'" by (rule parked_step [OF P R S SP F M bp I])
  moreover have "at_rest (frames p') (objs p') (S' q) q (task_at p' q)"
    if "in_range p' q" "q \<noteq> ptr" for q
  proof -
    have q: "in_range p q" using that R by simp
    have "at_rest (frames p') (objs p') (S q) q (task_at p q)"
      by (rule at_rest_cong [OF rest [OF q that(2)]])
        (use F out [OF q that(2)] lt [OF q that(2)] H that(2) in auto)
    then show ?thesis using S T q that(2) by simp
  qed
  moreover have "set (S' q) \<subseteq> dom (frames p')" if q: "in_range p' q" for q
  proof (cases "q = ptr")
    case True
    then show ?thesis using D by simp
  next
    case False
    note q' = q [unfolded R] False
    have "h \<in> dom (frames p')" if h: "h \<in> set (S q)" for h
      using F [OF out [OF q' h] lt [OF q' h]] at_rest_dom [OF rest [OF q'] h] by (simp add: domIff)
    then show ?thesis using S [OF False] by auto
  qed
  ultimately show ?thesis using B unfolding others_def by blast
qed

text \<open>What the invariant gives for one task.\<close>

lemma others_at_rest:
  "others S o' p \<Longrightarrow> in_range p q \<Longrightarrow> Some q \<noteq> o' \<Longrightarrow>
    at_rest (frames p) (objs p) (S q) q (task_at p q)"
  unfolding others_def by blast

lemma others_chain_dom: "others S o' p \<Longrightarrow> in_range p q \<Longrightarrow> set (S q) \<subseteq> dom (frames p)"
  unfolding others_def by blast

lemma others_disjoint:
  "others S o' p \<Longrightarrow> in_range p q \<Longrightarrow> in_range p q' \<Longrightarrow> q \<noteq> q' \<Longrightarrow> set (S q) \<inter> set (S q') = {}"
  unfolding others_def disjoint_chains_def by blast

lemma others_bounded: "others S o' p \<Longrightarrow> bounded p"
  by (simp add: others_def)

lemma others_parked: "others S o' p \<Longrightarrow> parked S p"
  by (simp add: others_def)

lemmas others_dests = others_at_rest others_chain_dom others_disjoint others_bounded others_parked

lemma bounded_frame: "bounded p \<Longrightarrow> frames p h = Some f \<Longrightarrow> h < fresh p"
  by (auto simp: bounded_def)

lemma bounded_obj: "bounded p \<Longrightarrow> objs p a = Some ob \<Longrightarrow> a < fresh p"
  by (auto simp: bounded_def)

lemma fresh_frame: "bounded p \<Longrightarrow> fresh p \<le> h \<Longrightarrow> frames p h = None"
  by (meson bounded_frame linorder_not_less not_None_eq)

lemma fresh_obj: "bounded p \<Longrightarrow> fresh p \<le> a \<Longrightarrow> objs p a = None"
  by (meson bounded_obj linorder_not_less not_None_eq)

lemma bounded_mono:
  assumes "bounded p" and "fresh p \<le> fresh p'"
    and "\<And>tk. objs p multishot_token = Some (Token tk)
      \<Longrightarrow> \<exists>tk'. objs p' multishot_token = Some (Token tk')"
    and "\<And>h. frames p' h \<noteq> None \<Longrightarrow> frames p h \<noteq> None \<or> h < fresh p'"
    and "\<And>a. objs p' a \<noteq> None \<Longrightarrow> objs p a \<noteq> None \<or> a < fresh p'"
  shows "bounded p'"
proof -
  have "h < fresh p'" if "frames p' h = Some f" for h f
    using assms(4) [of h] that bounded_frame [OF assms(1), of h] assms(2) by fastforce
  moreover have "a < fresh p'" if "objs p' a = Some ob" for a ob
    using assms(5) [of a] that bounded_obj [OF assms(1), of a] assms(2) by fastforce
  ultimately show ?thesis using assms(1-3) unfolding bounded_def by auto
qed

lemma multishot_lt_fresh: "bounded p \<Longrightarrow> multishot_token < fresh p"
  by (simp add: bounded_def)

lemma multishot_neq_fresh [simp]:
  "bounded p \<Longrightarrow> multishot_token \<noteq> fresh p" "bounded p \<Longrightarrow> multishot_token \<noteq> Suc (fresh p)"
  by (auto simp: bounded_def)

end
