(* ===== verification/Chain_Growth.thy ===== *)
theory Chain_Growth
  imports Chain_Invariant
begin

text \<open>
  What plain code between two suspension points may do to the process: allocate objects, make
  coroutines, hand them to another ring or schedule them, and change the state of the other
  components. \<open>grow\<close> is the closure of these effects; every one keeps the invariant of the
  coroutine layer and leaves what exists alone.
\<close>

section \<open>Extension of a process state\<close>

definition extends :: "('l, 'v, 'f, 's) proc \<Rightarrow> ('l, 'v, 'f, 's) proc \<Rightarrow> bool" where
  "extends p p' \<longleftrightarrow>
     fresh p \<le> fresh p' \<and>
     (\<forall>q. in_range p q \<longrightarrow> in_range p' q \<and> task_at p' q = task_at p q) \<and>
     (\<forall>h f. frames p h = Some f \<longrightarrow> frames p' h = Some f) \<and>
     (\<forall>a ob. objs p a = Some ob \<longrightarrow> objs p' a = Some ob)"

lemma extends_refl [simp]: "extends p p"
  by (simp add: extends_def)

lemma extends_trans: "extends p q \<Longrightarrow> extends q r \<Longrightarrow> extends p r"
  unfolding extends_def by auto

inductive grow :: "('l, 'v, 'f, 's) proc \<Rightarrow> ('l, 'v, 'f, 's) proc \<Rightarrow> bool" for p where
  grow_refl: "grow p p"
| grow_env: "grow p q \<Longrightarrow> grow p (q\<lparr>env := s\<rparr>)"
| grow_obj: "grow p q \<Longrightarrow> (\<And>m. ob = MsgTask m \<Longrightarrow> msg_task m = None) \<Longrightarrow> alloc_obj ob q = (a, q')
    \<Longrightarrow> grow p q'"
| grow_frame: "grow p q \<Longrightarrow> create_coroutine l q = (tk, q') \<Longrightarrow> grow p q'"
| grow_msg: "grow p q \<Longrightarrow> create_coroutine l q = (tk, q1) \<Longrightarrow>
    alloc_obj (MsgTask \<lparr>msg_task = task_handle tk\<rparr>) q1 = (a, q') \<Longrightarrow> grow p q'"
| grow_spawn: "grow p q \<Longrightarrow> emplace_back t l q = Inr q' \<Longrightarrow> grow p q'"

lemma grow_trans: "grow p q \<Longrightarrow> grow q r \<Longrightarrow> grow p r"
proof (rotate_tac 1, induction rule: grow.induct)
  case (grow_obj r ob a q')
  show ?case by (rule grow.grow_obj [OF grow_obj.IH [OF grow_obj.prems] grow_obj.hyps(2,3)])
next
  case (grow_msg r l tk q1 a q')
  then show ?case by (blast intro: grow.grow_msg)
qed (blast intro: grow.intros)+

section \<open>The effects keep the invariant\<close>

lemma others_unscheduled:
  assumes O: "others S o' p"
    and R: "\<And>q. in_range p' q = in_range p q"
    and T: "\<And>q. task_at p' q = task_at p q"
    and B: "bounded p'"
    and F: "\<And>h. h < fresh p \<Longrightarrow> frames p' h = frames p h"
    and H: "\<And>a. a < fresh p \<Longrightarrow> objs p' a = objs p a"
    and N: "\<And>a m h. fresh p \<le> a \<Longrightarrow> objs p' a = Some (MsgTask m) \<Longrightarrow> msg_task m = Some h \<Longrightarrow>
      fresh p \<le> h \<and> (\<exists>f. frames p' h = Some f \<and> parked_frame f) \<and>
      (\<forall>a' m'. objs p' a' = Some (MsgTask m') \<longrightarrow> msg_task m' = Some h \<longrightarrow> a' = a)"
  shows "others S o' p'"
proof -
  note bnd = others_bounded [OF O]
  have sub: "set (S q) \<subseteq> dom (frames p)" if "in_range p' q" for q
    using others_chain_dom [OF O] that R by simp
  have lt: "h < fresh p" if "in_range p' q" "h \<in> set (S q)" for q h
    using sub [OF that(1)] that(2) bounded_frame [OF bnd] by blast
  have keep: "frames p' h = frames p h" if "in_range p' q" "h \<in> set (S q)" for q h
    using F lt [OF that] by simp
  have rest': "at_rest (frames p') (objs p') (S q) q (task_at p' q)"
    if "in_range p' q" "Some q \<noteq> o'" for q
    unfolding T
    by (rule at_rest_cong [OF others_at_rest [OF O that(1) [unfolded R] that(2)]])
      (use keep [OF that(1)] H bounded_obj [OF bnd] in auto)
  have "parked S p'"
    unfolding parked_def
  proof (intro allI impI)
    fix a m h assume a: "objs p' a = Some (MsgTask m)" and h: "msg_task m = Some h"
    show "(\<exists>f. frames p' h = Some f \<and> parked_frame f) \<and> (\<forall>q. in_range p' q \<longrightarrow> h \<notin> set (S q)) \<and>
        (\<forall>a' m'. objs p' a' = Some (MsgTask m') \<longrightarrow> msg_task m' = Some h \<longrightarrow> a' = a)"
    proof (cases "a < fresh p")
      case True
      then have a': "objs p a = Some (MsgTask m)" using H a by simp
      note pd = parkedD [OF others_parked [OF O] a' h]
      obtain f where f: "frames p h = Some f" "parked_frame f" using pd(1) by blast
      have lth: "h < fresh p" using f bounded_frame [OF bnd] by blast
      have "a'' = a" if "objs p' a'' = Some (MsgTask m')" "msg_task m' = Some h" for a'' m'
      proof (cases "a'' < fresh p")
        case True
        then show ?thesis using pd(3) that H by simp
      next
        case False
        then show ?thesis using N that lth by (meson linorder_not_less)
      qed
      then show ?thesis using f F lth pd(2) R by auto
    next
      case False
      then have n: "fresh p \<le> h \<and> (\<exists>f. frames p' h = Some f \<and> parked_frame f) \<and>
        (\<forall>a' m'. objs p' a' = Some (MsgTask m') \<longrightarrow> msg_task m' = Some h \<longrightarrow> a' = a)"
        using N [OF _ a h] by simp
      then have "h \<notin> set (S q)" if "in_range p' q" for q
        using lt [OF that] by (meson linorder_not_less)
      with n show ?thesis by blast
    qed
  qed
  moreover have "disjoint_chains S p'" using O R by (simp add: others_def disjoint_chains_def)
  moreover have "set (S q) \<subseteq> dom (frames p')" if "in_range p' q" for q
    using sub [OF that] keep [OF that] by (auto simp: subset_iff dom_def)
  ultimately show ?thesis using rest' B unfolding others_def by blast
qed

lemma others_env [simp]: "others S o' (p\<lparr>env := s\<rparr>) = others S o' p"
  by (simp add: others_def disjoint_chains_def bounded_def parked_def)

lemma others_alloc_obj:
  assumes O: "others S o' p" and ob: "\<And>m. ob = MsgTask m \<Longrightarrow> msg_task m = None"
    and a: "alloc_obj ob p = (a, p')"
  shows "others S o' p'"
proof (rule others_unscheduled [OF O])
  note bnd = others_bounded [OF O]
  show "bounded p'" using a bnd by (intro bounded_mono [OF bnd]) (auto simp: alloc_obj_def split: if_splits)
  fix b m h assume "fresh p \<le> b" "objs p' b = Some (MsgTask m)" "msg_task m = Some h"
  then have False using a ob fresh_obj [OF bnd] by (auto simp: alloc_obj_def split: if_splits)
  then show "fresh p \<le> h \<and> (\<exists>f. frames p' h = Some f \<and> parked_frame f) \<and>
      (\<forall>a' m'. objs p' a' = Some (MsgTask m') \<longrightarrow> msg_task m' = Some h \<longrightarrow> a' = b)" ..
qed (use a in \<open>auto simp: alloc_obj_def\<close>)

lemma parked_new_frame: "parked_frame \<lparr>promise = new_promise, costate = Suspended l AwInitial\<rparr>"
  by (simp add: parked_frame_def new_promise_def)

lemma others_create_coroutine:
  assumes O: "others S o' p" and c: "create_coroutine l p = (tk, p')"
  shows "others S o' p'"
proof (rule others_unscheduled [OF O])
  note bnd = others_bounded [OF O]
  show "bounded p'" using c bnd
    by (intro bounded_mono [OF bnd]) (auto simp: create_coroutine_def split: if_splits)
  fix b m h assume "fresh p \<le> b" "objs p' b = Some (MsgTask m)" "msg_task m = Some h"
  then have False using c fresh_obj [OF bnd] by (auto simp: create_coroutine_def)
  then show "fresh p \<le> h \<and> (\<exists>f. frames p' h = Some f \<and> parked_frame f) \<and>
      (\<forall>a' m'. objs p' a' = Some (MsgTask m') \<longrightarrow> msg_task m' = Some h \<longrightarrow> a' = b)" ..
qed (use c in \<open>auto simp: create_coroutine_def\<close>)

lemma others_create_msg:
  assumes O: "others S o' p" and c: "create_coroutine l p = (tk, p1)"
    and a: "alloc_obj (MsgTask \<lparr>msg_task = task_handle tk\<rparr>) p1 = (a, p')"
  shows "others S o' p'"
proof (rule others_unscheduled [OF O])
  note bnd = others_bounded [OF O]
  show "bounded p'" using c a bnd 
    by (intro bounded_mono [OF bnd]) (auto simp: create_coroutine_def alloc_obj_def split: if_splits)
  fix b m h assume b: "fresh p \<le> b" "objs p' b = Some (MsgTask m)" "msg_task m = Some h"
  have old: "h' < fresh p" if "objs p a' = Some (MsgTask m')" "msg_task m' = Some h'" for a' m' h'
    using parkedD(1) [OF others_parked [OF O] that] bounded_frame [OF bnd] by blast
  have "h = fresh p" "b = Suc (fresh p)"
    using b c a fresh_obj [OF bnd] by (auto simp: create_coroutine_def alloc_obj_def split: if_splits)
  then show "fresh p \<le> h \<and> (\<exists>f. frames p' h = Some f \<and> parked_frame f) \<and>
      (\<forall>a' m'. objs p' a' = Some (MsgTask m') \<longrightarrow> msg_task m' = Some h \<longrightarrow> a' = b)"
    using c a old parked_new_frame
    by (fastforce simp: create_coroutine_def alloc_obj_def split: if_splits)
qed (use c a in \<open>auto simp: create_coroutine_def alloc_obj_def\<close>)

text \<open>
  Scheduling a coroutine that no chain and no message holds: its frame becomes the chain of the new
  task, and its promise names the new task as the root of its chain.
\<close>

lemma enqueue_eq:
  assumes "frames p h = Some f"
  shows "enqueue t \<lparr>task_handle = Some h\<rparr> p =
    Inr (p\<lparr>loops := (loops p)(t := loops p t @
             [\<lparr>sched_task = \<lparr>task_handle = Some h\<rparr>, awaiting_handle = Some h, valid = True,
               pending = False\<rparr>]),
           frames := (frames p)(h \<mapsto> f\<lparr>promise := set_chain_root (Some (t, length (loops p t))) (promise f)\<rparr>)\<rparr>)"
  using assms by (simp add: enqueue_def Let_def upd_promise_def)

lemma in_range_append:
  "in_range (p\<lparr>loops := (loops p)(t := loops p t @ [st])\<rparr>) q \<longleftrightarrow>
     in_range p q \<or> q = (t, length (loops p t))"
  by (cases q) (auto simp: in_range_def)

lemma task_at_append:
  "task_at (p\<lparr>loops := (loops p)(t := loops p t @ [st])\<rparr>) q =
     (if q = (t, length (loops p t)) then st else if in_range p q then task_at p q
      else ((loops p)(t := loops p t @ [st])) (fst q) ! snd q)"
  by (cases q) (auto simp: task_at_def in_range_def nth_append)

lemma new_not_in_range [simp]: "\<not> in_range p (t, length (loops p t))"
  by (simp add: in_range_def)

lemma others_enqueue:
  assumes O: "others S o' p" and f: "frames p h = Some f" "parked_frame f"
    and nin: "\<And>q. in_range p q \<Longrightarrow> h \<notin> set (S q)"
    and nomsg: "\<And>a m. objs p a = Some (MsgTask m) \<Longrightarrow> msg_task m \<noteq> Some h"
    and o': "\<And>ptr. o' = Some ptr \<Longrightarrow> in_range p ptr"
    and e: "enqueue t \<lparr>task_handle = Some h\<rparr> p = Inr p'"
  shows "others (S((t, length (loops p t)) := [h])) o' p'"
proof -
  let ?n = "(t, length (loops p t))" and ?f = "f\<lparr>promise := set_chain_root (Some (t, length (loops p t))) (promise f)\<rparr>"
  let ?st = "\<lparr>sched_task = \<lparr>task_handle = Some h\<rparr>, awaiting_handle = Some h, valid = True, pending = False\<rparr>"
  have p': "p' = p\<lparr>loops := (loops p)(t := loops p t @ [?st]), frames := (frames p)(h \<mapsto> ?f)\<rparr>"
    using e enqueue_eq [OF f(1), of t] by simp
  have F: "frames p' h' = (if h' = h then Some ?f else frames p h')" for h'
    by (simp add: p')
  have R: "in_range p' q \<longleftrightarrow> in_range p q \<or> q = ?n" for q
    by (simp add: p' in_range_append)
  have T: "task_at p' q = (if q = ?n then ?st else task_at p q)" if "in_range p' q" for q
    using that unfolding R by (auto simp: p' task_at_append)
  have H: "objs p' = objs p" by (simp add: p')
  have ne: "q \<noteq> ?n" if "in_range p q" for q using that by auto
  note bnd = others_bounded [OF O]
  have "bounded p'"
    by (rule bounded_mono [OF bnd]) (use f in \<open>auto simp: p' split: if_splits\<close>)
  moreover have "disjoint_chains (S(?n := [h])) p'"
    unfolding disjoint_chains_def R using nin others_disjoint [OF O] by auto
  moreover have "set ((S(?n := [h])) q) \<subseteq> dom (frames p')" if "in_range p' q" for q
    using that others_chain_dom [OF O, of q] by (auto simp: R F dom_def)
  moreover have "parked (S(?n := [h])) p'"
    unfolding parked_def H
  proof (intro allI impI)
    fix a m h' assume a: "objs p a = Some (MsgTask m)" "msg_task m = Some h'"
    note pd = parkedD [OF others_parked [OF O] a]
    have "h' \<noteq> h" using nomsg a by blast
    then show "(\<exists>f. frames p' h' = Some f \<and> parked_frame f) \<and>
        (\<forall>q. in_range p' q \<longrightarrow> h' \<notin> set ((S(?n := [h])) q)) \<and>
        (\<forall>a' m'. objs p a' = Some (MsgTask m') \<longrightarrow> msg_task m' = Some h' \<longrightarrow> a' = a)"
      using pd by (auto simp: R F)
  qed
  moreover have "at_rest (frames p') (objs p') ((S(?n := [h])) q) q (task_at p' q)"
    if q: "in_range p' q" "Some q \<noteq> o'" for q
  proof (cases "q = ?n")
    case True
    have "at_rest (frames p') (objs p') [h] ?n ?st"
      using f(2) by (auto simp: at_rest_def F pr_ok_def parked_frame_def set_chain_root_def top_ok_def
          aw_ok_def split: awaiter.splits)
    then show ?thesis using T [OF q(1)] True by simp
  next
    case False
    then have r: "in_range p q" using q(1) R by simp
    have "at_rest (frames p') (objs p') (S q) q (task_at p q)"
      by (rule at_rest_cong [OF others_at_rest [OF O r q(2)]]) (use nin [OF r] in \<open>auto simp: F H\<close>)
    then show ?thesis using T [OF q(1)] False by simp
  qed
  ultimately show ?thesis unfolding others_def by blast
qed

lemma others_emplace_back:
  assumes O: "others S o' p" and o': "\<And>ptr. o' = Some ptr \<Longrightarrow> in_range p ptr"
    and e: "emplace_back t l p = Inr p'"
  shows "others (S((t, length (loops p t)) := [fresh p])) o' p'"
proof -
  obtain tk p1 where c: "create_coroutine l p = (tk, p1)" by fastforce
  have O1: "others S o' p1" by (rule others_create_coroutine [OF O c])
  note bnd = others_bounded [OF O]
  have p1: "loops p1 = loops p" "objs p1 = objs p" "tk = \<lparr>task_handle = Some (fresh p)\<rparr>"
    "frames p1 (fresh p) = Some \<lparr>promise = new_promise, costate = Suspended l AwInitial\<rparr>"
    "\<And>q. in_range p1 q = in_range p q"
    using c by (auto simp: create_coroutine_def)
  have old: "h < fresh p" if "in_range p q" "h \<in> set (S q)" for q h
    using others_chain_dom [OF O that(1)] that(2) bounded_frame [OF bnd] by blast
  have oldm: "h < fresh p" if "objs p a = Some (MsgTask m)" "msg_task m = Some h" for a m h
    using parkedD(1) [OF others_parked [OF O] that] bounded_frame [OF bnd] by blast
  have e1: "enqueue t \<lparr>task_handle = Some (fresh p)\<rparr> p1 = Inr p'"
    using e c p1 by (simp add: emplace_back_def)
  have "others (S((t, length (loops p1 t)) := [fresh p])) o' p'"
  proof (rule others_enqueue [OF O1 p1(4) parked_new_frame _ _ _ e1])
    show "fresh p \<notin> set (S q)" if "in_range p1 q" for q using old that p1(5) by blast
    show "msg_task m \<noteq> Some (fresh p)" if "objs p1 a = Some (MsgTask m)" for a m
      using oldm that p1(2) by auto
    show "in_range p1 ptr" if "o' = Some ptr" for ptr using o' that p1(5) by blast
  qed
  then show ?thesis using p1 by simp
qed

lemma emplace_back_extends:
  assumes "bounded p" and "emplace_back t l p = Inr p'"
  shows "extends p p'"
  using assms fresh_frame [OF assms(1), of "fresh p"]
  by (auto simp: emplace_back_def create_coroutine_def enqueue_def upd_promise_def Let_def extends_def
      in_range_def task_at_def nth_append)

lemma alloc_obj_extends: "bounded p \<Longrightarrow> alloc_obj ob p = (a, p') \<Longrightarrow> extends p p'"
  using fresh_obj [of p "fresh p"] by (auto simp: alloc_obj_def extends_def)

lemma create_coroutine_extends: "bounded p \<Longrightarrow> create_coroutine l p = (tk, p') \<Longrightarrow> extends p p'"
  using fresh_frame [of p "fresh p"] by (auto simp: create_coroutine_def extends_def)

lemma extends_in_range: "extends p p' \<Longrightarrow> in_range p q \<Longrightarrow> in_range p' q"
  by (simp add: extends_def)

theorem grow_others:
  assumes "grow p p'" and O: "others S o' p" and o': "\<And>ptr. o' = Some ptr \<Longrightarrow> in_range p ptr"
  shows "\<exists>S'. others S' o' p' \<and> (\<forall>q. in_range p q \<longrightarrow> S' q = S q) \<and> extends p p'"
  using assms(1)
proof (induction rule: grow.induct)
  case grow_refl
  then show ?case using O by auto
next
  case (grow_env q s)
  then show ?case by (auto simp: extends_def)
next
  case (grow_obj q ob a q')
  then obtain S' where S': "others S' o' q" "\<forall>r. in_range p r \<longrightarrow> S' r = S r" "extends p q" by blast
  have "extends q q'" by (rule alloc_obj_extends [OF others_bounded [OF S'(1)] grow_obj.hyps(3)])
  then show ?case
    using others_alloc_obj [OF S'(1) grow_obj.hyps(2,3)] S' extends_trans by blast
next
  case (grow_frame q l tk q')
  then obtain S' where S': "others S' o' q" "\<forall>r. in_range p r \<longrightarrow> S' r = S r" "extends p q" by blast
  have "extends q q'" by (rule create_coroutine_extends [OF others_bounded [OF S'(1)] grow_frame.hyps(2)])
  then show ?case
    using others_create_coroutine [OF S'(1) grow_frame.hyps(2)] S' extends_trans by blast
next
  case (grow_msg q l tk q1 a q')
  then obtain S' where S': "others S' o' q" "\<forall>r. in_range p r \<longrightarrow> S' r = S r" "extends p q" by blast
  note O1 = others_create_coroutine [OF S'(1) grow_msg.hyps(2)]
  have "extends q q1" by (rule create_coroutine_extends [OF others_bounded [OF S'(1)] grow_msg.hyps(2)])
  moreover have "extends q1 q'" by (rule alloc_obj_extends [OF others_bounded [OF O1] grow_msg.hyps(3)])
  ultimately have "extends p q'" using S'(3) extends_trans by blast
  then show ?case using others_create_msg [OF S'(1) grow_msg.hyps(2,3)] S' by blast
next
  case (grow_spawn q t l q')
  then obtain S' where S': "others S' o' q" "\<forall>r. in_range p r \<longrightarrow> S' r = S r" "extends p q" by blast
  have o'': "in_range q ptr" if "o' = Some ptr" for ptr using o' [OF that] S'(3) extends_in_range by blast
  have "extends q q'" by (rule emplace_back_extends [OF others_bounded [OF S'(1)] grow_spawn.hyps(2)])
  moreover have "(S'((t, length (loops q t)) := [fresh q])) r = S r" if "in_range p r" for r
    using S'(2) that extends_in_range [OF S'(3) that] by auto
  ultimately show ?case
    using others_emplace_back [OF S'(1) o'' grow_spawn.hyps(2)] S'(3) extends_trans by blast
qed

section \<open>The start of the process\<close>

text \<open>No coroutine, no task; the only object is the static token of the multishot accept.\<close>

definition initial_proc :: "'s \<Rightarrow> ('l, 'v, 'f, 's) proc" where
  "initial_proc s =
     \<lparr>frames = Map.empty, objs = [multishot_token \<mapsto> Token default_token], fresh = Suc multishot_token,
      loops = (\<lambda>t. []), env = s\<rparr>"

lemma bounded_initial: "bounded (initial_proc s)"
  by (simp add: bounded_def initial_proc_def)

lemma others_initial: "others S None (initial_proc s :: ('l, 'v, 'f, 's) proc)"
proof -
  let ?p = "initial_proc s :: ('l, 'v, 'f, 's) proc"
  have "\<not> in_range ?p q" for q by (simp add: in_range_def initial_proc_def)
  moreover have "parked S ?p" by (auto simp: parked_def initial_proc_def split: if_splits)
  moreover have "bounded ?p" by (rule bounded_initial)
  ultimately show ?thesis by (simp add: others_def disjoint_chains_def)
qed

text \<open>One task scheduled on an empty process.\<close>

lemma others_first_task:
  fixes p :: "('l, 'v, 'f, 's) proc"
  assumes "emplace_back t l (initial_proc s) = Inr p"
  shows "others (\<lambda>q. [Suc multishot_token]) None p"
proof -
  let ?S = "\<lambda>q :: task_ptr. [Suc multishot_token]" and ?p = "initial_proc s :: ('l, 'v, 'f, 's) proc"
  have "others (?S((t, length (loops ?p t)) := [fresh ?p])) None p"
    by (rule others_emplace_back [OF others_initial _ assms]) simp
  moreover have "?S((t, length (loops ?p t)) := [fresh ?p]) = ?S"
    by (rule ext) (simp add: initial_proc_def)
  ultimately show ?thesis by metis
qed

end
