(* ===== verification/Chain_Safety.thy ===== *)
theory Chain_Safety
  imports Chain_Growth
begin

text \<open>
  Every transfer of control keeps the invariant of the coroutine layer, and none of them reaches
  undefined behaviour of the layer itself: no resume of a coroutine that is destroyed, running or
  finished, no access through a dangling or null pointer, no read of a result that was never
  stored. What can still fail is what the awaited operations and the plain code can fail with, and
  an exception that leaves the root coroutine of a task.
\<close>

section \<open>Code that keeps to its interface\<close>

definition machine_fault :: "fault \<Rightarrow> bool" where
  "machine_fault e \<longleftrightarrow> e \<in> {DeadCoroutine, DanglingPointer, NullPointer, NoResult}"

definition safe_prep :: "(nat \<Rightarrow> address \<Rightarrow> 's \<Rightarrow> 's res) \<Rightarrow> bool" where
  "safe_prep prep \<longleftrightarrow> (\<forall>t a s e. prep t a s = Inl e \<longrightarrow> \<not> machine_fault e)"

definition safe_step ::
  "(nat \<Rightarrow> ('l, 'v, 'f, 's) proc \<Rightarrow> ('v resume_in \<times> ('l, 'v, 'f, 's) proc) res) \<Rightarrow> bool" where
  "safe_step f \<longleftrightarrow>
     (\<forall>t p. (\<forall>e. f t p = Inl e \<longrightarrow> \<not> machine_fault e) \<and> (\<forall>r p'. f t p = Inr (r, p') \<longrightarrow> grow p p'))"

definition safe_action :: "('l, 'v, 'f, 's) action \<Rightarrow> bool" where
  "safe_action act =
     (case act of
        CoAwaitUring op' prep k \<Rightarrow> default_op op' \<and> safe_prep prep
      | CoAwaitMshot prep k \<Rightarrow> safe_prep prep
      | CoStep f k \<Rightarrow> safe_step f
      | _ \<Rightarrow> True)"

definition safe_code :: "('l, 'v, 'f, 's) code \<Rightarrow> bool" where
  "safe_code code \<longleftrightarrow> (\<forall>l inp. safe_action (code l inp))"

text \<open>The tasks other than \<open>ptr\<close> and their coroutines are as before.\<close>

definition untouched ::
  "chains \<Rightarrow> chains \<Rightarrow> task_ptr \<Rightarrow> ('l, 'v, 'f, 's) proc \<Rightarrow> ('l, 'v, 'f, 's) proc \<Rightarrow> bool" where
  "untouched S S' ptr p p' \<longleftrightarrow>
     (\<forall>q. in_range p q \<longrightarrow> in_range p' q \<and> sched_task (task_at p' q) = sched_task (task_at p q)) \<and>
     (\<forall>q. in_range p q \<longrightarrow> q \<noteq> ptr \<longrightarrow>
        task_at p' q = task_at p q \<and> S' q = S q \<and> (\<forall>h \<in> set (S q). frames p' h = frames p h))"

lemma untouched_refl [simp]: "untouched S S ptr p p"
  by (simp add: untouched_def)

lemma untouched_trans:
  assumes "untouched S S' ptr p p'" and "untouched S' S'' ptr p' p''"
  shows "untouched S S'' ptr p p''"
  using assms unfolding untouched_def by (metis (no_types, lifting))

text \<open>What every transfer of control has to establish.\<close>

definition step_ok ::
  "chains \<Rightarrow> task_ptr \<Rightarrow> ('l, 'v, 'f, 's) proc \<Rightarrow> (('l, 'v) ctl \<times> ('l, 'v, 'f, 's) proc) res \<Rightarrow> bool"
where
  "step_ok S ptr p r =
     (case r of
        Inl e \<Rightarrow> \<not> machine_fault e
      | Inr (c', p') \<Rightarrow> \<exists>S'. run_inv S' ptr c' p' \<and> untouched S S' ptr p p')"

section \<open>Elementary operations, evaluated\<close>

lemma set_costate_eq:
  "frames p h = Some f \<Longrightarrow>
   set_costate h c p = Inr (p\<lparr>frames := (frames p)(h \<mapsto> f\<lparr>costate := c\<rparr>)\<rparr>)"
  by (simp add: set_costate_def)

lemma upd_promise_eq:
  "frames p h = Some f \<Longrightarrow>
   upd_promise h g p = Inr (p\<lparr>frames := (frames p)(h \<mapsto> f\<lparr>promise := g (promise f)\<rparr>)\<rparr>)"
  by (simp add: upd_promise_def)

lemma promise_at_eq: "frames p h = Some f \<Longrightarrow> promise_at h p = Inr (promise f)"
  by (simp add: promise_at_def)

lemmas frame_eqs = set_costate_eq upd_promise_eq promise_at_eq

lemma run_invE:
  assumes "run_inv S ptr c p"
  obtains "others S (Some ptr) p" and "in_range p ptr" and "valid (task_at p ptr)"
    and "S ptr \<noteq> []" and "distinct (S ptr)"
    and "task_handle (sched_task (task_at p ptr)) = Some (hd (S ptr))"
    and "ctl_ok (S ptr) ptr c p"
  using assms by (simp add: run_inv_def)

lemma run_inv_dom: "run_inv S ptr c p \<Longrightarrow> set (S ptr) \<subseteq> dom (frames p)"
  by (erule run_invE) (rule others_chain_dom)

text \<open>
  A step of task \<open>ptr\<close> that does not touch the scheduled tasks: what remains to be shown is the
  new chain of the task and the new position of control.
\<close>

lemma step_ok_frame:
  assumes I: "run_inv S ptr c p"
    and L: "loops p' = loops p" and B: "bounded p'"
    and F: "\<And>h. h \<notin> set (S ptr) \<Longrightarrow> h < fresh p \<Longrightarrow> frames p' h = frames p h"
    and H: "\<And>q a tk. q \<noteq> ptr \<Longrightarrow> objs p a = Some (Token tk) \<Longrightarrow> chain_task tk = Some q
      \<Longrightarrow> a \<noteq> multishot_token \<Longrightarrow> objs p' a = objs p a"
    and M: "\<And>a m. objs p' a = Some (MsgTask m) \<Longrightarrow> objs p a = Some (MsgTask m)"
    and SP: "\<And>h. h \<in> set hs \<Longrightarrow> h \<in> set (S ptr) \<or> fresh p \<le> h"
    and D: "set hs \<subseteq> dom (frames p')"
    and hs: "hs \<noteq> []" "distinct hs" "hd hs = hd (S ptr)"
    and C: "ctl_ok hs ptr c' p'"
  shows "step_ok S ptr p (Inr (c', p'))"
proof -
  have R: "in_range p' q = in_range p q" and T: "task_at p' q = task_at p q" for q
    using L by (simp_all add: in_range_def task_at_def)
  have O: "others S (Some ptr) p" and r: "in_range p ptr" using I by (auto elim: run_invE)
  have "others (S(ptr := hs)) (Some ptr) p'"
    by (rule others_step [OF O R T B F H M]) (use SP D r in auto)
  then have "run_inv (S(ptr := hs)) ptr c' p'"
    using I hs C by (simp add: run_inv_def R T)
  moreover have "frames p' h = frames p h" if "in_range p q" "q \<noteq> ptr" "h \<in> set (S q)" for q h
  proof (rule F)
    show "h \<notin> set (S ptr)" using others_disjoint [OF O that(1) r that(2)] that(3) by blast
    show "h < fresh p"
      using others_chain_dom [OF O that(1)] that(3) bounded_frame [OF others_bounded [OF O]] by blast
  qed
  then have "untouched S (S(ptr := hs)) ptr p p'" by (simp add: untouched_def R T)
  ultimately show ?thesis by (auto simp: step_ok_def)
qed

section \<open>Resuming a suspended coroutine\<close>

lemma enter_top_ok:
  assumes I: "run_inv S ptr (Enter h) p"
    and L: "linked (frames p) ptr None (S ptr)" and h: "last (S ptr) = h"
    and T: "top_ok (frames p) (objs p) ptr h"
  shows "step_ok S ptr p (enter h p)"
proof -
  from I have O: "others S (Some ptr) p" and ne: "S ptr \<noteq> []" and d: "distinct (S ptr)"
    by (auto elim: run_invE)
  note bnd = others_bounded [OF O]
  obtain f l w where f: "frames p h = Some f" "costate f = Suspended l w" and w: "aw_ok (objs p) ptr w"
    using T by (auto simp: top_ok_def)
  let ?F = "(frames p)(h \<mapsto> f\<lparr>costate := Running\<rparr>)"
  have lk: "linked ?F ptr None (S ptr)"
    using linked_upd_last [OF L ne d] f h by simp
  have hin: "h \<in> set (S ptr)" using ne h by auto
  have dom: "set (S ptr) \<subseteq> dom ?F"
    using run_inv_dom [OF I] by auto
  have main: "step_ok S ptr p (Inr (Exec h l inp, p'))"
    if p': "p' = p\<lparr>frames := ?F, objs := H\<rparr>"
      and H1: "\<And>q a tk. q \<noteq> ptr \<Longrightarrow> objs p a = Some (Token tk) \<Longrightarrow> chain_task tk = Some q \<Longrightarrow> H a = objs p a"
      and H2: "\<And>a ob. H a = Some ob \<Longrightarrow> objs p a = Some ob"
      and H3: "H multishot_token = objs p multishot_token" for inp p' H
  proof (rule step_ok_frame [OF I, where hs = "S ptr"])
    show "bounded p'"
    proof (rule bounded_mono [OF bnd])
      show "objs p a \<noteq> None \<or> a < fresh p'" if "objs p' a \<noteq> None" for a
        using H2 [of a] that by (auto simp: p')
    qed (use f H3 in \<open>auto simp: p' split: if_splits\<close>)
    show "ctl_ok (S ptr) ptr (Exec h l inp) p'" using lk h by (simp add: ctl_ok_def p')
    show "objs p' a = objs p a"
      if "q \<noteq> ptr" "objs p a = Some (Token tk)" "chain_task tk = Some q" for q a tk
      using H1 [OF that] by (simp add: p')
    show "objs p a = Some (MsgTask m)" if "objs p' a = Some (MsgTask m)" for a m
      using H2 that by (simp add: p')
  qed (use hin dom ne d in \<open>auto simp: p'\<close>)
  show ?thesis
  proof (cases w)
    case AwInitial
    then show ?thesis
      using main [of _ "objs p"] f by (simp add: enter_def frame_eqs await_resume_def)
  next
    case (AwTask callee)
    then show ?thesis using w by (simp add: aw_ok_def)
  next
    case (AwToken a)
    then obtain tk where a: "a \<noteq> multishot_token" "objs p a = Some (Token tk)" "chain_task tk = Some ptr"
      using w by (auto simp: aw_ok_def)
    have e: "enter h p = Inr (Exec h l (RCqe (cqe_res tk) (cqe_flags tk)),
        p\<lparr>frames := ?F, objs := (objs p)(a := None)\<rparr>)"
      using f a AwToken by (simp add: enter_def frame_eqs await_resume_def
          UringAwaiter_await_resume_def token_at_def delete_obj_def)
    show ?thesis unfolding e
      by (rule main [OF refl]) (use a in \<open>auto split: if_splits\<close>)
  next
    case AwNothing
    then show ?thesis
      using main [of _ "objs p"] f by (simp add: enter_def frame_eqs await_resume_def)
  qed
qed

text \<open>
  Going on after a callee has finished: its result is taken over, as a value or as an exception,
  and its frame is destroyed; nobody else had it.
\<close>

lemma promise_result_ok:
  assumes "exn_ptr pr \<noteq> None \<or> slot (promise_res pr) \<noteq> None"
  obtains r pr' where "promise_result pr = Inr (r, pr')"
  using assms by (cases "exn_ptr pr") (auto simp: promise_result_def move_out_result_def)

lemma enter_returned:
  assumes I: "run_inv S ptr (Enter h) p"
    and ne: "butlast (S ptr) \<noteq> []" and h: "last (butlast (S ptr)) = h"
    and L: "linked (frames p) ptr None (butlast (S ptr))"
    and R: "returned (frames p) h (last (S ptr))"
  shows "step_ok S ptr p (enter h p)"
proof -
  from I have O: "others S (Some ptr) p" and d: "distinct (S ptr)" by (auto elim: run_invE)
  note bnd = others_bounded [OF O]
  obtain hs callee where S: "S ptr = hs @ [callee]"
    using ne by (metis append_butlast_last_id butlast.simps(1))
  have hs: "hs \<noteq> []" "last hs = h" "distinct hs" "callee \<notin> set hs" "h \<noteq> callee"
    and L': "linked (frames p) ptr None hs"
    using ne h d L S by auto
  obtain f l g where f: "frames p h = Some f" "costate f = Suspended l (AwTask callee)"
    and g: "frames p callee = Some g" "costate g = AtFinal"
    and res: "exn_ptr (promise g) \<noteq> None \<or> slot (promise_res (promise g)) \<noteq> None"
    using R S by (auto simp: returned_def)
  obtain r pr' where r: "promise_result (promise g) = Inr (r, pr')"
    using promise_result_ok [OF res] .
  let ?F = "(frames p)(h \<mapsto> f\<lparr>costate := Running\<rparr>)"
  let ?p = "p\<lparr>frames := ?F(callee := None)\<rparr>"
  have e: "enter h p = Inr (Exec h l (case r of Inl e \<Rightarrow> RExn e | Inr v \<Rightarrow> RVal v), ?p)"
    using f g r hs by (simp add: enter_def frame_eqs await_resume_def TaskAwaier_await_resume_def
        Task_dtor_def destroy_frame_def)
  have lk: "linked (?F(callee := None)) ptr None hs"
    using linked_upd_last [OF L' hs(1,3)] f hs by simp
  have dom: "set hs \<subseteq> dom (?F(callee := None))" using run_inv_dom [OF I] S hs by auto
  show ?thesis unfolding e
  proof (rule step_ok_frame [OF I, where hs = hs])
    show "bounded ?p"
      by (rule bounded_mono [OF bnd]) (use f in \<open>auto split: if_splits\<close>)
    show "ctl_ok hs ptr (Exec h l (case r of Inl e \<Rightarrow> RExn e | Inr v \<Rightarrow> RVal v)) ?p"
      using lk hs by (simp add: ctl_ok_def)
  qed (use hs S dom in \<open>auto simp: last_in_set\<close>)
qed

lemma enter_ok: "run_inv S ptr (Enter h) p \<Longrightarrow> step_ok S ptr p (enter h p)"
proof -
  assume I: "run_inv S ptr (Enter h) p"
  then have "ctl_ok (S ptr) ptr (Enter h) p" by (rule run_invE)
  then consider
      "linked (frames p) ptr None (S ptr)" "last (S ptr) = h" "top_ok (frames p) (objs p) ptr h"
    | "butlast (S ptr) \<noteq> []" "last (butlast (S ptr)) = h"
      "linked (frames p) ptr None (butlast (S ptr))" "returned (frames p) h (last (S ptr))"
    by (auto simp: ctl_ok_def)
  then show ?thesis by cases (rule enter_top_ok [OF I] enter_returned [OF I]; assumption)+
qed

section \<open>What a body does next\<close>

text \<open>The facts every action starts from: the running coroutine is the innermost of its chain.\<close>

lemma exec_facts:
  assumes I: "run_inv S ptr (Exec h l inp) p"
  obtains ys f where "S ptr = ys @ [h]" and "distinct (ys @ [h])" and "frames p h = Some f"
    and "costate f = Running" and "linked (frames p) ptr None (ys @ [h])"
    and "pr_ok ptr (if ys = [] then None else Some (last ys)) (promise f)"
    and "set (ys @ [h]) \<subseteq> dom (frames p)" and "bounded p" and "in_range p ptr"
proof -
  from I have O: "others S (Some ptr) p" and ne: "S ptr \<noteq> []" and d: "distinct (S ptr)"
    and r: "in_range p ptr" and c: "ctl_ok (S ptr) ptr (Exec h l inp) p"
    by (auto elim: run_invE)
  have "last (S ptr) = h" using c by (simp add: ctl_ok_def)
  then obtain ys where S: "S ptr = ys @ [h]" using append_butlast_last_id [OF ne] by metis
  from c S obtain f where f: "frames p h = Some f" "costate f = Running"
    and L: "linked (frames p) ptr None (ys @ [h])" by (auto simp: ctl_ok_def)
  then have "pr_ok ptr (if ys = [] then None else Some (last ys)) (promise f)"
    by (auto simp: linked_snoc)
  with that S f L d r show ?thesis
    using run_inv_dom [OF I] others_bounded [OF O] by simp
qed

lemma finish_ok:
  assumes I: "run_inv S ptr (Exec h l inp) p"
    and g: "g = return_value v \<or> g = unhandled_exception e"
  shows "step_ok S ptr p (finish h g p)"
proof -
  obtain ys f where S: "S ptr = ys @ [h]" and d: "distinct (ys @ [h])" and f: "frames p h = Some f"
    and L: "linked (frames p) ptr None (ys @ [h])"
    and pr: "pr_ok ptr (if ys = [] then None else Some (last ys)) (promise f)"
    and dom: "set (ys @ [h]) \<subseteq> dom (frames p)" and bnd: "bounded p"
    using exec_facts [OF I] by metis
  let ?f = "f\<lparr>promise := g (promise f), costate := AtFinal\<rparr>"
  let ?p = "p\<lparr>frames := (frames p)(h \<mapsto> ?f)\<rparr>"
  have same: "caller (g (promise f)) = caller (promise f)"
    and exn: "g = return_value v \<Longrightarrow> exn_ptr (g (promise f)) = None"
    using g pr by (auto simp: return_value_def unhandled_exception_def pr_ok_def)
  have res: "exn_ptr (g (promise f)) \<noteq> None \<or> slot (promise_res (g (promise f))) \<noteq> None"
    using g by (auto simp: return_value_def unhandled_exception_def construct_result_def)
  have fin: "finish h g p = bind_res (final_await_suspend (g (promise f)))
      (\<lambda>c. Inr (case c of Some h' \<Rightarrow> Enter h' | None \<Rightarrow> Back, ?p))"
    using f by (simp add: finish_def frame_eqs)
  have rest: "step_ok S ptr p (Inr (c', ?p))" if "ctl_ok (ys @ [h]) ptr c' ?p" for c'
  proof (rule step_ok_frame [OF I, where hs = "ys @ [h]"])
    show "bounded ?p"
      by (rule bounded_mono [OF bnd]) (use f in \<open>auto split: if_splits\<close>)
  qed (use S d dom that in auto)
  show ?thesis
  proof (cases ys rule: rev_cases)
    case Nil
    show ?thesis
    proof (cases "exn_ptr (g (promise f))")
      case None
      have "step_ok S ptr p (Inr (Back, ?p))"
        by (rule rest) (simp add: ctl_ok_def Nil)
      then show ?thesis using Nil pr same None by (simp add: fin final_await_suspend_def pr_ok_def)
    next
      case (Some x)
      then show ?thesis using Nil pr same
        by (simp add: fin final_await_suspend_def pr_ok_def step_ok_def machine_fault_def)
    qed
  next
    case (snoc zs c)
    have "step_ok S ptr p (Inr (Enter c, ?p))"
    proof (rule rest)
      have "linked ((frames p)(h \<mapsto> ?f)) ptr None ys" using L d by (auto simp: linked_snoc)
      moreover have "\<exists>f' l. frames p c = Some f' \<and> costate f' = Suspended l (AwTask h)"
        using L snoc unfolding linked_snoc [of _ _ _ ys h] by auto
      then have "returned ((frames p)(h \<mapsto> ?f)) c h"
        using d snoc res by (auto simp: returned_def)
      moreover have "ys \<noteq> []" "last ys = c" using snoc by simp_all
      ultimately show "ctl_ok (ys @ [h]) ptr (Enter c) ?p" by (simp add: ctl_ok_def)
    qed
    then show ?thesis using snoc pr same by (simp add: fin final_await_suspend_def pr_ok_def)
  qed
qed

lemma await_task_ok:
  assumes I: "run_inv S ptr (Exec h l inp) p"
  shows "step_ok S ptr p (perform t h (CoAwaitTask g k) p)"
proof -
  obtain ys f where S: "S ptr = ys @ [h]" and d: "distinct (ys @ [h])" and f: "frames p h = Some f"
    and L: "linked (frames p) ptr None (ys @ [h])"
    and pr: "pr_ok ptr (if ys = [] then None else Some (last ys)) (promise f)"
    and dom: "set (ys @ [h]) \<subseteq> dom (frames p)" and bnd: "bounded p"
    using exec_facts [OF I] by metis
  let ?c = "fresh p"
  have old: "x \<noteq> ?c" if "x \<in> set (ys @ [h])" for x
    using dom that bounded_frame [OF bnd] by blast
  then have hc: "h \<noteq> ?c" "?c \<notin> set ys" "?c \<noteq> h" by auto
  let ?g = "\<lparr>promise = new_promise\<lparr>caller := Some h, this_chain_task := Some ptr\<rparr>,
             costate = Suspended g AwInitial\<rparr>"
  let ?F = "(frames p)(h \<mapsto> f\<lparr>costate := Suspended k (AwTask ?c)\<rparr>, ?c \<mapsto> ?g)"
  let ?p = "p\<lparr>frames := ?F, fresh := Suc ?c\<rparr>"
  have tc: "this_chain_task (promise f) = Some ptr" using pr by (simp add: pr_ok_def)
  have e: "perform t h (CoAwaitTask g k) p = Inr (Enter ?c, ?p)"
    using f hc tc by (simp add: perform_def create_coroutine_def TaskAwaier_await_suspend_def
        frame_eqs set_caller_def set_chain_root_def fun_upd_twist)
  have lk: "linked ?F ptr None ((ys @ [h]) @ [?c])"
    unfolding linked_snoc [of _ _ _ "ys @ [h]"]
    using linked_upd_last [OF L _ d, of f "f\<lparr>costate := Suspended k (AwTask ?c)\<rparr>"] f hc
    by (auto simp: pr_ok_def new_promise_def)
  show ?thesis unfolding e
  proof (rule step_ok_frame [OF I, where hs = "(ys @ [h]) @ [?c]"])
    show "bounded ?p" by (rule bounded_mono [OF bnd]) (use f in \<open>auto split: if_splits\<close>)
    show "ctl_ok ((ys @ [h]) @ [?c]) ptr (Enter ?c) ?p"
      using lk by (simp add: ctl_ok_def top_ok_def aw_ok_def)
    show "set ((ys @ [h]) @ [?c]) \<subseteq> dom (frames ?p)" using dom by auto
    show "hd ((ys @ [h]) @ [?c]) = hd (S ptr)" using S by (cases ys) auto
    show "distinct ((ys @ [h]) @ [?c])" using d hc by auto
  qed (use S in \<open>auto simp: fresh_frame\<close>)
qed

text \<open>Suspending the innermost coroutine: control goes back, and the task waits for \<open>h\<close>.\<close>

lemma suspend_ok:
  assumes I: "run_inv S ptr (Exec h l inp) p"
    and f: "frames p h = Some f" and F: "frames p' = (frames p)(h \<mapsto> f\<lparr>costate := Suspended k w\<rparr>)"
    and R: "\<And>q. in_range p' q = in_range p q"
    and T: "\<And>q. q \<noteq> ptr \<Longrightarrow> task_at p' q = task_at p q"
    and T': "sched_task (task_at p' ptr) = sched_task (task_at p ptr)"
      "valid (task_at p' ptr) = valid (task_at p ptr)" "awaiting_handle (task_at p' ptr) = Some h"
    and fr: "fresh p \<le> fresh p'"
    and H: "\<And>a ob. a \<noteq> multishot_token \<Longrightarrow> objs p a = Some ob \<Longrightarrow> objs p' a = Some ob"
    and H': "\<And>a. a \<noteq> multishot_token \<Longrightarrow> objs p' a \<noteq> None \<Longrightarrow>
      objs p' a = objs p a \<or> (a < fresh p' \<and> (\<exists>tk. objs p' a = Some (Token tk)))"
    and M: "\<exists>tk. objs p' multishot_token = Some (Token tk)"
    and w: "aw_ok (objs p') ptr w"
  shows "step_ok S ptr p (Inr (Back, p'))"
proof -
  obtain ys where S: "S ptr = ys @ [h]" and d: "distinct (ys @ [h])"
    and L: "linked (frames p) ptr None (ys @ [h])"
    and dom: "set (ys @ [h]) \<subseteq> dom (frames p)" and bnd: "bounded p" and r: "in_range p ptr"
    using exec_facts [OF I] by metis
  from I have O: "others S (Some ptr) p" and v: "valid (task_at p ptr)"
    and th: "task_handle (sched_task (task_at p ptr)) = Some (hd (S ptr))" by (auto elim: run_invE)
  have bnd': "bounded p'"
  proof (rule bounded_mono [OF bnd fr])
    show "objs p a \<noteq> None \<or> a < fresh p'" if "objs p' a \<noteq> None" for a
      using H' [of a] that bnd by (cases "a = multishot_token") (auto simp: bounded_def)
  qed (use M f in \<open>auto simp: F split: if_splits\<close>)
  have "others S (Some ptr) p'"
  proof (rule others_step [OF O R _ bnd'])
    show "objs p a = Some (MsgTask m)" if "objs p' a = Some (MsgTask m)" for a m
      using H' [of a] M that by (cases "a = multishot_token") auto
    show "objs p' a = objs p a" if "objs p a = Some (Token tk)" "a \<noteq> multishot_token" for a tk
      using H that by simp
  qed (use T S dom r F in auto)
  moreover have "ctl_ok (S ptr) ptr Back p'"
  proof -
    have "linked (frames p') ptr None (S ptr)"
      unfolding F S using linked_upd_last [OF L _ d, of f] f by simp
    then have "at_rest (frames p') (objs p') (S ptr) ptr (task_at p' ptr)"
      using T' th v S d w by (simp add: at_rest_def top_ok_def F)
    then show ?thesis by (simp add: ctl_ok_def)
  qed
  ultimately have "run_inv S ptr Back p'"
    using R r T' v th S d by (simp add: run_inv_def)
  moreover have "untouched S S ptr p p'"
  proof -
    have "h \<notin> set (S q)" if "in_range p q" "q \<noteq> ptr" for q
      using others_disjoint [OF O that(1) r that(2)] S by auto
    moreover have "sched_task (task_at p' q) = sched_task (task_at p q)" for q
      using T T' by (cases "q = ptr") auto
    ultimately show ?thesis using R T F by (auto simp: untouched_def)
  qed
  ultimately show ?thesis by (auto simp: step_ok_def)
qed

text \<open>What the \<open>await_suspend\<close> functions do to the scheduled task.\<close>

lemma await_uring_ok:
  assumes I: "run_inv S ptr (Exec h l inp) p" and op': "default_op op'" and sp: "safe_prep prep"
  shows "step_ok S ptr p (perform t h (CoAwaitUring op' prep k) p)"
proof -
  obtain ys f where S: "S ptr = ys @ [h]" and f: "frames p h = Some f"
    and pr: "pr_ok ptr (if ys = [] then None else Some (last ys)) (promise f)"
    and bnd: "bounded p" and r: "in_range p ptr"
    using exec_facts [OF I] by metis
  have tc: "this_chain_task (promise f) = Some ptr" using pr by (simp add: pr_ok_def)
  let ?a = "fresh p" and ?tk = "default_token\<lparr>tok_op := op'\<rparr>"
  show ?thesis
  proof (cases "prep t ?a (env p)")
    case (Inl e)
    then have "\<not> machine_fault e" using sp by (simp add: safe_prep_def)
    then show ?thesis
      using Inl by (simp add: perform_def UringAwaiter_ctor_def alloc_obj_def step_ok_def)
  next
    case (Inr s)
    let ?p1 = "p\<lparr>fresh := Suc ?a, env := s, objs := (objs p)(?a \<mapsto> Token ?tk),
                 frames := (frames p)(h \<mapsto> f\<lparr>costate := Suspended k (AwToken ?a)\<rparr>)\<rparr>"
    obtain p2 where p2: "upd_task ptr (set_awaiting_handle h) ?p1 = Inr p2"
      "frames p2 = frames ?p1" "objs p2 = objs ?p1" "fresh p2 = fresh ?p1"
      and R2: "\<And>q. in_range p2 q = in_range ?p1 q"
      and T2: "\<And>q. task_at p2 q = (if q = ptr then set_awaiting_handle h (task_at ?p1 ptr) else task_at ?p1 q)"
      using r by (rule_tac upd_task_in_range [of ?p1 ptr "set_awaiting_handle h"]) auto
    let ?p3 = "p2\<lparr>objs := (objs p2)(?a \<mapsto> Token (?tk\<lparr>chain_task := Some ptr\<rparr>))\<rparr>"
    obtain p4 where p4: "upd_task ptr (set_pending True) ?p3 = Inr p4"
      "frames p4 = frames ?p3" "objs p4 = objs ?p3" "fresh p4 = fresh ?p3"
      and R4: "\<And>q. in_range p4 q = in_range ?p3 q"
      and T4: "\<And>q. task_at p4 q = (if q = ptr then set_pending True (task_at ?p3 ptr) else task_at ?p3 q)"
      using r R2 by (rule_tac upd_task_in_range [of ?p3 ptr "set_pending True"]) auto
    have e: "perform t h (CoAwaitUring op' prep k) p = Inr (Back, p4)"
      using Inr f tc p2 p4(1)
      by (simp add: perform_def UringAwaiter_ctor_def alloc_obj_def frame_eqs
          UringAwaiter_await_suspend_def deref_task_def token_at_def)
    have fa: "objs p ?a = None" using fresh_obj [OF bnd] by simp
    show ?thesis unfolding e
    proof (rule suspend_ok [OF I f])
      show "frames p4 = (frames p)(h \<mapsto> f\<lparr>costate := Suspended k (AwToken ?a)\<rparr>)"
        using p2 p4 by simp
      show "aw_ok (objs p4) ptr (AwToken ?a)"
        using p2 p4 op' multishot_neq_fresh(1) [OF bnd, symmetric] by (simp add: aw_ok_def)
      show "\<exists>tk. objs p4 multishot_token = Some (Token tk)"
        using p2 p4 bnd by (auto simp: bounded_def)
    qed (use p2 p4 R2 R4 T2 T4 fa in \<open>auto simp: set_awaiting_handle_def set_pending_def split: if_splits\<close>)
  qed
qed

lemma await_pending_ok:
  assumes I: "run_inv S ptr (Exec h l inp) p"
  shows "step_ok S ptr p (perform t h (CoAwaitPending k) p)"
proof -
  obtain ys f where S: "S ptr = ys @ [h]" and f: "frames p h = Some f"
    and pr: "pr_ok ptr (if ys = [] then None else Some (last ys)) (promise f)"
    and bnd: "bounded p" and r: "in_range p ptr"
    using exec_facts [OF I] by metis
  have tc: "this_chain_task (promise f) = Some ptr" using pr by (simp add: pr_ok_def)
  let ?p1 = "p\<lparr>frames := (frames p)(h \<mapsto> f\<lparr>costate := Suspended k AwNothing\<rparr>)\<rparr>"
  obtain p2 where p2: "upd_task ptr (set_awaiting_handle h) ?p1 = Inr p2"
    "frames p2 = frames ?p1" "objs p2 = objs ?p1" "fresh p2 = fresh ?p1"
    and R2: "\<And>q. in_range p2 q = in_range ?p1 q"
    and T2: "\<And>q. task_at p2 q = (if q = ptr then set_awaiting_handle h (task_at ?p1 ptr) else task_at ?p1 q)"
    using r by (rule_tac upd_task_in_range [of ?p1 ptr "set_awaiting_handle h"]) auto
  obtain p4 where p4: "upd_task ptr (set_pending True) p2 = Inr p4"
    "frames p4 = frames p2" "objs p4 = objs p2" "fresh p4 = fresh p2"
    and R4: "\<And>q. in_range p4 q = in_range p2 q"
    and T4: "\<And>q. task_at p4 q = (if q = ptr then set_pending True (task_at p2 ptr) else task_at p2 q)"
    using r R2 by (rule_tac upd_task_in_range [of p2 ptr "set_pending True"]) auto
  have e: "perform t h (CoAwaitPending k) p = Inr (Back, p4)"
    using f tc p2 p4(1)
    by (simp add: perform_def frame_eqs PendingAwaiter_await_suspend_def deref_task_def)
  show ?thesis unfolding e
  proof (rule suspend_ok [OF I f])
    show "frames p4 = (frames p)(h \<mapsto> f\<lparr>costate := Suspended k AwNothing\<rparr>)" using p2 p4 by simp
    show "\<exists>tk. objs p4 multishot_token = Some (Token tk)" using p2 p4 bnd by (auto simp: bounded_def)
  qed (use p2 p4 R2 R4 T2 T4 in \<open>auto simp: set_awaiting_handle_def set_pending_def aw_ok_def\<close>)
qed

lemma await_mshot_ok:
  assumes I: "run_inv S ptr (Exec h l inp) p" and sp: "safe_prep prep"
  shows "step_ok S ptr p (perform t h (CoAwaitMshot prep k) p)"
proof -
  obtain ys f where S: "S ptr = ys @ [h]" and f: "frames p h = Some f"
    and pr: "pr_ok ptr (if ys = [] then None else Some (last ys)) (promise f)"
    and bnd: "bounded p" and r: "in_range p ptr"
    using exec_facts [OF I] by metis
  have tc: "this_chain_task (promise f) = Some ptr" using pr by (simp add: pr_ok_def)
  obtain tk where tk: "objs p multishot_token = Some (Token tk)" using bnd by (auto simp: bounded_def)
  show ?thesis
  proof (cases "prep t multishot_token (env p)")
    case (Inl e)
    then have "\<not> machine_fault e" using sp by (simp add: safe_prep_def)
    then show ?thesis using Inl tk
      by (simp add: perform_def MultishotAcceptDirectAwaiter_ctor_def step_ok_def token_at_def)
  next
    case (Inr s)
    let ?p1 = "p\<lparr>env := s,
      frames := (frames p)(h \<mapsto> f\<lparr>costate := Suspended k AwNothing\<rparr>),
      objs := (objs p)(multishot_token \<mapsto> Token (tk\<lparr>tok_op := Op_MultishotAccept, chain_task := Some ptr\<rparr>))\<rparr>"
    obtain p2 where p2: "upd_task ptr (set_awaiting_handle h) ?p1 = Inr p2"
      "frames p2 = frames ?p1" "objs p2 = objs ?p1" "fresh p2 = fresh ?p1"
      and R2: "\<And>q. in_range p2 q = in_range ?p1 q"
      and T2: "\<And>q. task_at p2 q = (if q = ptr then set_awaiting_handle h (task_at ?p1 ptr) else task_at ?p1 q)"
      using r by (rule_tac upd_task_in_range [of ?p1 ptr "set_awaiting_handle h"]) auto
    have e: "perform t h (CoAwaitMshot prep k) p = Inr (Back, p2)"
      using Inr f tc tk p2(1)
      by (simp add: perform_def MultishotAcceptDirectAwaiter_ctor_def token_at_def frame_eqs
          MultishotAcceptDirectAwaiter_await_suspend_def deref_task_def)
    show ?thesis unfolding e
    proof (rule suspend_ok [OF I f])
      show "frames p2 = (frames p)(h \<mapsto> f\<lparr>costate := Suspended k AwNothing\<rparr>)" using p2 by simp
    qed (use p2 R2 T2 in \<open>auto simp: set_awaiting_handle_def aw_ok_def\<close>)
  qed
qed

lemma co_step_ok:
  assumes I: "run_inv S ptr (Exec h l inp) p" and sf: "safe_step f"
  shows "step_ok S ptr p (perform t h (CoStep f k) p)"
proof (cases "f t p")
  case (Inl e)
  then show ?thesis using sf by (auto simp: perform_def step_ok_def safe_step_def)
next
  case (Inr rp)
  obtain r p' where rp: "rp = (r, p')" by fastforce
  then have g: "grow p p'" using sf Inr by (auto simp: safe_step_def)
  obtain ys f' where S: "S ptr = ys @ [h]" and f: "frames p h = Some f'" "costate f' = Running"
    and L: "linked (frames p) ptr None (ys @ [h])"
    and dom: "set (ys @ [h]) \<subseteq> dom (frames p)" and ir: "in_range p ptr"
    using exec_facts [OF I] by metis
  from I have O: "others S (Some ptr) p" by (rule run_invE)
  obtain S' where O': "others S' (Some ptr) p'" and SS: "\<And>q. in_range p q \<Longrightarrow> S' q = S q"
    and X: "extends p p'"
    using grow_others [OF g O] ir by blast
  have fr: "frames p' x = frames p x" if "x \<in> dom (frames p)" for x
    using X that by (auto simp: extends_def)
  have "linked (frames p') ptr None (ys @ [h])"
    using L linked_cong [of "ys @ [h]" "frames p'" "frames p"] fr dom by blast
  moreover have "frames p' h = Some f'" using fr [of h] f by (simp add: domIff)
  ultimately have "ctl_ok (S' ptr) ptr (Exec h k r) p'"
    using SS [OF ir] S f by (simp add: ctl_ok_def)
  moreover have T: "in_range p' q \<and> task_at p' q = task_at p q" if "in_range p q" for q
    using X that by (simp add: extends_def)
  ultimately have "run_inv S' ptr (Exec h k r) p'"
    using I O' SS [OF ir] ir by (simp add: run_inv_def)
  moreover have "untouched S S' ptr p p'"
    using T SS fr others_chain_dom [OF O] by (fastforce simp: untouched_def)
  ultimately show ?thesis using Inr rp by (auto simp: perform_def step_ok_def)
qed

lemma perform_ok:
  assumes I: "run_inv S ptr (Exec h l inp) p" and a: "safe_action act"
  shows "step_ok S ptr p (perform t h act p)"
proof (cases act)
  case (CoReturn v)
  then show ?thesis using finish_ok [OF I disjI1 [OF refl]] by (simp add: perform_def)
next
  case (CoThrow e)
  then show ?thesis using finish_ok [OF I disjI2 [OF refl]] by (simp add: perform_def)
qed (use a in \<open>auto simp: safe_action_def intro: await_task_ok [OF I] await_uring_ok [OF I]
      await_pending_ok [OF I] await_mshot_ok [OF I] co_step_ok [OF I]\<close>)

lemma cstep_ok:
  assumes "run_inv S ptr c p" and "safe_code code"
  shows "step_ok S ptr p (cstep code t c p)"
proof (cases c)
  case (Enter h)
  then show ?thesis using assms by (simp add: cstep_def enter_ok)
next
  case (Exec h l inp)
  then show ?thesis using assms by (auto simp: cstep_def safe_code_def intro: perform_ok)
next
  case Back
  then show ?thesis using assms untouched_refl by (auto simp: cstep_def step_ok_def)
qed

section \<open>Whole runs\<close>

definition run_ok ::
  "chains \<Rightarrow> task_ptr \<Rightarrow> ('l, 'v, 'f, 's) proc \<Rightarrow> ('l, 'v, 'f, 's) proc res \<Rightarrow> bool" where
  "run_ok S ptr p r =
     (case r of
        Inl e \<Rightarrow> \<not> machine_fault e
      | Inr p' \<Rightarrow> \<exists>S'. run_inv S' ptr Back p' \<and> untouched S S' ptr p p')"

lemma run_ctl_ok:
  assumes code: "safe_code code" and ret: "run_ctl code t c p = Some r" and I: "run_inv S ptr c p"
  shows "run_ok S ptr p r"
proof -
  let ?P = "\<lambda>code' t' c p r. code' = code \<longrightarrow> (\<forall>S. run_inv S ptr c p \<longrightarrow> run_ok S ptr p r)"
  have "?P code t c p r"
  proof (rule run_ctl.raw_induct [where P = ?P, OF _ ret], intro impI allI)
    fix f code' t' c p r S
    assume IH: "\<And>code' t' c p r. f code' t' c p = Some r \<Longrightarrow> ?P code' t' c p r"
      and eq: "(case c of Back \<Rightarrow> Some (Inr p)
        | _ \<Rightarrow> (case cstep code' t' c p of Inl e \<Rightarrow> Some (Inl e)
                | Inr cp \<Rightarrow> f code' t' (fst cp) (snd cp))) = Some r"
      and co: "code' = code" and I: "run_inv S ptr c p"
    show "run_ok S ptr p r"
    proof (cases "c = Back")
      case True
      then show ?thesis using eq I by (auto simp: run_ok_def intro!: exI [of _ S])
    next
      case False
      note st = cstep_ok [OF I code, of t']
      have eq': "(case cstep code t' c p of Inl e \<Rightarrow> Some (Inl e)
                | Inr cp \<Rightarrow> f code t' (fst cp) (snd cp)) = Some r"
        using eq co False by (cases c) auto
      show ?thesis
      proof (cases "cstep code t' c p")
        case (Inl e)
        then show ?thesis using eq' st by (auto simp: step_ok_def run_ok_def)
      next
        case (Inr cp)
        then obtain S' where S': "run_inv S' ptr (fst cp) (snd cp)" "untouched S S' ptr p (snd cp)"
          using st by (cases cp) (auto simp: step_ok_def)
        have "run_ok S' ptr (snd cp) r" using IH eq' Inr S' by auto
        then show ?thesis using S'(2) untouched_trans by (fastforce simp: run_ok_def split: sum.splits)
      qed
    qed
  qed
  then show ?thesis using I by blast
qed

end
