(* ===== verification/Task_Loop.thy ===== *)
theory Task_Loop
  imports Chain_Safety
begin

text \<open>
  Scheduled tasks and the task loop (\<open>async/scheduled_task.hpp\<close>, \<open>context/task_loop.hpp\<close>)
  on top of the coroutine machine: resuming a task from a state in which every task is at rest ends
  in such a state, \<open>valid_\<close> is cleared exactly when the root coroutine has finished, a pending
  task is left alone, and nothing is ever removed from the list.
\<close>

section \<open>Resuming one task\<close>

lemma wf_task:
  assumes "well_formed S p" and "in_range p q"
  shows "at_rest (frames p) (objs p) (S q) q (task_at p q)"
  using assms others_at_rest by (fastforce simp: well_formed_def)

lemma wf_run_inv:
  assumes W: "well_formed S p" and r: "in_range p ptr" and v: "valid (task_at p ptr)"
  obtains h where "awaiting_handle (task_at p ptr) = Some h" and "run_inv S ptr (Enter h) p"
proof -
  have A: "at_rest (frames p) (objs p) (S ptr) ptr (task_at p ptr)" by (rule wf_task [OF W r])
  have "others S (Some ptr) p" using W by (simp add: well_formed_def others_def)
  with A v r have "run_inv S ptr (Enter (last (S ptr))) p"
    by (simp add: run_inv_def at_rest_def ctl_ok_def)
  with A v that show ?thesis by (simp add: at_rest_def)
qed

text \<open>The root of a suspended chain has not finished.\<close>

lemma linked_root_not_final:
  assumes "linked F ptr None hs" and "hs \<noteq> []" and "top_ok F H ptr (last hs)"
  shows "\<exists>f l w. F (hd hs) = Some f \<and> costate f = Suspended l w"
proof (cases hs)
  case (Cons h ys)
  then show ?thesis using assms by (cases ys) (auto simp: top_ok_def)
qed (use assms in simp)

lemma after_resume_ok:
  assumes I: "run_inv S ptr Back p"
  obtains p' where "after_resume ptr p = Inr p'" and "well_formed S p'" and "untouched S S ptr p p'"
    and "valid (task_at p' ptr) \<longleftrightarrow> (\<forall>f. frames p' (hd (S ptr)) = Some f \<longrightarrow> costate f \<noteq> AtFinal)"
proof -
  from I have O: "others S (Some ptr) p" and r: "in_range p ptr" and v: "valid (task_at p ptr)"
    and ne: "S ptr \<noteq> []" and d: "distinct (S ptr)"
    and th: "task_handle (sched_task (task_at p ptr)) = Some (hd (S ptr))"
    and C: "ctl_ok (S ptr) ptr Back p"
    by (auto elim: run_invE)
  have ta: "loops p (fst ptr) ! snd ptr = task_at p ptr" by (simp add: task_at_def)
  have all: "well_formed S q" if "others S (Some ptr) q" "at_rest (frames q) (objs q) (S ptr) ptr (task_at q ptr)" for q
    using that unfolding well_formed_def others_def by (metis option.inject)
  consider (rest) "at_rest (frames p) (objs p) (S ptr) ptr (task_at p ptr)"
    | (fin) "S ptr = [hd (S ptr)]" "\<exists>f. frames p (hd (S ptr)) = Some f \<and> costate f = AtFinal"
    using C by (auto simp: ctl_ok_def)
  then show ?thesis
  proof cases
    case rest
    then obtain f l w where f: "frames p (hd (S ptr)) = Some f" "costate f = Suspended l w"
      using linked_root_not_final [of "frames p" ptr "S ptr" "objs p"] v by (auto simp: at_rest_def)
    then have e: "after_resume ptr p = Inr p"
      using th by (simp add: after_resume_def ta Task_done_def)
    show ?thesis
      by (rule that [OF e all [OF O rest]]) (use f v in auto)
  next
    case fin
    then obtain f where f: "frames p (hd (S ptr)) = Some f" "costate f = AtFinal" by blast
    obtain p' where p': "upd_task ptr (\<lambda>st. st\<lparr>valid := False\<rparr>) p = Inr p'"
      "frames p' = frames p" "objs p' = objs p" "fresh p' = fresh p"
      and R: "\<And>q. in_range p' q = in_range p q"
      and T: "\<And>q. task_at p' q = (if q = ptr then (task_at p ptr)\<lparr>valid := False\<rparr> else task_at p q)"
      using r by (rule_tac upd_task_in_range [of p ptr "\<lambda>st. st\<lparr>valid := False\<rparr>"]) auto
    have e: "after_resume ptr p = Inr p'"
      using f th p' by (simp add: after_resume_def ta Task_done_def)
    have "others S (Some ptr) p'"
    proof (rule others_step [OF O R])
      show "bounded p'" using others_bounded [OF O] p' by (simp add: bounded_def)
    qed (use p' T r others_chain_dom [OF O r] in auto)
    moreover have "at_rest (frames p') (objs p') (S ptr) ptr (task_at p' ptr)"
      using fin ne d th T p' by (simp add: at_rest_def)
    ultimately have "well_formed S p'" by (rule all)
    moreover have "untouched S S ptr p p'" using p' R T by (simp add: untouched_def)
    ultimately show ?thesis using that [OF e] f p' T by simp
  qed
qed

definition loop_ok ::
  "chains \<Rightarrow> (task_ptr \<Rightarrow> bool) \<Rightarrow> ('l, 'v, 'f, 's) proc \<Rightarrow> ('l, 'v, 'f, 's) proc res \<Rightarrow> bool" where
  "loop_ok S K p r =
     (case r of
        Inl e \<Rightarrow> \<not> machine_fault e
      | Inr p' \<Rightarrow> \<exists>S'. well_formed S' p' \<and>
          (\<forall>q. in_range p q \<longrightarrow> in_range p' q \<and> sched_task (task_at p' q) = sched_task (task_at p q)) \<and>
          (\<forall>q. in_range p q \<longrightarrow> K q \<longrightarrow>
             task_at p' q = task_at p q \<and> S' q = S q \<and> (\<forall>h \<in> set (S q). frames p' h = frames p h)))"

lemma resume_ok:
  assumes code: "safe_code code" and W: "well_formed S p" and r: "in_range p ptr" and v: "valid (task_at p ptr)"
    and ret: "ScheduledTask_resume code ptr p = Some res"
  shows "loop_ok S (\<lambda>q. q \<noteq> ptr) p res"
proof -
  obtain h where h: "awaiting_handle (task_at p ptr) = Some h" and I: "run_inv S ptr (Enter h) p"
    using wf_run_inv [OF W r v] .
  then obtain r1 where r1: "run_ctl code (fst ptr) (Enter h) p = Some r1"
    using ret by (auto simp: ScheduledTask_resume_def task_at_def split: option.splits)
  note ok = run_ctl_ok [OF code r1 I]
  show ?thesis
  proof (cases r1)
    case (Inl e)
    then have "res = Inl e" using ret r1 h by (simp add: ScheduledTask_resume_def task_at_def)
    then show ?thesis using ok Inl by (simp add: run_ok_def loop_ok_def)
  next
    case (Inr p1)
    then obtain S' where I1: "run_inv S' ptr Back p1" and U: "untouched S S' ptr p p1"
      using ok by (auto simp: run_ok_def)
    obtain p' where p': "after_resume ptr p1 = Inr p'" "well_formed S' p'" "untouched S' S' ptr p1 p'"
      using after_resume_ok [OF I1] by metis
    have "res = Inr p'" using ret r1 h Inr p'(1) by (simp add: ScheduledTask_resume_def task_at_def)
    moreover have "untouched S S' ptr p p'" using U p'(3) by (rule untouched_trans)
    ultimately show ?thesis using p'(2) by (auto simp: loop_ok_def untouched_def)
  qed
qed

section \<open>The loop over the tasks\<close>

lemma loop_ok_refl: "well_formed S p \<Longrightarrow> loop_ok S K p (Inr p)"
  by (auto simp: loop_ok_def)

lemma loop_ok_trans:
  assumes "loop_ok S K p (Inr p1)" and "\<And>S1. well_formed S1 p1 \<Longrightarrow> loop_ok S1 K' p1 r"
    and "\<And>q. K'' q \<Longrightarrow> K q \<and> K' q"
  shows "loop_ok S K'' p r"
proof -
  obtain S1 where S1: "well_formed S1 p1"
    "\<And>q. in_range p q \<Longrightarrow> in_range p1 q \<and> sched_task (task_at p1 q) = sched_task (task_at p q)"
    "\<And>q. in_range p q \<Longrightarrow> K q \<Longrightarrow> task_at p1 q = task_at p q \<and> S1 q = S q \<and>
       (\<forall>h \<in> set (S q). frames p1 h = frames p h)"
    using assms(1) by (auto simp: loop_ok_def)
  have "loop_ok S1 K' p1 r" by (rule assms(2) [OF S1(1)])
  then show ?thesis
  proof (cases r)
    case (Inr p2)
    with \<open>loop_ok S1 K' p1 r\<close> obtain S2 where S2: "well_formed S2 p2"
      "\<And>q. in_range p1 q \<Longrightarrow> in_range p2 q \<and> sched_task (task_at p2 q) = sched_task (task_at p1 q)"
      "\<And>q. in_range p1 q \<Longrightarrow> K' q \<Longrightarrow> task_at p2 q = task_at p1 q \<and> S2 q = S1 q \<and>
         (\<forall>h \<in> set (S1 q). frames p2 h = frames p1 h)"
      by (auto simp: loop_ok_def)
    have "task_at p2 q = task_at p q \<and> S2 q = S q \<and> (\<forall>h \<in> set (S q). frames p2 h = frames p h)"
      if q: "in_range p q" "K'' q" for q
      using S1(2,3) S2(3) assms(3) [OF q(2)] q(1) by metis
    moreover have "in_range p2 q \<and> sched_task (task_at p2 q) = sched_task (task_at p q)"
      if q: "in_range p q" for q
      using S1(2) [OF q] S2(2) [of q] by simp
    ultimately show ?thesis unfolding loop_ok_def Inr using S2(1) by auto
  qed (simp add: loop_ok_def)
qed

definition idle_from :: "('l, 'v, 'f, 's) proc \<Rightarrow> nat \<Rightarrow> nat \<Rightarrow> task_ptr \<Rightarrow> bool" where
  "idle_from p t i q \<longleftrightarrow> fst q = t \<longrightarrow> i \<le> snd q \<longrightarrow> in_range p q \<and> \<not> runnable (task_at p q)"

lemma TaskLoop_run_from_ok:
  assumes code: "safe_code code" and ret: "TaskLoop_run_from code t i p = Some r" and W: "well_formed S p"
  shows "loop_ok S (idle_from p t i) p r"
proof -
  let ?P = "\<lambda>code' t i p r. code' = code \<longrightarrow> (\<forall>S. well_formed S p \<longrightarrow> loop_ok S (idle_from p t i) p r)"
  have "?P code t i p r"
  proof (rule TaskLoop_run_from.raw_induct [where P = ?P, OF _ ret], intro impI allI)
    fix f code' t i p r S
    assume IH: "\<And>code' t i p r. f code' t i p = Some r \<Longrightarrow> ?P code' t i p r"
      and eq: "(if i < length (loops p t)
        then (case (if runnable (loops p t ! i) then ScheduledTask_resume code' (t, i) p
                    else Some (Inr p)) of
                None \<Rightarrow> None
              | Some r \<Rightarrow> (case r of Inl e \<Rightarrow> Some (Inl e) | Inr p1 \<Rightarrow> f code' t (Suc i) p1))
        else Some (Inr p)) = Some r"
      and co: "code' = code" and W: "well_formed S p"
    show "loop_ok S (idle_from p t i) p r"
    proof (cases "i < length (loops p t)")
      case False
      then show ?thesis using eq W loop_ok_refl by auto
    next
      case True
      then have ir: "in_range p (t, i)" by (simp add: in_range_def)
      have ti: "loops p t ! i = task_at p (t, i)" by (simp add: task_at_def)
      let ?K = "\<lambda>q. if runnable (task_at p (t, i)) then q \<noteq> (t, i) else True"
      obtain r1 where r1: "(if runnable (task_at p (t, i)) then ScheduledTask_resume code (t, i) p
          else Some (Inr p)) = Some r1"
        and eq': "(case r1 of Inl e \<Rightarrow> Some (Inl e) | Inr p1 \<Rightarrow> f code t (Suc i) p1) = Some r"
        using eq True co ti by (auto split: option.splits)
      have ok: "loop_ok S ?K p r1"
      proof (cases "runnable (task_at p (t, i))")
        case True
        then show ?thesis using resume_ok [OF code W ir _ _] r1 by (simp add: runnable_def)
      next
        case False
        then show ?thesis using r1 W loop_ok_refl by auto
      qed
      show ?thesis
      proof (cases r1)
        case (Inl e)
        then show ?thesis using ok eq' by (auto simp: loop_ok_def)
      next
        case (Inr p1)
        have rest: "loop_ok S1 (idle_from p1 t (Suc i)) p1 r" if "well_formed S1 p1" for S1
          using IH eq' Inr that by auto
        have "idle_from p1 t (Suc i) q \<and> ?K q" if q: "idle_from p t i q" for q
        proof -
          have K: "?K q" using q ir by (auto simp: idle_from_def)
          have "in_range p1 q \<and> \<not> runnable (task_at p1 q)" if "fst q = t" "Suc i \<le> snd q"
          proof -
            have "in_range p q" "\<not> runnable (task_at p q)" using q that by (auto simp: idle_from_def)
            then show ?thesis using ok K Inr by (auto simp: loop_ok_def)
          qed
          then show ?thesis using K by (auto simp: idle_from_def)
        qed
        then show ?thesis using loop_ok_trans [OF ok [unfolded Inr] rest] by blast
      qed
    qed
  qed
  then show ?thesis using W by blast
qed

end
