(* ===== verification/Direct_Style.thy ===== *)
theory Direct_Style
  imports Chain_Safety
begin

text \<open>
  Awaiting a task means the same as calling a function. \<open>eval\<close> is a semantics in direct style: a
  coroutine body runs to its end, and where it awaits a task the callee's body is evaluated on the
  spot and its value, or its exception, is what the \<open>co_await\<close> gives. The machine with frames,
  caller links and symmetric transfer refines it.
\<close>

definition deliver :: "exn + 'v \<Rightarrow> 'v resume_in" where
  "deliver r = (case r of Inl e \<Rightarrow> RExn e | Inr v \<Rightarrow> RVal v)"

definition outcome :: "exn + 'v \<Rightarrow> ('l, 'v, 'f, 's) action" where
  "outcome r = (case r of Inl e \<Rightarrow> CoThrow e | Inr v \<Rightarrow> CoReturn v)"

text \<open>A step of plain code that only looks at, and changes, the environment.\<close>

definition env_step ::
  "(nat \<Rightarrow> ('l, 'v, 'f, 's) proc \<Rightarrow> ('v resume_in \<times> ('l, 'v, 'f, 's) proc) res)
   \<Rightarrow> nat \<Rightarrow> 's \<Rightarrow> 'v resume_in \<Rightarrow> 's \<Rightarrow> bool" where
  "env_step f t s x s' \<longleftrightarrow> (\<forall>p. env p = s \<longrightarrow> f t p = Inr (x, p\<lparr>env := s'\<rparr>))"

inductive eval ::
  "('l, 'v, 'f, 's) code \<Rightarrow> nat \<Rightarrow> 'l \<Rightarrow> 'v resume_in \<Rightarrow> 's \<Rightarrow> exn + 'v \<Rightarrow> 's \<Rightarrow> bool"
  for code t where
  eval_end: "code l inp = outcome r \<Longrightarrow> eval code t l inp s r s"
| eval_step: "code l inp = CoStep f k \<Longrightarrow> env_step f t s x s1 \<Longrightarrow> eval code t k x s1 r s2
    \<Longrightarrow> eval code t l inp s r s2"
| eval_await: "code l inp = CoAwaitTask g k \<Longrightarrow> eval code t g RStart s r s1
    \<Longrightarrow> eval code t k (deliver r) s1 r' s2 \<Longrightarrow> eval code t l inp s r' s2"

text \<open>Transfers of control, as a relation.\<close>

inductive csteps ::
  "('l, 'v, 'f, 's) code \<Rightarrow> nat \<Rightarrow> ('l, 'v) ctl \<Rightarrow> ('l, 'v, 'f, 's) proc
   \<Rightarrow> ('l, 'v) ctl \<Rightarrow> ('l, 'v, 'f, 's) proc \<Rightarrow> bool" for code t where
  csteps_refl: "csteps code t c p c p"
| csteps_step: "cstep code t c p = Inr (c1, p1) \<Longrightarrow> csteps code t c1 p1 c2 p2 \<Longrightarrow> csteps code t c p c2 p2"

lemma csteps_trans:
  "csteps code t c p c1 p1 \<Longrightarrow> csteps code t c1 p1 c2 p2 \<Longrightarrow> csteps code t c p c2 p2"
  by (induction rule: csteps.induct) (auto intro: csteps_step)

lemma csteps_one: "cstep code t c p = Inr (c1, p1) \<Longrightarrow> csteps code t c p c1 p1"
  by (blast intro: csteps.intros)

text \<open>
  The two transfers around an awaited task. First: the caller is suspended and the callee, in a new
  frame, starts.
\<close>

lemma await_call:
  assumes b: "bounded p" and h: "frames p h = Some f" "costate f = Running"
    and act: "code l inp = CoAwaitTask g k"
  obtains p1 where "csteps code t (Exec h l inp) p (Exec (fresh p) g RStart) p1"
    and "frames p1 = (frames p)(h \<mapsto> f\<lparr>costate := Suspended k (AwTask (fresh p))\<rparr>,
           fresh p \<mapsto> \<lparr>promise = set_chain_root (this_chain_task (promise f)) (set_caller (Some h) new_promise),
                       costate = Running\<rparr>)"
    and "objs p1 = objs p" and "env p1 = env p" and "loops p1 = loops p" and "fresh p1 = Suc (fresh p)"
proof -
  have ne: "h \<noteq> fresh p" using bounded_frame [OF b h(1)] by simp
  let ?p0 = "snd (create_coroutine g p)"
  let ?c = "\<lparr>promise = set_chain_root (this_chain_task (promise f)) (set_caller (Some h) new_promise),
             costate = Suspended g AwInitial\<rparr>"
  let ?F = "(frames p)(h \<mapsto> f\<lparr>costate := Suspended k (AwTask (fresh p))\<rparr>, fresh p \<mapsto> ?c)"
  let ?p1 = "p\<lparr>frames := ?F, fresh := Suc (fresh p)\<rparr>"
  have 1: "cstep code t (Exec h l inp) p = Inr (Enter (fresh p), ?p1)"
    using h ne act
    by (simp add: cstep_def perform_def create_coroutine_def TaskAwaier_await_suspend_def frame_eqs
        set_costate_def upd_promise_def promise_at_def fun_upd_twist)
  let ?p2 = "?p1\<lparr>frames := ?F(fresh p \<mapsto> ?c\<lparr>costate := Running\<rparr>)\<rparr>"
  have 2: "cstep code t (Enter (fresh p)) ?p1 = Inr (Exec (fresh p) g RStart, ?p2)"
    by (simp add: cstep_def enter_def set_costate_def await_resume_def)
  have "csteps code t (Exec h l inp) p (Exec (fresh p) g RStart) ?p2"
    using 1 2 by (blast intro: csteps.intros)
  then show ?thesis using that [of ?p2] by simp
qed

text \<open>Second: the callee ends, the caller goes on with its outcome, and the callee's frame is gone.\<close>

lemma await_return:
  assumes h: "frames p h = Some f" "costate f = Suspended k (AwTask callee)" and ne: "h \<noteq> callee"
    and c: "frames p callee = Some fc" "costate fc = Running" "caller (promise fc) = Some h"
      "exn_ptr (promise fc) = None"
    and act: "code l inp = outcome r"
  obtains p1 where "csteps code t (Exec callee l inp) p (Exec h k (deliver r)) p1"
    and "frames p1 = (frames p)(callee := None, h \<mapsto> f\<lparr>costate := Running\<rparr>)"
    and "objs p1 = objs p" and "env p1 = env p" and "loops p1 = loops p" and "fresh p1 = fresh p"
proof -
  let ?pr = "case r of Inl e \<Rightarrow> unhandled_exception e (promise fc) | Inr v \<Rightarrow> return_value v (promise fc)"
  let ?p1 = "p\<lparr>frames := (frames p)(callee \<mapsto> \<lparr>promise = ?pr, costate = AtFinal\<rparr>)\<rparr>"
  have cal: "caller ?pr = Some h"
    using c by (cases r) (simp_all add: unhandled_exception_def return_value_def)
  have 1: "cstep code t (Exec callee l inp) p = Inr (Enter h, ?p1)"
    using c act cal
    by (cases r; cases fc)
      (simp_all add: cstep_def perform_def outcome_def finish_def upd_promise_def set_costate_def promise_at_def
        final_await_suspend_def)
  obtain p2 where 2: "cstep code t (Enter h) ?p1 = Inr (Exec h k (deliver r), p2)"
    and p2: "frames p2 = (frames p)(callee := None, h \<mapsto> f\<lparr>costate := Running\<rparr>)"
      "objs p2 = objs p" "env p2 = env p" "loops p2 = loops p" "fresh p2 = fresh p"
  proof (cases r)
    case (Inl e)
    show thesis
      by (rule that [of "p\<lparr>frames := (frames p)(callee := None, h \<mapsto> f\<lparr>costate := Running\<rparr>)\<rparr>"])
        (use h ne Inl in \<open>auto simp: cstep_def enter_def set_costate_def await_resume_def
          TaskAwaier_await_resume_def promise_at_def upd_promise_def promise_result_def Task_dtor_def
          destroy_frame_def deliver_def unhandled_exception_def fun_upd_twist\<close>)
  next
    case (Inr v)
    show thesis
      by (rule that [of "p\<lparr>frames := (frames p)(callee := None, h \<mapsto> f\<lparr>costate := Running\<rparr>)\<rparr>"])
        (use h ne c(4) Inr in \<open>auto simp: cstep_def enter_def set_costate_def await_resume_def
          TaskAwaier_await_resume_def promise_at_def upd_promise_def promise_result_def Task_dtor_def
          destroy_frame_def deliver_def return_value_def construct_result_def move_out_result_def
          fun_upd_twist\<close>)
  qed
  have "csteps code t (Exec callee l inp) p (Exec h k (deliver r)) p2"
    using 1 2 by (blast intro: csteps.intros)
  then show ?thesis using that p2 by blast
qed

definition same_but_env ::
  "('l, 'v, 'f, 's) proc \<Rightarrow> ('l, 'v, 'f, 's) proc \<Rightarrow> bool" where
  "same_but_env p p' \<longleftrightarrow>
     frames p' = frames p \<and> objs p' = objs p \<and> loops p' = loops p \<and> fresh p \<le> fresh p'"

lemma bounded_same: "bounded p \<Longrightarrow> same_but_env p p' \<Longrightarrow> bounded p'"
  unfolding same_but_env_def by (rule bounded_mono) auto

lemma eval_csteps:
  assumes "eval code t l inp s r s'" and "bounded p" and "frames p h = Some f" and "costate f = Running"
    and "env p = s"
  shows "\<exists>l' inp' p'. csteps code t (Exec h l inp) p (Exec h l' inp') p' \<and> code l' inp' = outcome r \<and>
    same_but_env p p' \<and> env p' = s'"
  using assms
proof (induction arbitrary: p h f rule: eval.induct)
  case (eval_end l inp r s)
  then show ?case by (intro exI [of _ l] exI [of _ inp] exI [of _ p]) (auto simp: same_but_env_def intro: csteps_refl)
next
  case (eval_step l inp g k s x s1 r s2)
  let ?p1 = "p\<lparr>env := s1\<rparr>"
  have "cstep code t (Exec h l inp) p = Inr (Exec h k x, ?p1)"
    using eval_step.hyps(1,2) eval_step.prems(4) by (simp add: cstep_def perform_def env_step_def)
  moreover have "same_but_env p ?p1" by (simp add: same_but_env_def)
  moreover have "bounded ?p1" using bounded_same eval_step.prems(1) calculation(2) by blast
  ultimately show ?case
    using eval_step.IH [of ?p1 h f] eval_step.prems(2,3)
    by (fastforce simp: same_but_env_def intro: csteps_step)
next
  case (eval_await l inp g k s r s1 r' s2)
  note b = eval_await.prems(1) and h = eval_await.prems(2,3)
  have new: "frames p (fresh p) = None" "h \<noteq> fresh p"
    using fresh_frame [OF b] bounded_frame [OF b h(1)] by auto
  let ?fc = "\<lparr>promise = set_chain_root (this_chain_task (promise f)) (set_caller (Some h) new_promise), costate = Running\<rparr>"
  let ?F1 = "(frames p)(h \<mapsto> f\<lparr>costate := Suspended k (AwTask (fresh p))\<rparr>, fresh p \<mapsto> ?fc)"
  obtain p1 where p1: "csteps code t (Exec h l inp) p (Exec (fresh p) g RStart) p1" "frames p1 = ?F1"
    "objs p1 = objs p" "env p1 = env p" "loops p1 = loops p" "fresh p1 = Suc (fresh p)"
    by (rule await_call [of p h f code l inp g k t]) (use b h eval_await.hyps(1) in auto)
  have b1: "bounded p1"
    by (rule bounded_mono [OF b]) (use p1 new h in \<open>auto split: if_splits\<close>)
  have "frames p1 (fresh p) = Some ?fc" "costate ?fc = Running" using p1(2) by simp_all
  then obtain l' inp' p2 where p2: "csteps code t (Exec (fresh p) g RStart) p1 (Exec (fresh p) l' inp') p2"
    "code l' inp' = outcome r" "same_but_env p1 p2" "env p2 = s1"
    using eval_await.IH(1) [OF b1] p1(4) eval_await.prems(4) by blast
  have F2: "frames p2 = ?F1" using p1(2) p2(3) by (simp add: same_but_env_def)
  obtain p3 where p3: "csteps code t (Exec (fresh p) l' inp') p2 (Exec h k (deliver r)) p3"
    "frames p3 = (frames p2)(fresh p := None, h \<mapsto> f\<lparr>costate := Running\<rparr>)"
    "objs p3 = objs p2" "env p3 = env p2" "loops p3 = loops p2" "fresh p3 = fresh p2"
  proof (rule await_return [of p2 h "f\<lparr>costate := Suspended k (AwTask (fresh p))\<rparr>" k "fresh p" ?fc code l' inp' r t])
    show "frames p2 h = Some (f\<lparr>costate := Suspended k (AwTask (fresh p))\<rparr>)" using F2 new by simp
    show "frames p2 (fresh p) = Some ?fc" using F2 by simp
    show "caller (promise ?fc) = Some h" "exn_ptr (promise ?fc) = None"
      by (simp_all add: set_caller_def set_chain_root_def new_promise_def)
  qed (use new p2(2) that in auto)
  have f: "f\<lparr>costate := Running\<rparr> = f" using h(2) by (cases f) simp
  have F3: "frames p3 = frames p"
    using F2 new f h(1) by (auto simp: p3(2))
  have same: "same_but_env p p3"
    using F3 p1 p2(3) p3 by (simp add: same_but_env_def)
  obtain l2 inp2 p4 where p4: "csteps code t (Exec h k (deliver r)) p3 (Exec h l2 inp2) p4"
    "code l2 inp2 = outcome r'" "same_but_env p3 p4" "env p4 = s2"
    using eval_await.IH(2) [of p3 h f] bounded_same [OF b same] F3 h p2(4) p3(4) by auto
  have "csteps code t (Exec h l inp) p (Exec h l2 inp2) p4"
    using p1(1) p2(1) p3(1) p4(1) csteps_trans by meson
  moreover have "same_but_env p p4" using same p4(3) by (auto simp: same_but_env_def)
  ultimately show ?case using p4 by blast
qed

text \<open>
  \<open>resume\<close> follows the transfers: if they lead to a point from which it returns, it returns from
  the start.
\<close>

lemma run_ctl_Back [simp]: "run_ctl code t Back p = Some (Inr p)"
  by (subst run_ctl.simps) simp

lemma run_ctl_csteps: "csteps code t c p c' p' \<Longrightarrow> run_ctl code t c p = run_ctl code t c' p'"
proof (induction rule: csteps.induct)
  case (csteps_step c p c1 p1 c2 p2)
  show ?case
  proof (cases "c = Back")
    case True
    then show ?thesis using csteps_step by (simp add: cstep_def)
  next
    case False
    then have "run_ctl code t c p = run_ctl code t c1 p1"
      using csteps_step.hyps(1) by (subst run_ctl.simps) (cases c; simp)
    then show ?thesis using csteps_step.IH by simp
  qed
qed simp

section \<open>A spawned task\<close>

text \<open>The promise of a root coroutine that has ended with a value.\<close>

definition ended_with :: "'v \<Rightarrow> ('l, 'v) frame \<Rightarrow> bool" where
  "ended_with v f \<longleftrightarrow> costate f = AtFinal \<and> exn_ptr (promise f) = None \<and> slot (promise_res (promise f)) = Some v"

lemma finish_root:
  assumes "frames p h = Some f" and "caller (promise f) = None" and "exn_ptr (promise f) = None"
    and "code l inp = outcome r"
  shows "run_ctl code t (Exec h l inp) p =
    (case r of
       Inl e \<Rightarrow> Some (Inl (Terminated e))
     | Inr v \<Rightarrow> Some (Inr (p\<lparr>frames := (frames p)(h \<mapsto> \<lparr>promise = return_value v (promise f), costate = AtFinal\<rparr>)\<rparr>)))"
  using assms
  by (subst run_ctl.simps)
    (cases f; auto simp: cstep_def perform_def outcome_def finish_def upd_promise_def set_costate_def promise_at_def
      final_await_suspend_def unhandled_exception_def return_value_def split: sum.splits)

lemma run_spawned:
  assumes b: "bounded p" and e: "emplace_back t l p = Inr p1"
    and ev: "eval code t l RStart (env p) r s'"
  shows "case r of
      Inl x \<Rightarrow> ScheduledTask_resume code (t, length (loops p t)) p1 = Some (Inl (Terminated x))
    | Inr v \<Rightarrow> \<exists>p2 f. ScheduledTask_resume code (t, length (loops p t)) p1 = Some (Inr p2) \<and>
        env p2 = s' \<and> objs p2 = objs p \<and> frames p2 = (frames p)(fresh p \<mapsto> f) \<and> ended_with v f \<and>
        loops p2 = (loops p)(t := loops p t @ [\<lparr>sched_task = \<lparr>task_handle = Some (fresh p)\<rparr>,
          awaiting_handle = Some (fresh p), valid = False, pending = False\<rparr>])"
proof -
  let ?h = "fresh p" and ?n = "(t, length (loops p t))"
  let ?st = "\<lparr>sched_task = \<lparr>task_handle = Some ?h\<rparr>, awaiting_handle = Some ?h, valid = True, pending = False\<rparr>"
  let ?pr = "set_chain_root (Some ?n) new_promise"
  have p1: "p1 = p\<lparr>frames := (frames p)(?h \<mapsto> \<lparr>promise = ?pr, costate = Suspended l AwInitial\<rparr>),
      fresh := Suc ?h, loops := (loops p)(t := loops p t @ [?st])\<rparr>"
    using e by (auto simp: emplace_back_def create_coroutine_def enqueue_def upd_promise_def Let_def)
  let ?f = "\<lparr>promise = ?pr, costate = Running\<rparr>"
  let ?p2 = "p1\<lparr>frames := (frames p)(?h \<mapsto> ?f)\<rparr>"
  have 1: "cstep code t (Enter ?h) p1 = Inr (Exec ?h l RStart, ?p2)"
    by (simp add: p1 cstep_def enter_def set_costate_def await_resume_def)
  have "bounded ?p2" by (rule bounded_mono [OF b]) (auto simp: p1 split: if_splits)
  then obtain l' inp' p3 where p3: "csteps code t (Exec ?h l RStart) ?p2 (Exec ?h l' inp') p3"
    "code l' inp' = outcome r" "same_but_env ?p2 p3" "env p3 = s'"
    using eval_csteps [OF ev, of ?p2 ?h ?f] by (auto simp: p1)
  have f3: "frames p3 ?h = Some ?f" using p3(3) by (simp add: same_but_env_def)
  have run: "run_ctl code t (Enter ?h) p1 = run_ctl code t (Exec ?h l' inp') p3"
    using run_ctl_csteps [OF csteps_one [OF 1]] run_ctl_csteps [OF p3(1)] by simp
  have aw: "awaiting_handle (loops p1 t ! length (loops p t)) = Some ?h" by (simp add: p1)
  note fin = finish_root [of p3 ?h ?f code l' inp' r t, OF f3 _ _ p3(2)]
  show ?thesis
  proof (cases r)
    case (Inl x)
    then show ?thesis using run fin aw
      by (simp add: ScheduledTask_resume_def new_promise_def set_chain_root_def)
  next
    case (Inr v)
    let ?g = "\<lparr>promise = return_value v ?pr, costate = AtFinal\<rparr>"
    let ?p4 = "p3\<lparr>frames := (frames p3)(?h \<mapsto> ?g)\<rparr>"
    have r4: "run_ctl code t (Enter ?h) p1 = Some (Inr ?p4)"
      using run fin Inr by (simp add: new_promise_def set_chain_root_def)
    have l3: "loops p3 = (loops p)(t := loops p t @ [?st])" "objs p3 = objs p" using p3(3) by (simp_all add: same_but_env_def p1)
    have F3: "(frames p3)(?h \<mapsto> ?g) = (frames p)(?h \<mapsto> ?g)" using p3(3) by (simp add: same_but_env_def)
    have "after_resume ?n ?p4 = Inr (?p4\<lparr>loops := (loops p)(t := loops p t @ [?st\<lparr>valid := False\<rparr>])\<rparr>)"
      by (simp add: after_resume_def Task_done_def l3 upd_task_def)
    moreover have "ended_with v ?g"
      by (simp add: ended_with_def return_value_def construct_result_def set_chain_root_def new_promise_def)
    ultimately show ?thesis
      using Inr r4 aw l3 F3 p3(4) by (auto simp: ScheduledTask_resume_def intro!: exI [of _ ?g])
  qed
qed

end
