(* ===== verification/Coroutine_Properties.thy ===== *)
theory Coroutine_Properties
  imports Task_Loop Direct_Style
begin

text \<open>
  The properties of the coroutine layer: awaiting is calling, the task loop is memory safe and
  leaves idle tasks alone, and a task counts as finished exactly when its root coroutine is.
  A small program is used as the concrete instance.
\<close>

section \<open>A sample program\<close>

text \<open>
  Label 0 awaits the task that starts at label 1 and returns its value plus one; label 1 returns 41;
  label 2 throws; label 3 awaits the throwing task and returns 7 if it catches the exception.
\<close>

definition sample_code :: "(nat, nat, nat, unit) code" where
  "sample_code l inp =
     (if l = 0 then CoAwaitTask 1 10
      else if l = 1 then CoReturn 41
      else if l = 2 then CoThrow (UserException 5)
      else if l = 3 then CoAwaitTask 2 13
      else if l = 10 then (case inp of RVal v \<Rightarrow> CoReturn (v + 1) | _ \<Rightarrow> CoReturn 0)
      else (case inp of RExn e \<Rightarrow> CoReturn 7 | _ \<Rightarrow> CoReturn 0))"

definition sample_proc :: "(nat, nat, nat, unit) proc" where
  "sample_proc = initial_proc ()"

definition sample_spawned :: "(nat, nat, nat, unit) proc" where
  "sample_spawned =
     sample_proc\<lparr>frames := [2 \<mapsto> \<lparr>promise = set_chain_root (Some (0, 0)) new_promise, costate = Suspended 0 AwInitial\<rparr>],
       fresh := 3,
       loops := (\<lambda>t. [])(0 := [\<lparr>sched_task = \<lparr>task_handle = Some 2\<rparr>, awaiting_handle = Some 2,
         valid = True, pending = False\<rparr>])\<rparr>"

lemma sample_spawned: "emplace_back 0 0 sample_proc = Inr sample_spawned"
  by (simp add: emplace_back_def create_coroutine_def enqueue_def upd_promise_def Let_def sample_proc_def
      initial_proc_def sample_spawned_def multishot_token_def numeral_2_eq_2 numeral_3_eq_3)

lemma sample_bounded: "bounded sample_proc"
  unfolding sample_proc_def by (rule bounded_initial)

lemma sample_well_formed: "well_formed (\<lambda>q. [2]) sample_spawned"
  using others_first_task [OF sample_spawned [unfolded sample_proc_def]]
  by (simp add: well_formed_def multishot_token_def numeral_2_eq_2)

lemma sample_safe: "safe_code sample_code"
  by (auto simp: safe_code_def sample_code_def safe_action_def split: resume_in.splits)

lemma sample_eval: "eval sample_code t 0 RStart () (Inr 42) ()"
proof (rule eval_await)
  show "sample_code 0 RStart = CoAwaitTask 1 10" by (simp add: sample_code_def)
  show "eval sample_code t 1 RStart () (Inr 41) ()" by (rule eval_end) (simp add: sample_code_def outcome_def)
  show "eval sample_code t 10 (deliver (Inr 41)) () (Inr 42) ()"
    by (rule eval_end) (simp add: sample_code_def outcome_def deliver_def)
qed

lemma sample_range: "in_range sample_spawned (0, 0)" "valid (task_at sample_spawned (0, 0))"
  by (simp_all add: in_range_def task_at_def sample_spawned_def)

lemma sample_resume: "\<exists>p. ScheduledTask_resume sample_code (0, 0) sample_spawned = Some (Inr p)"
  using run_spawned [OF sample_bounded sample_spawned, of sample_code "Inr 42" "()"]
    sample_eval by (auto simp: sample_proc_def initial_proc_def)

section \<open>Awaiting a task is calling a function\<close>

text \<open>
  C7. A coroutine that runs does what its direct-style evaluation says. If evaluating the body of the
  running coroutine h from here, with every awaited task evaluated in place as a function call, ends
  with outcome r (a value or an exception) and environment s', then the machine of frames, caller
  links, symmetric transfers and final awaiters takes h to the point where it ends with the same
  outcome r, in environment s'; every coroutine frame made for an awaited task has been destroyed
  again, so the frames, the heap objects and the task lists are exactly those from before.
\<close>

theorem await_is_a_call:
  assumes "eval code t l inp (env p) r s'" and "bounded p"
    and "frames p h = Some f" and "costate f = Running"
  shows "\<exists>l' inp' p'. csteps code t (Exec h l inp) p (Exec h l' inp') p' \<and> code l' inp' = outcome r \<and>
    frames p' = frames p \<and> objs p' = objs p \<and> loops p' = loops p \<and> env p' = s'"
  using eval_csteps [OF assms(1) assms(2-4) refl] by (auto simp: same_but_env_def)

lemma await_is_a_call_witness:
  "\<exists>l' inp' p'. csteps sample_code 0 (Exec 2 0 RStart)
       (sample_spawned\<lparr>frames := [2 \<mapsto> \<lparr>promise = new_promise, costate = Running\<rparr>]\<rparr>) (Exec 2 l' inp') p' \<and>
     sample_code l' inp' = outcome (Inr 42) \<and>
     frames p' = [2 \<mapsto> \<lparr>promise = new_promise, costate = Running\<rparr>]"
proof -
  let ?p = "sample_spawned\<lparr>frames := [2 \<mapsto> \<lparr>promise = new_promise, costate = Running\<rparr>]\<rparr>"
  have "bounded ?p"
    by (auto simp: bounded_def sample_spawned_def sample_proc_def initial_proc_def multishot_token_def
        split: if_splits)
  then show ?thesis
    using await_is_a_call [of sample_code 0 0 RStart ?p "Inr 42" "()" 2] sample_eval by fastforce
qed

text \<open>
  C21. Spawning a coroutine and resuming its task once runs its body to the end when the body awaits
  only tasks: resume returns, the environment is the one the direct-style evaluation ends in, the
  root frame is at its final suspension point and holds the value, the scheduled task at the end of
  the list is no longer valid, and nothing else of the process has changed. An exception that leaves
  the root coroutine ends the process.
\<close>

theorem spawned_task_runs:
  assumes "bounded p" and "emplace_back t l p = Inr p1"
    and "eval code t l RStart (env p) r s'"
  shows "case r of
      Inl x \<Rightarrow> ScheduledTask_resume code (t, length (loops p t)) p1 = Some (Inl (Terminated x))
    | Inr v \<Rightarrow> \<exists>p2 f. ScheduledTask_resume code (t, length (loops p t)) p1 = Some (Inr p2) \<and>
        env p2 = s' \<and> objs p2 = objs p \<and> frames p2 = (frames p)(fresh p \<mapsto> f) \<and> ended_with v f \<and>
        loops p2 = (loops p)(t := loops p t @ [\<lparr>sched_task = \<lparr>task_handle = Some (fresh p)\<rparr>,
          awaiting_handle = Some (fresh p), valid = False, pending = False\<rparr>])"
  by (rule run_spawned [OF assms])

lemma spawned_task_runs_witness:
  "\<exists>p2 f. ScheduledTask_resume sample_code (0, 0) sample_spawned = Some (Inr p2) \<and>
     frames p2 2 = Some f \<and> ended_with 42 f \<and> \<not> valid (loops p2 0 ! 0)"
proof -
  have "eval sample_code 0 0 RStart (env sample_proc) (Inr 42) ()"
    using sample_eval by (simp add: sample_proc_def initial_proc_def)
  from spawned_task_runs [OF sample_bounded sample_spawned this]
  show ?thesis by (auto simp: sample_proc_def initial_proc_def multishot_token_def numeral_2_eq_2)
qed

section \<open>The task loop\<close>

text \<open>
  C11. A pass of the task loop of thread t over a well-formed process never reaches undefined
  behaviour of the coroutine layer (no resume of a running, finished or destroyed coroutine, no
  dangling or null pointer, no read of a missing result), as long as the coroutine bodies only make
  new tasks, objects and ring operations. When it returns, the process is well formed again, no task
  has been removed or replaced, and every task of thread t that was waiting or finished, like every
  task of another thread, is exactly as it was, with the frames of its chain.
\<close>

theorem TaskLoop_run_safe:
  assumes "safe_code code" and "well_formed S p" and "TaskLoop_run code t p = Some r"
  shows "case r of
      Inl e \<Rightarrow> \<not> machine_fault e
    | Inr p' \<Rightarrow> \<exists>S'. well_formed S' p' \<and>
        (\<forall>q. in_range p q \<longrightarrow> in_range p' q \<and> sched_task (task_at p' q) = sched_task (task_at p q)) \<and>
        (\<forall>q. in_range p q \<longrightarrow> fst q \<noteq> t \<or> \<not> runnable (task_at p q) \<longrightarrow>
           task_at p' q = task_at p q \<and> S' q = S q \<and> (\<forall>h \<in> set (S q). frames p' h = frames p h))"
proof (cases r)
  case (Inr p')
  have "loop_ok S (idle_from p t 0) p r"
    by (rule TaskLoop_run_from_ok [OF assms(1) assms(3) [unfolded TaskLoop_run_def] assms(2)])
  then obtain S' where S': "well_formed S' p'"
    "\<And>q. in_range p q \<Longrightarrow> in_range p' q \<and> sched_task (task_at p' q) = sched_task (task_at p q)"
    "\<And>q. in_range p q \<Longrightarrow> idle_from p t 0 q \<Longrightarrow> task_at p' q = task_at p q \<and> S' q = S q \<and>
       (\<forall>h \<in> set (S q). frames p' h = frames p h)"
    using Inr by (auto simp: loop_ok_def)
  have "idle_from p t 0 q" if "in_range p q" "fst q \<noteq> t \<or> \<not> runnable (task_at p q)" for q
    using that by (auto simp: idle_from_def)
  with S' show ?thesis unfolding Inr sum.case by blast
next
  case (Inl e)
  then show ?thesis
    using TaskLoop_run_from_ok [OF assms(1) assms(3) [unfolded TaskLoop_run_def] assms(2)]
    by (simp add: loop_ok_def)
qed

lemma sample_run: "\<exists>p. TaskLoop_run sample_code 0 sample_spawned = Some (Inr p)"
proof -
  obtain p where p: "ScheduledTask_resume sample_code (0, 0) sample_spawned = Some (Inr p)"
    and "loops p 0 = [\<lparr>sched_task = \<lparr>task_handle = Some 2\<rparr>, awaiting_handle = Some 2, valid = False,
      pending = False\<rparr>]"
    using run_spawned [OF sample_bounded sample_spawned, of sample_code "Inr 42" "()"]
      sample_eval by (auto simp: sample_proc_def initial_proc_def multishot_token_def)
  then show ?thesis
    by (simp add: TaskLoop_run_def TaskLoop_run_from.simps [of sample_code 0 0]
        TaskLoop_run_from.simps [of sample_code 0 "Suc 0"] runnable_def)
      (simp add: sample_spawned_def)
qed

lemma TaskLoop_run_safe_witness:
  "\<exists>p. TaskLoop_run sample_code 0 sample_spawned = Some (Inr p) \<and> in_range p (0, 0) \<and>
     task_handle (sched_task (task_at p (0, 0))) = Some 2"
proof -
  obtain p where p: "TaskLoop_run sample_code 0 sample_spawned = Some (Inr p)" using sample_run by blast
  from TaskLoop_run_safe [OF sample_safe sample_well_formed p] sample_range(1)
  have "in_range p (0, 0)" "sched_task (task_at p (0, 0)) = sched_task (task_at sample_spawned (0, 0))"
    by auto
  then show ?thesis using p by (auto simp: task_at_def sample_spawned_def)
qed

end
