(* ===== verification/Liburing.thy ===== *)
theory Liburing
  imports Tokens
begin

text \<open>
  The interface to the kernel. liburing is not part of this repository, so its calls are not given a
  meaning here: preparing a submission entry records which \<open>io_uring_prep_*\<close> call the code made
  and with which arguments, the flags the code set and the user data it stored; the calls on a
  provided buffer ring are recorded in order. What the code lets liburing decide is the parameter
  record \<open>liburing\<close>: whether \<open>io_uring_get_sqe\<close> has an entry left, how many entries
  \<open>io_uring_submit\<close> hands over, what becomes of the flags an entry already has when it is
  prepared (versions of liburing differ), the result of \<open>io_uring_queue_init_params\<close> with the
  descriptor of the new ring, and what \<open>io_uring_register_files_sparse\<close>,
  \<open>io_uring_buf_ring_mask\<close> and \<open>io_uring_setup_buf_ring\<close> return.
\<close>

section \<open>Submission and completion entries\<close>

datatype request =
    PrepRead int nat
  | PrepWrite int "8 word list" nat
  | PrepRecv int nat
  | PrepAccept int int
  | PrepAcceptDirect int
  | PrepMultishotAcceptDirect int
  | PrepSocket int int int int
  | PrepSocketDirectAlloc int int int int
  | PrepClose int
  | PrepCloseDirect int
  | PrepTimeout timespec int int
  | PrepCancelAny
  | PrepMsgRing int int address
  | PrepMsgRingCqeFlags int int address u32
  | PrepMsgRingFdAlloc int int address

text \<open>Entry flags, as bits.\<close>

definition IOSQE_FIXED_FILE :: "8 word" where "IOSQE_FIXED_FILE = 1"
definition IOSQE_IO_LINK :: "8 word" where "IOSQE_IO_LINK = 4"
definition IOSQE_BUFFER_SELECT :: "8 word" where "IOSQE_BUFFER_SELECT = 32"
definition IOSQE_CQE_SKIP_SUCCESS :: "8 word" where "IOSQE_CQE_SKIP_SUCCESS = 64"

lemmas iosqe_defs =
  IOSQE_FIXED_FILE_def IOSQE_IO_LINK_def IOSQE_BUFFER_SELECT_def IOSQE_CQE_SKIP_SUCCESS_def

text \<open>
  An entry's user data is \<open>None\<close> where the code does not set it, its request is
  \<open>None\<close> until an \<open>io_uring_prep_*\<close> call fills it in.
\<close>

record sqe =
  sqe_req :: "request option"
  sqe_flags :: "8 word"
  sqe_buf_group :: nat
  sqe_user_data :: "address option"

definition blank_sqe :: sqe where
  "blank_sqe = \<lparr>sqe_req = None, sqe_flags = 0, sqe_buf_group = 0, sqe_user_data = None\<rparr>"

definition or_flags :: "8 word \<Rightarrow> sqe \<Rightarrow> sqe" where
  "or_flags fl s = s\<lparr>sqe_flags := sqe_flags s OR fl\<rparr>"

definition set_data :: "address \<Rightarrow> sqe \<Rightarrow> sqe" where
  "set_data a s = s\<lparr>sqe_user_data := Some a\<rparr>"

text \<open>The parameters of \<open>io_uring_queue_init_params\<close> that the code sets, and its set-up flags.\<close>

record uring_params =
  cq_entries :: nat
  wq_fd :: int
  setup_flags :: u32

definition IORING_SETUP_CQSIZE :: u32 where "IORING_SETUP_CQSIZE = push_bit 3 1"
definition IORING_SETUP_CLAMP :: u32 where "IORING_SETUP_CLAMP = push_bit 4 1"
definition IORING_SETUP_ATTACH_WQ :: u32 where "IORING_SETUP_ATTACH_WQ = push_bit 5 1"
definition IORING_SETUP_COOP_TASKRUN :: u32 where "IORING_SETUP_COOP_TASKRUN = push_bit 8 1"
definition IORING_SETUP_SINGLE_ISSUER :: u32 where "IORING_SETUP_SINGLE_ISSUER = push_bit 12 1"

lemmas setup_flag_defs =
  IORING_SETUP_CQSIZE_def IORING_SETUP_CLAMP_def IORING_SETUP_ATTACH_WQ_def
  IORING_SETUP_COOP_TASKRUN_def IORING_SETUP_SINGLE_ISSUER_def

record cqe =
  cqe_result :: int
  cqe_fl :: u32
  cqe_data :: address

text \<open>The completion flags the library adds for its own messages (\<open>io/uring.hpp\<close>).\<close>

definition NET_IORING_CQE_F_TASK :: u32 where "NET_IORING_CQE_F_TASK = push_bit 4 1"
definition NET_IORING_CQE_F_FD :: u32 where "NET_IORING_CQE_F_FD = push_bit 5 1"

definition IORING_CQE_BUFFER_SHIFT :: nat where "IORING_CQE_BUFFER_SHIFT = 16"

section \<open>Calls on a provided buffer ring\<close>

text \<open>Addresses are offsets into the storage of the buffer object.\<close>

datatype buf_call =
    BufSetup nat
  | BufFree nat
  | BufAdd int nat int nat nat
  | BufAdvance nat

section \<open>What liburing decides\<close>

record liburing =
  lu_queue_init :: "nat \<Rightarrow> uring_params \<Rightarrow> int \<times> int"
  lu_register_files :: "int \<Rightarrow> nat \<Rightarrow> int"
  lu_prep_flags :: "8 word \<Rightarrow> 8 word"
  lu_room :: "sqe list \<Rightarrow> bool"
  lu_taken :: "sqe list \<Rightarrow> nat"
  lu_mask :: "nat \<Rightarrow> nat"
  lu_setup :: "nat \<Rightarrow> int"

text \<open>
  Documented behaviour: an entry is available as long as the submission queue is not full, and a
  submit hands over all queued entries; a buffer ring has a power-of-two number of entries, at most
  32768, and its mask is one less than that number.
\<close>

definition queue_room :: "liburing \<Rightarrow> nat \<Rightarrow> bool" where
  "queue_room L n \<longleftrightarrow> (\<forall>q. length q < n \<longrightarrow> lu_room L q) \<and> (\<forall>q. n \<le> length q \<longrightarrow> \<not> lu_room L q)"

definition fills_entry :: "liburing \<Rightarrow> bool" where
  "fills_entry L \<longleftrightarrow> lu_prep_flags L 0 = 0"

definition submits_all :: "liburing \<Rightarrow> bool" where
  "submits_all L \<longleftrightarrow> (\<forall>q. lu_taken L q = length q)"

definition valid_ring_size :: "nat \<Rightarrow> bool" where
  "valid_ring_size n \<longleftrightarrow> n \<in> set (map (\<lambda>k. 2 ^ k) [0..<16])"

definition documented_buf_ring :: "liburing \<Rightarrow> bool" where
  "documented_buf_ring L \<longleftrightarrow>
     (\<forall>n. lu_setup L n < 0 \<longleftrightarrow> \<not> valid_ring_size n) \<and> (\<forall>n. valid_ring_size n \<longrightarrow> lu_mask L n = n - 1)"

text \<open>A liburing that behaves as documented, with a submission queue of \<open>n\<close> entries.\<close>

definition documented_liburing :: "nat \<Rightarrow> liburing" where
  "documented_liburing n =
     \<lparr>lu_queue_init = (\<lambda>k ps. (0, 3)), lu_register_files = (\<lambda>fd k. 0), lu_prep_flags = (\<lambda>fl. fl),
      lu_room = (\<lambda>q. length q < n), lu_taken = length, lu_mask = (\<lambda>k. k - 1),
      lu_setup = (\<lambda>k. if valid_ring_size k then 0 else - 22)\<rparr>"

lemma documented_liburing:
  "queue_room (documented_liburing n) n" "submits_all (documented_liburing n)"
  "fills_entry (documented_liburing n)" "documented_buf_ring (documented_liburing n)"
  by (simp_all add: documented_liburing_def queue_room_def submits_all_def fills_entry_def
      documented_buf_ring_def)

text \<open>An \<open>io_uring_prep_*\<close> call on an entry.\<close>

definition prep :: "liburing \<Rightarrow> request \<Rightarrow> sqe \<Rightarrow> sqe" where
  "prep L r s = s\<lparr>sqe_req := Some r, sqe_flags := lu_prep_flags L (sqe_flags s)\<rparr>"

lemma valid_ring_size_iff: "valid_ring_size n \<longleftrightarrow> (\<exists>k < 16. n = 2 ^ k)"
  by (auto simp: valid_ring_size_def)

lemma valid_ring_size_le:
  assumes "valid_ring_size n"
  shows "n \<le> 32768"
proof -
  obtain k where k: "k < 16" "n = 2 ^ k" using assms by (auto simp: valid_ring_size_iff)
  then have "(2::nat) ^ k \<le> 2 ^ 15" by (intro power_increasing) simp_all
  then show ?thesis using k by simp
qed

end
