(* ===== verification/Ring_Buffer.thy ===== *)
theory Ring_Buffer
  imports Liburing
begin

text \<open>
  The provided buffers of one ring (\<open>io/buffer.hpp\<close>). The object owns one block of storage that
  is cut into buffers of \<open>BUFFER_RING_SIZE\<close> bytes; buffer \<open>bid\<close> starts at offset
  \<open>bid * BUFFER_RING_SIZE\<close>. The calls made on the kernel's buffer ring are recorded in
  \<open>br_log\<close>; \<open>br_alive\<close> says that the pointer \<open>br_\<close> is not null.
\<close>

type_synonym byte = "8 word"

record ring_buffer =
  buf_count :: nat
  peer_ring :: nat
  br_alive :: bool
  br_mask :: nat
  br_log :: "buf_call list"
  storage :: "byte list"

definition buf_release :: "ring_buffer \<Rightarrow> ring_buffer" where
  "buf_release b =
     (if br_alive b
      then b\<lparr>br_log := br_log b @ [BufFree (N_BUFFERS * buf_count b)], br_alive := False\<rparr>
      else b)"

text \<open>\<open>std::vector::resize\<close>\<close>

definition resize :: "nat \<Rightarrow> byte list \<Rightarrow> byte list" where
  "resize n xs = take n xs @ replicate (n - length xs) 0"

text \<open>The loop that adds the buffers one by one.\<close>

fun add_buffers :: "nat \<Rightarrow> nat \<Rightarrow> nat \<Rightarrow> nat \<Rightarrow> buf_call list" where
  "add_buffers 0 i ptr msk = []"
| "add_buffers (Suc n) i ptr msk =
     BufAdd (int ptr) BUFFER_RING_SIZE (int i) msk i # add_buffers n (Suc i) (ptr + BUFFER_RING_SIZE) msk"

text \<open>
  \<open>extend_buffer\<close> gives the exception it throws, if any, and the object as it leaves it: on an
  error the old buffer ring is gone, the count and the storage have grown, and \<open>br_\<close> is null.
\<close>

definition extend_buffer :: "liburing \<Rightarrow> ring_buffer \<Rightarrow> (exn + unit) \<times> ring_buffer" where
  "extend_buffer L b =
     (let b1 = (if buf_count b \<noteq> 0 then buf_release b else b);
          c = buf_count b1 + 1;
          n = N_BUFFERS * c;
          b2 = b1\<lparr>buf_count := c, br_alive := False, br_mask := lu_mask L n,
                  br_log := br_log b1 @ [BufSetup n],
                  storage := resize (N_BUFFERS * BUFFER_RING_SIZE * c) (storage b1)\<rparr>
      in if lu_setup L n < 0
         then (Inl (RuntimeError ''Buffer extend error.''), b2)
         else (Inr (), b2\<lparr>br_alive := True,
                          br_log := br_log b2 @ add_buffers n 0 0 (br_mask b2) @ [BufAdvance n]\<rparr>))"

definition new_ring_buffer :: "liburing \<Rightarrow> nat \<Rightarrow> ring_buffer res" where
  "new_ring_buffer L ring =
     (case extend_buffer L \<lparr>buf_count = 0, peer_ring = ring, br_alive = False, br_mask = 0, br_log = [],
                            storage = []\<rparr> of
        (Inl e, b) \<Rightarrow> Inl (Throws e)
      | (Inr u, b) \<Rightarrow> Inr b)"

definition buf_dtor :: "ring_buffer \<Rightarrow> ring_buffer" where
  "buf_dtor b = buf_release b"

text \<open>
  \<open>copy_data\<close> appends \<open>bytes\<close> bytes of buffer \<open>bid\<close> to \<open>output\<close>; a range outside the
  storage is undefined behaviour of the iterators.
\<close>

definition copy_data :: "byte list \<Rightarrow> int \<Rightarrow> int \<Rightarrow> ring_buffer \<Rightarrow> byte list res" where
  "copy_data output bid bytes b =
     (let offset = bid * int BUFFER_RING_SIZE in
      if 0 \<le> offset \<and> 0 \<le> bytes \<and> offset + bytes \<le> int (length (storage b))
      then Inr (output @ take (nat bytes) (drop (nat offset) (storage b)))
      else Inl OutOfRange)"

definition repay :: "int \<Rightarrow> ring_buffer \<Rightarrow> ring_buffer res" where
  "repay bid b =
     (if br_alive b
      then Inr (b\<lparr>br_log := br_log b @
                  [BufAdd (bid * int BUFFER_RING_SIZE) BUFFER_RING_SIZE bid (br_mask b) 0, BufAdvance 1]\<rparr>)
      else Inl NullBufferRing)"

section \<open>The layout of the storage\<close>

definition n_buffers :: "ring_buffer \<Rightarrow> nat" where
  "n_buffers b = N_BUFFERS * buf_count b"

definition buf_inv :: "ring_buffer \<Rightarrow> bool" where
  "buf_inv b \<longleftrightarrow> br_alive b \<and> 0 < buf_count b \<and> length (storage b) = n_buffers b * BUFFER_RING_SIZE"

text \<open>The contents of buffer \<open>bid\<close>.\<close>

definition buffer_at :: "ring_buffer \<Rightarrow> nat \<Rightarrow> byte list" where
  "buffer_at b bid = take BUFFER_RING_SIZE (drop (bid * BUFFER_RING_SIZE) (storage b))"

text \<open>What the kernel does when it fills buffer \<open>bid\<close> with received data.\<close>

definition kernel_fill :: "nat \<Rightarrow> byte list \<Rightarrow> ring_buffer \<Rightarrow> ring_buffer" where
  "kernel_fill bid xs b =
     b\<lparr>storage := take (bid * BUFFER_RING_SIZE) (storage b) @ xs @
        drop (bid * BUFFER_RING_SIZE + length xs) (storage b)\<rparr>"

text \<open>The buffers handed to the kernel since the buffer ring was last set up.\<close>

fun provided :: "buf_call list \<Rightarrow> int list" where
  "provided [] = []"
| "provided (BufAdd off len bid msk k # cs) = bid # provided cs"
| "provided (c # cs) = provided cs"

fun since_setup :: "buf_call list \<Rightarrow> buf_call list \<Rightarrow> buf_call list" where
  "since_setup acc [] = acc"
| "since_setup acc (BufSetup n # cs) = since_setup [] cs"
| "since_setup acc (c # cs) = since_setup (acc @ [c]) cs"

definition provided_bids :: "ring_buffer \<Rightarrow> int list" where
  "provided_bids b = provided (since_setup [] (br_log b))"

lemma length_resize [simp]: "length (resize n xs) = n"
  by (simp add: resize_def)

lemma take_resize: "length xs \<le> n \<Longrightarrow> take (length xs) (resize n xs) = xs"
  by (simp add: resize_def)

lemma add_buffers_eq:
  "add_buffers n i ptr msk =
     map (\<lambda>j. BufAdd (int (ptr + j * BUFFER_RING_SIZE)) BUFFER_RING_SIZE (int (i + j)) msk (i + j)) [0..<n]"
proof (induction n arbitrary: i ptr)
  case (Suc n)
  show ?case
    by (simp only: add_buffers.simps map_upt_Suc Suc.IH) (simp add: algebra_simps)
qed simp

lemma provided_append [simp]: "provided (xs @ ys) = provided xs @ provided ys"
  by (induction xs rule: provided.induct) auto

lemma since_setup_append: "since_setup acc (xs @ ys) = since_setup (since_setup acc xs) ys"
  by (induction acc xs rule: since_setup.induct) auto

lemma since_setup_no_setup: "(\<And>n. BufSetup n \<notin> set xs) \<Longrightarrow> since_setup acc xs = acc @ xs"
  by (induction acc xs rule: since_setup.induct) auto

lemma provided_add_buffers: "provided (add_buffers n i ptr msk) = map int [i..<i + n]"
proof (induction n arbitrary: i ptr)
  case (Suc n)
  then show ?case by (simp add: upt_conv_Cons)
qed simp

lemma BufSetup_notin_add_buffers: "BufSetup k \<notin> set (add_buffers n i ptr msk)"
  by (simp add: add_buffers_eq image_iff)

section \<open>Extending\<close>

lemma buf_release_fields [simp]:
  "buf_count (if x then buf_release b else b) = buf_count b"
  "peer_ring (if x then buf_release b else b) = peer_ring b"
  "storage (if x then buf_release b else b) = storage b"
  by (simp_all add: buf_release_def)

lemma extend_buffer_fields:
  "buf_count (snd (extend_buffer L b)) = buf_count b + 1"
  "peer_ring (snd (extend_buffer L b)) = peer_ring b"
  "br_mask (snd (extend_buffer L b)) = lu_mask L (n_buffers (snd (extend_buffer L b)))"
  "storage (snd (extend_buffer L b)) = resize (n_buffers (snd (extend_buffer L b)) * BUFFER_RING_SIZE) (storage b)"
  by (simp_all add: extend_buffer_def Let_def n_buffers_def algebra_simps)

lemma fst_extend_buffer:
  "fst (extend_buffer L b) =
     (if lu_setup L (N_BUFFERS * (buf_count b + 1)) < 0 then Inl (RuntimeError ''Buffer extend error.'') else Inr ())"
  by (simp add: extend_buffer_def Let_def)

lemma extend_buffer_failed:
  assumes "fst (extend_buffer L b) = Inl e"
  shows "\<not> br_alive (snd (extend_buffer L b))"
  using assms by (auto simp: extend_buffer_def Let_def split: if_splits)

lemma extend_buffer_Inr:
  assumes "extend_buffer L b = (Inr (), b')"
  shows "buf_count b' = buf_count b + 1" and "buf_inv b'" and "br_mask b' = lu_mask L (n_buffers b')"
    and "provided_bids b' = map int [0..<n_buffers b']" and "peer_ring b' = peer_ring b"
    and "storage b' = resize (n_buffers b' * BUFFER_RING_SIZE) (storage b)"
proof -
  have b': "b' = snd (extend_buffer L b)" using assms by simp
  show "buf_count b' = buf_count b + 1" "br_mask b' = lu_mask L (n_buffers b')"
    "peer_ring b' = peer_ring b" "storage b' = resize (n_buffers b' * BUFFER_RING_SIZE) (storage b)"
    unfolding b' by (fact extend_buffer_fields)+
  moreover have "br_alive b'" using assms by (auto simp: extend_buffer_def Let_def split: if_splits)
  ultimately show "buf_inv b'" by (simp add: buf_inv_def)
  obtain log where l: "br_log b' = log @ BufSetup (n_buffers b') #
      add_buffers (n_buffers b') 0 0 (lu_mask L (n_buffers b')) @ [BufAdvance (n_buffers b')]"
    using assms by (auto simp: extend_buffer_def Let_def n_buffers_def split: if_splits)
  have "since_setup [] (br_log b') =
      add_buffers (n_buffers b') 0 0 (lu_mask L (n_buffers b')) @ [BufAdvance (n_buffers b')]"
    by (simp add: l since_setup_append since_setup_no_setup BufSetup_notin_add_buffers)
  then show "provided_bids b' = map int [0..<n_buffers b']"
    by (simp add: provided_bids_def provided_add_buffers)
qed

lemma valid_extension_size: "valid_ring_size (N_BUFFERS * k) \<longleftrightarrow> k = 1 \<or> k = 2"
proof
  assume "valid_ring_size (N_BUFFERS * k)"
  then obtain j where j: "j < 16" "2 ^ 14 * k = 2 ^ j"
    by (auto simp: valid_ring_size_iff N_BUFFERS_def)
  have "k \<noteq> 0" using j(2) by (intro notI) simp
  then have "(2::nat) ^ 14 \<le> 2 ^ j" using j(2) by (metis dvd_imp_le dvd_triv_left zero_less_numeral zero_less_power)
  then have "14 \<le> j" using power_le_imp_le_exp [of "2::nat" 14 j] by simp
  then have "j = 14 \<or> j = 15" using j(1) by linarith
  then show "k = 1 \<or> k = 2" using j(2) by auto
next
  assume "k = 1 \<or> k = 2"
  then have "N_BUFFERS * k = 2 ^ 14 \<or> N_BUFFERS * k = 2 ^ 15" by (auto simp: N_BUFFERS_def)
  then show "valid_ring_size (N_BUFFERS * k)"
    unfolding valid_ring_size_iff by (elim disjE) (rule exI [of _ 14], simp, rule exI [of _ 15], simp)
qed

end
