(* ===== verification/Uring.thy ===== *)
theory Uring
  imports Ring_Buffer
begin

text \<open>
  One ring (\<open>io/uring.hpp\<close>): its submission and completion queues as far as the code can see
  them, and the members of the class. \<open>sq\<close> holds the entries that \<open>get_sqe\<close> has handed out
  and no submit has taken yet, \<open>submitted\<close> the entries the kernel has taken, in order, and
  \<open>cq\<close> the completions that have arrived and have not been consumed. A pointer to an entry is its
  position in \<open>sq\<close>, and the null pointer is \<open>None\<close>.
\<close>

record uring =
  ring_fd :: int
  ring_params :: uring_params
  sq :: "sqe list"
  submitted :: "sqe list"
  cq :: "cqe list"
  ring_stopped :: bool
  direct_map :: "int \<rightharpoonup> int"
  awaiting_direct_fd :: "int list"

section \<open>Construction\<close>

definition new_uring :: "int \<Rightarrow> uring_params \<Rightarrow> uring" where
  "new_uring fd ps =
     \<lparr>ring_fd = fd, ring_params = ps, sq = [], submitted = [], cq = [], ring_stopped = False,
      direct_map = Map.empty, awaiting_direct_fd = []\<rparr>"

definition Uring_main_ctor :: "liburing \<Rightarrow> uring res" where
  "Uring_main_ctor L =
     (let ps = \<lparr>cq_entries = URING_MAIN_CQES, wq_fd = 0,
                setup_flags = (IORING_SETUP_SINGLE_ISSUER OR IORING_SETUP_CLAMP)
                  OR IORING_SETUP_COOP_TASKRUN OR IORING_SETUP_CQSIZE\<rparr>;
          (ret, fd) = lu_queue_init L URING_MAIN_SQES ps
      in if ret \<noteq> 0 then Inl (Throws (RuntimeError ''Main io_uring Init Failed''))
         else Inr (new_uring fd ps))"

definition Uring_worker_ctor :: "liburing \<Rightarrow> int \<Rightarrow> uring res" where
  "Uring_worker_ctor L main_uring_fd =
     (let ps = \<lparr>cq_entries = 0, wq_fd = main_uring_fd,
                setup_flags = (IORING_SETUP_SINGLE_ISSUER OR IORING_SETUP_CLAMP)
                  OR IORING_SETUP_COOP_TASKRUN OR IORING_SETUP_ATTACH_WQ\<rparr>;
          (ret, fd) = lu_queue_init L URING_WOKERS_SQES ps
      in if ret \<noteq> 0 then Inl (Throws (RuntimeError ''Worker io_uring Init failed''))
         else Inr (new_uring fd ps))"

definition Uring_fd :: "uring \<Rightarrow> int" where [simp]: "Uring_fd u = ring_fd u"

section \<open>The submission queue\<close>

definition get_sqe :: "liburing \<Rightarrow> uring \<Rightarrow> nat option \<times> uring" where
  "get_sqe L u =
     (if lu_room L (sq u) then (Some (length (sq u)), u\<lparr>sq := sq u @ [blank_sqe]\<rparr>) else (None, u))"

text \<open>A write through the pointer that \<open>get_sqe\<close> returned.\<close>

definition at_sqe :: "nat option \<Rightarrow> (sqe \<Rightarrow> sqe) \<Rightarrow> uring \<Rightarrow> uring res" where
  "at_sqe i f u = (case i of None \<Rightarrow> Inl NullSqe | Some n \<Rightarrow> Inr (u\<lparr>sq := (sq u)[n := f (sq u ! n)]\<rparr>))"

definition submit_all :: "liburing \<Rightarrow> uring \<Rightarrow> uring" where
  "submit_all L u =
     (let n = lu_taken L (sq u)
      in u\<lparr>sq := drop n (sq u), submitted := submitted u @ take n (sq u)\<rparr>)"

definition close_direct_socket :: "liburing \<Rightarrow> int \<Rightarrow> uring \<Rightarrow> uring res" where
  "close_direct_socket L fd u =
     (let (i, u1) = get_sqe L u in
      bind_res (at_sqe i (prep L (PrepCloseDirect fd)) u1) (\<lambda>u2.
      bind_res (at_sqe i (or_flags IOSQE_CQE_SKIP_SUCCESS) u2) (\<lambda>u3.
      Inr (submit_all L u3))))"

section \<open>The completion queue\<close>

text \<open>Completions arrive at the end of the queue.\<close>

definition arrive :: "cqe list \<Rightarrow> uring \<Rightarrow> uring" where
  "arrive cs u = u\<lparr>cq := cq u @ cs\<rparr>"

definition consume :: "nat \<Rightarrow> uring \<Rightarrow> uring" where
  "consume n u = u\<lparr>cq := drop n (cq u)\<rparr>"

definition consume_all :: "uring \<Rightarrow> uring" where
  "consume_all u = consume (length (cq u)) u"

text \<open>\<open>direct_map_[k]\<close> reads 0 where there is no entry.\<close>

definition direct_map_index :: "int \<Rightarrow> uring \<Rightarrow> int" where
  "direct_map_index k u = (case direct_map u k of None \<Rightarrow> 0 | Some v \<Rightarrow> v)"

section \<open>What an operation leaves in the queues\<close>

lemma get_sqe_room:
  assumes "lu_room L (sq u)"
  shows "get_sqe L u = (Some (length (sq u)), u\<lparr>sq := sq u @ [blank_sqe]\<rparr>)"
  using assms by (simp add: get_sqe_def)

lemma get_sqe_full: "\<not> lu_room L (sq u) \<Longrightarrow> get_sqe L u = (None, u)"
  by (simp add: get_sqe_def)

lemma at_sqe_None [simp]: "at_sqe None f u = Inl NullSqe"
  by (simp add: at_sqe_def)

lemma at_sqe_Some [simp]: "at_sqe (Some n) f u = Inr (u\<lparr>sq := (sq u)[n := f (sq u ! n)]\<rparr>)"
  by (simp add: at_sqe_def)

lemma submit_all_all: "submits_all L \<Longrightarrow> submit_all L u = u\<lparr>sq := [], submitted := submitted u @ sq u\<rparr>"
  by (simp add: submit_all_def submits_all_def)

lemma uring_sq_sq [simp]: "u\<lparr>sq := a, submitted := s, sq := b\<rparr> = u\<lparr>sq := b, submitted := s\<rparr>"
  by simp

text \<open>The entry an \<open>io_uring_prep_*\<close> call followed by setting flags leaves.\<close>

definition entry :: "request \<Rightarrow> 8 word \<Rightarrow> address option \<Rightarrow> sqe" where
  "entry r fl d = \<lparr>sqe_req = Some r, sqe_flags = fl, sqe_buf_group = 0, sqe_user_data = d\<rparr>"

lemma prep_blank [simp]: "fills_entry L \<Longrightarrow> prep L r blank_sqe = entry r 0 None"
  by (simp add: prep_def blank_sqe_def entry_def fills_entry_def)

lemma or_flags_entry [simp]: "or_flags f (entry r g d) = entry r (g OR f) d"
  by (simp add: or_flags_def entry_def)

lemma set_data_entry [simp]: "set_data a (entry r g d) = entry r g (Some a)"
  by (simp add: set_data_def entry_def)

lemma close_direct_socket_ok:
  assumes "lu_room L (sq u)" "fills_entry L" "submits_all L"
  shows "close_direct_socket L fd u =
    Inr (u\<lparr>sq := [], submitted := submitted u @ sq u @ [entry (PrepCloseDirect fd) IOSQE_CQE_SKIP_SUCCESS None]\<rparr>)"
  using assms by (simp add: close_direct_socket_def get_sqe_room submit_all_all)

lemma close_direct_socket_full: "\<not> lu_room L (sq u) \<Longrightarrow> close_direct_socket L fd u = Inl NullSqe"
  by (simp add: close_direct_socket_def get_sqe_full)

end
