(* ===== verification/Ip_Addr.thy ===== *)
theory Ip_Addr
  imports Prelude
begin

text \<open>
  Addresses (\<open>net/ip_addr.hpp\<close>). The conversions of the C library are the parameter record
  \<open>inet\<close>: a presentation-to-network conversion yields its return value and what it wrote
  (nothing unless the text is an address); a network-to-presentation conversion yields the text or
  fails. The union of the two socket addresses is a datatype that says which member was last
  constructed; reading the other one is a fault. A scalar that the code leaves uninitialised is
  \<open>None\<close>, or an explicit argument \<open>junk\<close> where its value is used.
\<close>

type_synonym in_addr = u32
type_synonym in6_addr = "128 word"

record sockaddr_in =
  sin_family :: nat
  sin_addr :: in_addr
  sin_port :: u16

record sockaddr_in6 =
  sin6_family :: nat
  sin6_addr :: in6_addr
  sin6_port :: u16

datatype addr_union =
    NoMember
  | MemberV4 sockaddr_in
  | MemberV6 sockaddr_in6

record inet =
  htons :: "u16 \<Rightarrow> u16"
  ntohs :: "u16 \<Rightarrow> u16"
  ntohl :: "u32 \<Rightarrow> u32"
  pton4 :: "string \<Rightarrow> int \<times> in_addr option"
  pton6 :: "string \<Rightarrow> int \<times> in6_addr option"
  ntop4 :: "in_addr \<Rightarrow> string option"
  ntop6 :: "in6_addr \<Rightarrow> string option"
  getpeername :: "int \<Rightarrow> addr_union \<times> nat option \<Rightarrow> addr_union \<times> nat option"

definition AF_INET :: nat where "AF_INET = 2"
definition AF_INET6 :: nat where "AF_INET6 = 10"
definition sizeof_sockaddr_in :: nat where "sizeof_sockaddr_in = 16"
definition sizeof_sockaddr_in6 :: nat where "sizeof_sockaddr_in6 = 28"

section \<open>IPv4 and IPv6 addresses\<close>

record Ipv4Addr = ip4 :: in_addr
record Ipv6Addr = ip6 :: in6_addr

definition Ipv4_ctor :: "in_addr \<Rightarrow> Ipv4Addr" where
  "Ipv4_ctor v4 = \<lparr>ip4 = v4\<rparr>"

definition to_u32_network :: "Ipv4Addr \<Rightarrow> u32" where
  "to_u32_network a = ip4 a"

definition to_u32_host :: "inet \<Rightarrow> Ipv4Addr \<Rightarrow> u32" where
  "to_u32_host I a = ntohl I (ip4 a)"

definition Ipv4_to_string :: "inet \<Rightarrow> Ipv4Addr \<Rightarrow> string res" where
  "Ipv4_to_string I a =
     (case ntop4 I (ip4 a) of
        None \<Rightarrow> Inl (Throws (RuntimeError ''Ip address(v4) to string failed.''))
      | Some s \<Rightarrow> Inr s)"

definition Ipv4_parse :: "inet \<Rightarrow> in_addr \<Rightarrow> string \<Rightarrow> Ipv4Addr res" where
  "Ipv4_parse I junk v4 =
     (let (ret, written) = pton4 I v4;
          addr = (case written of None \<Rightarrow> junk | Some a \<Rightarrow> a)
      in if ret = - 1 then Inl (Throws (RuntimeError ''IP address(v4) parse failed.''))
         else Inr (Ipv4_ctor addr))"

definition Ipv6_ctor :: "in6_addr \<Rightarrow> Ipv6Addr" where
  "Ipv6_ctor v6 = \<lparr>ip6 = v6\<rparr>"

definition Ipv6_to_string :: "inet \<Rightarrow> Ipv6Addr \<Rightarrow> string res" where
  "Ipv6_to_string I a =
     (case ntop6 I (ip6 a) of
        None \<Rightarrow> Inl (Throws (RuntimeError ''Ip address(v6) to string failed.''))
      | Some s \<Rightarrow> Inr s)"

definition Ipv6_parse :: "inet \<Rightarrow> in6_addr \<Rightarrow> string \<Rightarrow> Ipv6Addr res" where
  "Ipv6_parse I junk v6 =
     (let (ret, written) = pton6 I v6;
          addr = (case written of None \<Rightarrow> junk | Some a \<Rightarrow> a)
      in if ret = - 1 then Inl (Throws (RuntimeError ''IP address(v6) parse failed.''))
         else Inr (Ipv6_ctor addr))"

section \<open>Socket addresses\<close>

record SocketAddr =
  is_v4 :: bool
  addr_member :: addr_union
  addr_len :: "nat option"

definition SocketAddr_default :: SocketAddr where
  "SocketAddr_default = \<lparr>is_v4 = False, addr_member = NoMember, addr_len = None\<rparr>"

definition SocketAddr_of_fd :: "inet \<Rightarrow> int \<Rightarrow> bool \<Rightarrow> SocketAddr" where
  "SocketAddr_of_fd I fd v4 =
     (let zero = (if v4 then MemberV4 \<lparr>sin_family = 0, sin_addr = 0, sin_port = 0\<rparr>
                  else MemberV6 \<lparr>sin6_family = 0, sin6_addr = 0, sin6_port = 0\<rparr>);
          (m, l) = getpeername I fd (zero, None)
      in \<lparr>is_v4 = v4, addr_member = m, addr_len = l\<rparr>)"

definition SocketAddr_v4 :: "inet \<Rightarrow> Ipv4Addr \<Rightarrow> u16 \<Rightarrow> SocketAddr" where
  "SocketAddr_v4 I ipv4 p =
     \<lparr>is_v4 = True,
      addr_member = MemberV4 \<lparr>sin_family = AF_INET, sin_addr = ip4 ipv4, sin_port = htons I p\<rparr>,
      addr_len = Some sizeof_sockaddr_in\<rparr>"

definition SocketAddr_v6 :: "inet \<Rightarrow> Ipv6Addr \<Rightarrow> u16 \<Rightarrow> SocketAddr" where
  "SocketAddr_v6 I ipv6 p =
     \<lparr>is_v4 = False,
      addr_member = MemberV6 \<lparr>sin6_family = AF_INET6, sin6_addr = ip6 ipv6, sin6_port = htons I p\<rparr>,
      addr_len = Some sizeof_sockaddr_in6\<rparr>"

definition is_ipv4 :: "SocketAddr \<Rightarrow> bool" where
  "is_ipv4 a = is_v4 a"

definition is_ipv6 :: "SocketAddr \<Rightarrow> bool" where
  "is_ipv6 a = (\<not> is_v4 a)"

definition sockaddr_v4 :: "SocketAddr \<Rightarrow> sockaddr_in res" where
  "sockaddr_v4 a = (case addr_member a of MemberV4 m \<Rightarrow> Inr m | _ \<Rightarrow> Inl WrongUnionMember)"

definition sockaddr_v6 :: "SocketAddr \<Rightarrow> sockaddr_in6 res" where
  "sockaddr_v6 a = (case addr_member a of MemberV6 m \<Rightarrow> Inr m | _ \<Rightarrow> Inl WrongUnionMember)"

text \<open>Decimal digits, as \<open>std::format\<close> prints an unsigned number.\<close>

fun decimal :: "nat \<Rightarrow> string" where
  "decimal n =
     (if n < 10 then [char_of (48 + n)] else decimal (n div 10) @ [char_of (48 + n mod 10)])"

declare decimal.simps [simp del]

definition SocketAddr_len :: "SocketAddr \<Rightarrow> nat option" where [simp]: "SocketAddr_len a = addr_len a"

definition SocketAddr_to_string :: "inet \<Rightarrow> SocketAddr \<Rightarrow> string res" where
  "SocketAddr_to_string I a =
     (if is_ipv4 a
      then bind_res (sockaddr_v4 a) (\<lambda>m.
           let buf = (case ntop4 I (sin_addr m) of None \<Rightarrow> '''' | Some s \<Rightarrow> s)
           in Inr (buf @ '':'' @ decimal (unat (ntohs I (sin_port m)))))
      else bind_res (sockaddr_v6 a) (\<lambda>m.
           let buf = (case ntop6 I (sin6_addr m) of None \<Rightarrow> '''' | Some s \<Rightarrow> s)
           in Inr (buf @ '':'' @ decimal (unat (ntohs I (sin6_port m))))))"

definition port :: "inet \<Rightarrow> SocketAddr \<Rightarrow> u16 res" where
  "port I a =
     (if is_ipv4 a then bind_res (sockaddr_v4 a) (\<lambda>m. Inr (ntohs I (sin_port m)))
      else bind_res (sockaddr_v6 a) (\<lambda>m. Inr (ntohs I (sin6_port m))))"

definition nport :: "SocketAddr \<Rightarrow> u16 res" where
  "nport a =
     (if is_ipv4 a then bind_res (sockaddr_v4 a) (\<lambda>m. Inr (sin_port m))
      else bind_res (sockaddr_v6 a) (\<lambda>m. Inr (sin6_port m)))"

definition make_addr_v4 :: "inet \<Rightarrow> in_addr \<Rightarrow> string \<Rightarrow> u16 \<Rightarrow> SocketAddr res" where
  "make_addr_v4 I junk ip p = bind_res (Ipv4_parse I junk ip) (\<lambda>a. Inr (SocketAddr_v4 I a p))"

definition make_addr_v6 :: "inet \<Rightarrow> in6_addr \<Rightarrow> string \<Rightarrow> u16 \<Rightarrow> SocketAddr res" where
  "make_addr_v6 I junk ip p = bind_res (Ipv6_parse I junk ip) (\<lambda>a. Inr (SocketAddr_v6 I a p))"

section \<open>Documented behaviour of the conversions\<close>

text \<open>
  \<open>ntohs\<close> undoes \<open>htons\<close>; a conversion from text returns 1 and writes the address when the
  text is one and otherwise returns 0 and writes nothing (-1 is for an unknown address family, which
  this code never passes); a conversion to text prints an address as a text that reads back as it.
\<close>

definition documented_inet :: "inet \<Rightarrow> bool" where
  "documented_inet I \<longleftrightarrow>
     (\<forall>w. ntohs I (htons I w) = w) \<and>
     (\<forall>s. pton4 I s = (0, None) \<or> (\<exists>a. pton4 I s = (1, Some a))) \<and>
     (\<forall>s. pton6 I s = (0, None) \<or> (\<exists>a. pton6 I s = (1, Some a))) \<and>
     (\<forall>a. \<exists>s. ntop4 I a = Some s \<and> pton4 I s = (1, Some a)) \<and>
     (\<forall>a. \<exists>s. ntop6 I a = Some s \<and> pton6 I s = (1, Some a))"

text \<open>
  The little-endian byte swap and, for the witnesses, a text form that is just the number in decimal.
\<close>

definition swap16 :: "u16 \<Rightarrow> u16" where
  "swap16 w = word_of_int (uint w mod 256 * 256 + uint w div 256)"

definition swap32 :: "u32 \<Rightarrow> u32" where
  "swap32 w =
     (let u = uint w
      in word_of_int (u mod 256 * 16777216 + u div 256 mod 256 * 65536
                      + u div 65536 mod 256 * 256 + u div 16777216))"

fun undecimal :: "nat \<Rightarrow> string \<Rightarrow> nat" where
  "undecimal acc [] = acc"
| "undecimal acc (c # cs) = undecimal (acc * 10 + (of_char c - 48)) cs"

definition read_word :: "string \<Rightarrow> int \<times> ('a::len word) option" where
  "read_word s =
     (let w = of_nat (undecimal 0 s) in if decimal (unat w) = s then (1, Some w) else (0, None))"

definition little_endian_inet :: inet where
  "little_endian_inet =
     \<lparr>htons = swap16, ntohs = swap16, ntohl = swap32, pton4 = read_word, pton6 = read_word,
      ntop4 = (\<lambda>a. Some (decimal (unat a))), ntop6 = (\<lambda>a. Some (decimal (unat a))),
      getpeername = (\<lambda>fd ml. ml)\<rparr>"

lemma undecimal_append: "undecimal acc (xs @ ys) = undecimal (undecimal acc xs) ys"
  by (induction acc xs rule: undecimal.induct) auto

lemma undecimal_decimal: "undecimal 0 (decimal n) = n"
proof (induction n rule: decimal.induct)
  case (1 n)
  then show ?case by (subst decimal.simps) (auto simp: undecimal_append of_char_of)
qed

lemma decimal_digit: "c \<in> set (decimal n) \<Longrightarrow> 48 \<le> (of_char c :: nat) \<and> (of_char c :: nat) \<le> 57"
proof (induction n rule: decimal.induct)
  case (1 n)
  show ?case
  proof (cases "n < 10")
    case True
    then show ?thesis using 1 by (simp add: decimal.simps [of n] of_char_of)
  next
    case False
    then have "c \<in> set (decimal (n div 10)) \<or> c = char_of (48 + n mod 10)"
      using 1(2) by (auto simp: decimal.simps [of n])
    moreover have "48 + n mod 10 \<le> 57" by simp
    ultimately show ?thesis using 1(1) [OF False] by (auto simp: of_char_of)
  qed
qed

lemma decimal_inject [simp]: "decimal m = decimal n \<longleftrightarrow> m = n"
  using undecimal_decimal by metis

lemma read_word_decimal: "read_word (decimal (unat w)) = (1, Some w)"
  by (simp add: read_word_def undecimal_decimal)

lemma swap16_swap16: "swap16 (swap16 w) = w"
proof -
  have u: "0 \<le> uint w" "uint w < 65536" using uint_lt2p [of w] by simp_all
  let ?u = "uint w"
  have "?u mod 256 * 256 + ?u div 256 < 65536" using u by linarith
  then have "uint (swap16 w) = ?u mod 256 * 256 + ?u div 256"
    using u unfolding swap16_def uint_word_of_int by (intro mod_pos_pos_trivial add_nonneg_nonneg mult_nonneg_nonneg)
        (simp_all add: pos_imp_zdiv_nonneg_iff)
  moreover have "(?u mod 256 * 256 + ?u div 256) mod 256 = ?u div 256"
    and "(?u mod 256 * 256 + ?u div 256) div 256 = ?u mod 256"
    using u by (simp_all add: pos_imp_zdiv_nonneg_iff div_add1_eq)
  ultimately show ?thesis by (simp add: swap16_def [of "swap16 w"])
qed

lemma documented_little_endian_inet: "documented_inet little_endian_inet"
  by (auto simp: documented_inet_def little_endian_inet_def swap16_swap16 read_word_decimal)
     (auto simp: read_word_def Let_def)

section \<open>Lemmas\<close>

lemmas socket_addr_defs = port_def nport_def is_ipv4_def is_ipv6_def sockaddr_v4_def sockaddr_v6_def
  SocketAddr_v4_def SocketAddr_v6_def

lemma member_agrees_v4: "make_addr_v4 I junk ip p = Inr a \<Longrightarrow> is_ipv4 a \<and> (\<exists>m. addr_member a = MemberV4 m)"
  by (auto simp: make_addr_v4_def socket_addr_defs bind_res_eq_Inr)

lemma member_agrees_v6: "make_addr_v6 I junk ip p = Inr a \<Longrightarrow> is_ipv6 a \<and> (\<exists>m. addr_member a = MemberV6 m)"
  by (auto simp: make_addr_v6_def socket_addr_defs bind_res_eq_Inr)

end
