(* ===== verification/Ownership.thy ===== *)
theory Ownership
  imports Main "HOL-Library.Multiset"
begin

text \<open>
  Objects that own a handle and can be moved but not copied: tasks, sockets and connections. The
  interface says what a move constructor does with the handle and which handles an object holds, which
  are the ones its destructor gives back. The client is a program that moves such objects around:
  whatever it moves, every handle is held by exactly one object, so destroying them all gives back
  every handle exactly once.
\<close>

locale owner =
  fixes move :: "'o \<Rightarrow> 'o \<times> 'o" and held :: "'o \<Rightarrow> 'h list"
  assumes move_held: "held (fst (move x)) = held x"
    and moved_from_held: "held (snd (move x)) = []"
begin

text \<open>A program that repeatedly move-constructs a new object from the one at a position.\<close>

fun moves :: "nat list \<Rightarrow> 'o list \<Rightarrow> 'o list" where
  "moves [] xs = xs"
| "moves (i # is) xs =
     moves is (if i < length xs then (xs[i := snd (move (xs ! i))]) @ [fst (move (xs ! i))] else xs)"

definition all_held :: "'o list \<Rightarrow> 'h multiset" where
  "all_held xs = sum_list (map (\<lambda>x. mset (held x)) xs)"

lemma all_held_update:
  "i < length xs \<Longrightarrow> all_held (xs[i := y]) + mset (held (xs ! i)) = all_held xs + mset (held y)"
proof (induction xs arbitrary: i)
  case (Cons x xs)
  then show ?case by (cases i) (auto simp: all_held_def ac_simps)
qed simp

lemma moves_all_held: "all_held (moves is xs) = all_held xs"
proof (induction "is" xs rule: moves.induct)
  case (2 i "is" xs)
  show ?case
  proof (cases "i < length xs")
    case True
    then have "all_held (xs[i := snd (move (xs ! i))]) + mset (held (xs ! i)) = all_held xs"
      using all_held_update [OF True, of "snd (move (xs ! i))"] by (simp add: moved_from_held)
    then show ?thesis using 2 True by (simp add: all_held_def move_held)
  qed (use 2 in simp)
qed simp

text \<open>Destroying all objects after any moves gives back what the objects held at the start.\<close>

lemma destroy_all_once: "mset (concat (map held (moves is xs))) = mset (concat (map held xs))"
  using moves_all_held [of "is" xs] by (simp add: all_held_def mset_concat comp_def)

lemma no_double_release:
  "distinct (concat (map held xs)) \<Longrightarrow> distinct (concat (map held (moves is xs)))"
  using destroy_all_once mset_eq_imp_distinct_iff by blast

end

end
