(* ===== verification/Net_Socket.thy ===== *)
theory Net_Socket
  imports Ip_Addr Ownership
begin

text \<open>
  The socket class (\<open>net/socket.hpp\<close>) and the parts of \<open>net/tcp/listener.hpp\<close> that call the
  operating system directly. The calls are recorded in a log, in order; what they return is the
  parameter record \<open>libc\<close>, which extends the address conversions of Ip_Addr.
\<close>

section \<open>System calls\<close>

datatype posix_call =
    PosixClose int
  | PosixGetFl int
  | PosixSetFl int i32
  | PosixSetsockopt int int i32 i32
  | PosixBind int addr_union "nat option"
  | PosixListen int int

record libc = inet +
  lc_getfl :: "int \<Rightarrow> i32"
  lc_setfl :: "int \<Rightarrow> i32 \<Rightarrow> int"
  lc_setsockopt :: "int \<Rightarrow> int \<Rightarrow> i32 \<Rightarrow> i32 \<Rightarrow> int"

definition O_NONBLOCK :: i32 where "O_NONBLOCK = 0x800"
definition SOL_SOCKET :: int where "SOL_SOCKET = 1"
definition SO_REUSEADDR :: i32 where "SO_REUSEADDR = 2"
definition SO_REUSEPORT :: i32 where "SO_REUSEPORT = 15"

type_synonym posix_log = "posix_call list"

section \<open>Socket\<close>

record Socket =
  socket_fd :: int
  socket_addr :: SocketAddr

definition set_nonblock :: "libc \<Rightarrow> bool \<Rightarrow> Socket \<Rightarrow> posix_log \<Rightarrow> posix_log res" where
  "set_nonblock C on s lg =
     (let flags = lc_getfl C (socket_fd s);
          flags' = (if on then flags OR O_NONBLOCK else flags AND (NOT O_NONBLOCK))
      in if lc_setfl C (socket_fd s) flags' = - 1
         then Inl (Throws (RuntimeError
           (''Set socket non-block failed.'' @ [CHR 10] @ ''Note: Direct Socket Cannot Set Nonblock'')))
         else Inr (lg @ [PosixGetFl (socket_fd s), PosixSetFl (socket_fd s) flags']))"

definition set_reuse :: "libc \<Rightarrow> bool \<Rightarrow> Socket \<Rightarrow> posix_log \<Rightarrow> posix_log res" where
  "set_reuse C on s lg =
     (let optval = (if on then 1 else 0)
      in if lc_setsockopt C (socket_fd s) SOL_SOCKET (SO_REUSEADDR OR SO_REUSEPORT) optval = - 1
         then Inl (Throws (RuntimeError
           (''Set socket resuable failed.'' @ [CHR 10] @ ''Note: Direct Socket Cannot Set Reuse'')))
         else Inr (lg @ [PosixSetsockopt (socket_fd s) SOL_SOCKET (SO_REUSEADDR OR SO_REUSEPORT) optval]))"

definition Socket_ctor :: "libc \<Rightarrow> int \<Rightarrow> SocketAddr \<Rightarrow> posix_log \<Rightarrow> (Socket \<times> posix_log) res" where
  "Socket_ctor C fd addr lg =
     (let s = \<lparr>socket_fd = fd, socket_addr = addr\<rparr>
      in bind_res (set_reuse C True s lg) (\<lambda>lg'. Inr (s, lg')))"

definition Socket_ctor_fd :: "libc \<Rightarrow> int \<Rightarrow> bool \<Rightarrow> Socket" where
  "Socket_ctor_fd C fd v4 = \<lparr>socket_fd = fd, socket_addr = SocketAddr_of_fd (inet.truncate C) fd v4\<rparr>"

definition Socket_move_ctor :: "Socket \<Rightarrow> Socket \<times> Socket" where
  "Socket_move_ctor rhs = (\<lparr>socket_fd = socket_fd rhs, socket_addr = socket_addr rhs\<rparr>, rhs\<lparr>socket_fd := - 1\<rparr>)"

definition Socket_move_assign :: "Socket \<Rightarrow> Socket \<Rightarrow> Socket \<times> Socket" where
  "Socket_move_assign self rhs =
     (self\<lparr>socket_fd := socket_fd rhs, socket_addr := socket_addr rhs\<rparr>, rhs\<lparr>socket_fd := - 1\<rparr>)"

definition Socket_dtor :: "Socket \<Rightarrow> posix_log \<Rightarrow> posix_log" where
  "Socket_dtor s lg = (if - 1 < socket_fd s then lg @ [PosixClose (socket_fd s)] else lg)"

definition socket_address :: "Socket \<Rightarrow> addr_union res" where
  "socket_address s =
     (if is_ipv4 (socket_addr s) then bind_res (sockaddr_v4 (socket_addr s)) (\<lambda>m. Inr (MemberV4 m))
      else bind_res (sockaddr_v6 (socket_addr s)) (\<lambda>m. Inr (MemberV6 m)))"

text \<open>The accessors.\<close>

definition Socket_fd :: "Socket \<Rightarrow> int" where [simp]: "Socket_fd s = socket_fd s"

definition Socket_len :: "Socket \<Rightarrow> nat option" where [simp]: "Socket_len s = SocketAddr_len (socket_addr s)"

definition Socket_to_string :: "inet \<Rightarrow> Socket \<Rightarrow> string res" where [simp]:
  "Socket_to_string I s = SocketAddr_to_string I (socket_addr s)"

definition Socket_is_ipv4 :: "Socket \<Rightarrow> bool" where [simp]: "Socket_is_ipv4 s \<longleftrightarrow> is_ipv4 (socket_addr s)"

definition Socket_is_valid :: "Socket \<Rightarrow> bool" where
  "Socket_is_valid s \<longleftrightarrow> socket_fd s \<noteq> - 1"

definition Socket_is_ipv6 :: "Socket \<Rightarrow> bool" where
  "Socket_is_ipv6 s \<longleftrightarrow> \<not> is_ipv4 (socket_addr s)"

section \<open>Listeners\<close>

text \<open>
  A listener holds a socket, which it is constructed and moved with; the map of connections that the
  class declares is never used.
\<close>

type_synonym TcpListener = Socket

definition TcpListener_ctor :: "Socket \<Rightarrow> TcpListener \<times> Socket" where [simp]:
  "TcpListener_ctor socket = Socket_move_ctor socket"

definition TcpListener_move_ctor :: "TcpListener \<Rightarrow> TcpListener \<times> TcpListener" where
  "TcpListener_move_ctor rhs = Socket_move_ctor rhs"

definition TcpListener_move_assign :: "TcpListener \<Rightarrow> TcpListener \<Rightarrow> TcpListener \<times> TcpListener" where
  "TcpListener_move_assign self rhs = Socket_move_assign self rhs"

definition listen_fd :: "TcpListener \<Rightarrow> int" where [simp]: "listen_fd l = Socket_fd l"

text \<open>The results of \<open>bind\<close> and \<open>listen\<close> are not looked at.\<close>

definition listener_bind :: "Socket \<Rightarrow> posix_log \<Rightarrow> posix_log res" where
  "listener_bind s lg =
     bind_res (socket_address s) (\<lambda>a. Inr (lg @ [PosixBind (Socket_fd s) a (Socket_len s)]))"

definition listener_listen :: "int \<Rightarrow> Socket \<Rightarrow> posix_log \<Rightarrow> posix_log" where
  "listener_listen backlog s lg = lg @ [PosixListen (Socket_fd s) backlog]"

section \<open>Ownership of the descriptor\<close>

definition socket_held :: "Socket \<Rightarrow> int list" where
  "socket_held s = (if - 1 < socket_fd s then [socket_fd s] else [])"

lemma Socket_dtor_closes: "Socket_dtor s lg = lg @ map PosixClose (socket_held s)"
  by (simp add: Socket_dtor_def socket_held_def)

interpretation sock: owner Socket_move_ctor socket_held
  by unfold_locales (simp_all add: Socket_move_ctor_def socket_held_def)

interpretation listener: owner TcpListener_move_ctor socket_held
  by unfold_locales (simp_all add: TcpListener_move_ctor_def sock.move_held sock.moved_from_held)

text \<open>Move assignment overwrites the descriptor that the target held without closing it.\<close>

lemma Socket_move_assign_held:
  "socket_held (fst (Socket_move_assign self rhs)) = socket_held rhs"
  "socket_held (snd (Socket_move_assign self rhs)) = []"
  "TcpListener_move_assign self rhs = Socket_move_assign self rhs"
  by (simp_all add: Socket_move_assign_def TcpListener_move_assign_def socket_held_def)

end
