(* ===== verification/World.thy ===== *)
theory World
  imports Uring Net_Socket Task_Loop
begin

text \<open>
  The state of the whole program. Thread 0 is the main thread; \<open>rings t\<close> and \<open>buffers t\<close> are
  the \<open>Uring\<close> and the \<open>RingBuffer\<close> of thread \<open>t\<close>, what \<open>this_ctx\<close> points to there
  (\<open>context/this_ctx.hpp\<close>), and \<open>sys_ctx::sys_uring_loop\<close> is \<open>rings 0\<close>. The task loop that
  \<open>peer_task_loop_\<close> of ring \<open>t\<close> points to is the task list of thread \<open>t\<close>, which the
  coroutine layer keeps. The other members are those of \<open>SystemLoop\<close> and \<open>Workers\<close>.

  Connections are objects with an address, since member coroutines refer to them through \<open>this\<close>.
\<close>

section \<open>Connections\<close>

record tcp_connection =
  conn_socket :: int
  direct_fd_in_sys_ring :: int
  direct_fd_in_this_ring :: int
  ownership_in_sys_ring :: bool
  send_buffer :: "byte list"
  receive_buffer :: "byte list"

section \<open>The environment of the coroutine layer\<close>

record sys_env =
  rings :: "nat \<Rightarrow> uring"
  buffers :: "nat \<Rightarrow> ring_buffer"
  conns :: "address \<rightharpoonup> tcp_connection"
  uring_fds :: "int list"
  current_worker_uring_idx :: int
  sys_stopped :: bool
  stop_requested :: "nat \<Rightarrow> bool"
  posix :: posix_log

type_synonym ('l, 'v, 'f) world = "('l, 'v, 'f, sys_env) proc"

definition main_thread :: nat where "main_thread = 0"

definition sys_ring_fd :: "sys_env \<Rightarrow> int" where
  "sys_ring_fd s = ring_fd (rings s main_thread)"

definition upd_ring :: "nat \<Rightarrow> (uring \<Rightarrow> uring res) \<Rightarrow> sys_env \<Rightarrow> sys_env res" where
  "upd_ring t f s = bind_res (f (rings s t)) (\<lambda>u. Inr (s\<lparr>rings := (rings s)(t := u)\<rparr>))"

definition upd_buffer :: "nat \<Rightarrow> (ring_buffer \<Rightarrow> ring_buffer res) \<Rightarrow> sys_env \<Rightarrow> sys_env res" where
  "upd_buffer t f s = bind_res (f (buffers s t)) (\<lambda>b. Inr (s\<lparr>buffers := (buffers s)(t := b)\<rparr>))"

definition on_env :: "(sys_env \<Rightarrow> sys_env res) \<Rightarrow> ('l, 'v, 'f) world \<Rightarrow> ('l, 'v, 'f) world res" where
  "on_env f p = bind_res (f (env p)) (\<lambda>s. Inr (p\<lparr>env := s\<rparr>))"

definition on_ring :: "nat \<Rightarrow> (uring \<Rightarrow> uring res) \<Rightarrow> ('l, 'v, 'f) world \<Rightarrow> ('l, 'v, 'f) world res" where
  "on_ring t f p = on_env (upd_ring t f) p"

definition ring_at :: "('l, 'v, 'f) world \<Rightarrow> nat \<Rightarrow> uring" where
  "ring_at p t = rings (env p) t"

lemma upd_ring_Inr: "f (rings s t) = Inr u \<Longrightarrow> upd_ring t f s = Inr (s\<lparr>rings := (rings s)(t := u)\<rparr>)"
  by (simp add: upd_ring_def)

lemma upd_ring_Inl: "f (rings s t) = Inl e \<Longrightarrow> upd_ring t f s = Inl e"
  by (simp add: upd_ring_def)

lemma on_ring_Inr:
  "f (rings (env p) t) = Inr u \<Longrightarrow>
   on_ring t f p = Inr (p\<lparr>env := (env p)\<lparr>rings := (rings (env p))(t := u)\<rparr>\<rparr>)"
  by (simp add: on_ring_def on_env_def upd_ring_def)

lemma on_ring_Inl: "f (rings (env p) t) = Inl e \<Longrightarrow> on_ring t f p = Inl e"
  by (simp add: on_ring_def on_env_def upd_ring_def)

section \<open>Messages a ring sends\<close>

text \<open>
  \<open>notify_main_ring_release_fd\<close> on the ring of thread \<open>t\<close>. The entry is asked for after the
  token has been allocated.
\<close>

definition control_token :: "op \<Rightarrow> completion_token" where
  "control_token o' = default_token\<lparr>tok_op := o'\<rparr>"

definition notify_main_ring_release_fd ::
  "liburing \<Rightarrow> nat \<Rightarrow> int \<Rightarrow> ('l, 'v, 'f) world \<Rightarrow> ('l, 'v, 'f) world res" where
  "notify_main_ring_release_fd L t fd p =
     (let (a, p1) = alloc_obj (Token (control_token Op_MainRingCloseDirectSocket)) p in
      on_ring t (\<lambda>u.
        let (i, u1) = get_sqe L u in
        bind_res (at_sqe i (prep L (PrepMsgRing (sys_ring_fd (env p1)) fd a)) u1) (\<lambda>u2.
        bind_res (at_sqe i (or_flags IOSQE_CQE_SKIP_SUCCESS) u2) (\<lambda>u3.
        Inr (submit_all L u3)))) p1)"

text \<open>
  A message that asks the ring with descriptor \<open>fd\<close> to quit: the body of the loop of
  \<open>notify_workers_to_stop\<close>, and of \<open>notify_self_quit\<close>. The flag is set before the entry is
  prepared.
\<close>

definition send_quit :: "liburing \<Rightarrow> nat \<Rightarrow> int \<Rightarrow> ('l, 'v, 'f) world \<Rightarrow> ('l, 'v, 'f) world res" where
  "send_quit L t fd p =
     (let (i, u1) = get_sqe L (ring_at p t) in
      bind_res (at_sqe i (or_flags IOSQE_CQE_SKIP_SUCCESS) u1) (\<lambda>u2.
      let (a, p1) = alloc_obj (Token (control_token Op_Quit)) p in
      on_ring t (\<lambda>_. at_sqe i (prep L (PrepMsgRing fd 0 a)) u2) p1))"

fun notify_workers_to_stop ::
  "liburing \<Rightarrow> nat \<Rightarrow> int list \<Rightarrow> ('l, 'v, 'f) world \<Rightarrow> ('l, 'v, 'f) world res" where
  "notify_workers_to_stop L t [] p = Inr p"
| "notify_workers_to_stop L t (fd # fds) p =
     bind_res (send_quit L t fd p) (\<lambda>p1. notify_workers_to_stop L t fds p1)"

definition notify_self_quit :: "liburing \<Rightarrow> nat \<Rightarrow> ('l, 'v, 'f) world \<Rightarrow> ('l, 'v, 'f) world res" where
  "notify_self_quit L t p = send_quit L t (ring_fd (ring_at p t)) p"

section \<open>Lemmas\<close>

text \<open>What an operation on the rings leaves alone: every task, frame and other thread's ring.\<close>

lemma alloc_obj_simps:
  "alloc_obj ob p = (a, p') \<longleftrightarrow>
     a = fresh p \<and> p' = p\<lparr>objs := (objs p)(fresh p \<mapsto> ob), fresh := Suc (fresh p)\<rparr>"
  by (auto simp: alloc_obj_def)

lemma notify_main_ring_release_fd_ok:
  assumes L: "fills_entry L" "submits_all L" and r: "lu_room L (sq (ring_at p t))"
  shows "notify_main_ring_release_fd L t fd p = Inr (p\<lparr>
      objs := (objs p)(fresh p \<mapsto> Token (control_token Op_MainRingCloseDirectSocket)),
      fresh := Suc (fresh p),
      env := (env p)\<lparr>rings := (rings (env p))(t := (ring_at p t)\<lparr>sq := [],
        submitted := submitted (ring_at p t) @ sq (ring_at p t) @
          [entry (PrepMsgRing (sys_ring_fd (env p)) fd (fresh p)) IOSQE_CQE_SKIP_SUCCESS None]\<rparr>)\<rparr>\<rparr>)"
  using assms
  by (simp add: notify_main_ring_release_fd_def alloc_obj_def on_ring_def on_env_def upd_ring_def
      ring_at_def get_sqe_room submit_all_all)

lemma send_quit_ok:
  assumes L: "lu_room L (sq (ring_at p t))"
  shows "send_quit L t fd p = Inr (p\<lparr>
      objs := (objs p)(fresh p \<mapsto> Token (control_token Op_Quit)),
      fresh := Suc (fresh p),
      env := (env p)\<lparr>rings := (rings (env p))(t := (ring_at p t)\<lparr>sq := sq (ring_at p t) @
          [entry (PrepMsgRing fd 0 (fresh p)) (lu_prep_flags L IOSQE_CQE_SKIP_SUCCESS) None]\<rparr>)\<rparr>\<rparr>)"
  using assms
  by (simp add: send_quit_def alloc_obj_def on_ring_def on_env_def upd_ring_def
      ring_at_def get_sqe_room prep_def or_flags_def blank_sqe_def entry_def)

lemma send_quit_full: "\<not> lu_room L (sq (ring_at p t)) \<Longrightarrow> send_quit L t fd p = Inl NullSqe"
  by (simp add: send_quit_def get_sqe_full)

end
