(* ===== verification/Tcp_Connection.thy ===== *)
theory Tcp_Connection
  imports World
begin

text \<open>
  The connection class (\<open>net/tcp/connection.hpp\<close>) as an object with its owned descriptor: the
  constructors, the move operations, the destructor, and the hand-over between rings. The member
  coroutines are in Library_Code.
\<close>

section \<open>The class\<close>

definition TcpConnection_ctor :: "int \<Rightarrow> tcp_connection" where
  "TcpConnection_ctor direct_socket =
     \<lparr>conn_socket = direct_socket, direct_fd_in_sys_ring = direct_socket, direct_fd_in_this_ring = - 1,
      ownership_in_sys_ring = True, send_buffer = [], receive_buffer = []\<rparr>"

definition TcpConnection_move_ctor :: "tcp_connection \<Rightarrow> tcp_connection \<times> tcp_connection" where
  "TcpConnection_move_ctor rhs =
     (\<lparr>conn_socket = conn_socket rhs, direct_fd_in_sys_ring = direct_fd_in_sys_ring rhs,
       direct_fd_in_this_ring = direct_fd_in_this_ring rhs,
       ownership_in_sys_ring = ownership_in_sys_ring rhs,
       send_buffer = send_buffer rhs, receive_buffer = receive_buffer rhs\<rparr>,
      \<lparr>conn_socket = - 1, direct_fd_in_sys_ring = - 1, direct_fd_in_this_ring = - 1,
       ownership_in_sys_ring = ownership_in_sys_ring rhs,
       send_buffer = [], receive_buffer = []\<rparr>)"

definition TcpConnection_move_assign ::
  "tcp_connection \<Rightarrow> tcp_connection \<Rightarrow> tcp_connection \<times> tcp_connection" where
  "TcpConnection_move_assign self rhs =
     (self\<lparr>conn_socket := conn_socket rhs, direct_fd_in_sys_ring := direct_fd_in_sys_ring rhs,
       direct_fd_in_this_ring := direct_fd_in_this_ring rhs,
       ownership_in_sys_ring := ownership_in_sys_ring rhs,
       send_buffer := send_buffer rhs, receive_buffer := receive_buffer rhs\<rparr>,
      rhs\<lparr>conn_socket := - 1, direct_fd_in_sys_ring := - 1, direct_fd_in_this_ring := - 1,
       send_buffer := [], receive_buffer := []\<rparr>)"

text \<open>
  The destructor, run on thread \<open>t\<close>: a connection that the main ring owns is closed on the main
  ring, whichever thread runs this.
\<close>

definition TcpConnection_dtor ::
  "liburing \<Rightarrow> nat \<Rightarrow> tcp_connection \<Rightarrow> sys_env \<Rightarrow> (tcp_connection \<times> sys_env) res" where
  "TcpConnection_dtor L t c s =
     (if ownership_in_sys_ring c
      then bind_res (upd_ring main_thread (close_direct_socket L (conn_socket c)) s) (\<lambda>s1.
           Inr (c\<lparr>conn_socket := - 1, direct_fd_in_sys_ring := - 1\<rparr>, s1))
      else bind_res (if - 1 < direct_fd_in_this_ring c
                     then upd_ring t (close_direct_socket L (conn_socket c)) s
                     else Inr s) (\<lambda>s1.
           Inr (c\<lparr>conn_socket := - 1, direct_fd_in_this_ring := - 1\<rparr>, s1)))"

definition TcpConnection_release :: "tcp_connection \<Rightarrow> tcp_connection res" where
  "TcpConnection_release c =
     (if ownership_in_sys_ring c = False
      then Inl (Throws (LogicError ''You cannot release the connection onwership in worker ring loop.''))
      else Inr (c\<lparr>direct_fd_in_sys_ring := - 1, ownership_in_sys_ring := False\<rparr>))"

definition set_subring_socket :: "int \<Rightarrow> tcp_connection \<Rightarrow> tcp_connection" where
  "set_subring_socket d c =
     c\<lparr>conn_socket := d, direct_fd_in_this_ring := d, ownership_in_sys_ring := False\<rparr>"

definition connection_fd :: "tcp_connection \<Rightarrow> int" where
  "connection_fd c = conn_socket c"

definition move_out_received :: "tcp_connection \<Rightarrow> byte list \<times> tcp_connection" where
  "move_out_received c = (receive_buffer c, c\<lparr>receive_buffer := []\<rparr>)"

definition move_out_sended :: "tcp_connection \<Rightarrow> byte list \<times> tcp_connection" where
  "move_out_sended c = (send_buffer c, c\<lparr>send_buffer := []\<rparr>)"

definition copy_received :: "tcp_connection \<Rightarrow> byte list" where "copy_received c = receive_buffer c"

definition copy_sended :: "tcp_connection \<Rightarrow> byte list" where "copy_sended c = send_buffer c"

section \<open>Which slot an object gives back\<close>

text \<open>
  The ring and the slot that the destructor closes when it runs on thread \<open>t\<close>, and what destroying
  the connection adds to that ring. A worker connection whose object was moved from holds nothing; one
  the main ring owns still holds slot -1.
\<close>

definition conn_held :: "nat \<Rightarrow> tcp_connection \<Rightarrow> (nat \<times> int) list" where
  "conn_held t c =
     (if ownership_in_sys_ring c then [(main_thread, conn_socket c)]
      else if - 1 < direct_fd_in_this_ring c then [(t, conn_socket c)] else [])"

definition close_entry :: "int \<Rightarrow> sqe" where
  "close_entry fd = entry (PrepCloseDirect fd) IOSQE_CQE_SKIP_SUCCESS None"

text \<open>The ring after its queued entries and then \<open>es\<close> have been submitted.\<close>

definition flushed :: "sqe list \<Rightarrow> uring \<Rightarrow> uring" where
  "flushed es u = u\<lparr>sq := [], submitted := submitted u @ sq u @ es\<rparr>"

lemma TcpConnection_dtor_held:
  assumes L: "fills_entry L" "submits_all L" and r: "\<And>k. lu_room L (sq (rings s k))"
  shows "TcpConnection_dtor L t c s = Inr (snd (TcpConnection_move_ctor c)\<lparr>
      direct_fd_in_sys_ring := (if ownership_in_sys_ring c then - 1 else direct_fd_in_sys_ring c),
      direct_fd_in_this_ring := (if ownership_in_sys_ring c then direct_fd_in_this_ring c else - 1),
      send_buffer := send_buffer c, receive_buffer := receive_buffer c\<rparr>,
    fold (\<lambda>(k, fd) s. s\<lparr>rings := (rings s)(k := flushed [close_entry fd] (rings s k))\<rparr>) (conn_held t c) s)"
  using assms
  by (cases c) (simp add: TcpConnection_dtor_def conn_held_def upd_ring_def close_direct_socket_ok
      flushed_def close_entry_def TcpConnection_move_ctor_def)

text \<open>Moving keeps what a connection holds as long as it belongs to a worker's ring.\<close>

definition worker_owned :: "tcp_connection \<Rightarrow> bool" where
  "worker_owned c \<longleftrightarrow> \<not> ownership_in_sys_ring c"

lemma move_ctor_held:
  "conn_held t (fst (TcpConnection_move_ctor c)) = conn_held t c"
  "conn_held t (snd (TcpConnection_move_ctor c)) = (if worker_owned c then [] else [(main_thread, - 1)])"
  by (simp_all add: conn_held_def TcpConnection_move_ctor_def worker_owned_def)

lemma moved_from_worker_dtor:
  "worker_owned c \<Longrightarrow> \<exists>c'. TcpConnection_dtor L t (snd (TcpConnection_move_ctor c)) s = Inr (c', s)"
  by (simp add: TcpConnection_dtor_def TcpConnection_move_ctor_def worker_owned_def)

lemma moved_from_worker [simp]: "worker_owned (snd (TcpConnection_move_ctor c)) = worker_owned c"
  by (simp add: TcpConnection_move_ctor_def worker_owned_def)

lemma moved_to_worker [simp]: "worker_owned (fst (TcpConnection_move_ctor c)) = worker_owned c"
  by (simp add: TcpConnection_move_ctor_def worker_owned_def)

lemma worker_owned_set_subring [simp]: "worker_owned (set_subring_socket d c)"
  by (simp add: worker_owned_def set_subring_socket_def)

lemma move_ctor_fst [simp]: "fst (TcpConnection_move_ctor c) = c"
  by (cases c) (simp add: TcpConnection_move_ctor_def)

section \<open>Calling a function with a connection\<close>

text \<open>
  Invoking a \<open>std::function\<close> with a connection by value. What the function does is the
  user's: \<open>call_func\<close> is the start of the coroutine it makes. The connection is moved on its way
  into the coroutine frame, through \<open>hops\<close> intermediate objects that are destroyed afterwards;
  how many there are is up to the standard library.
\<close>

record ('l, 'f) client =
  call_func :: "'f \<Rightarrow> tcp_connection \<Rightarrow> 'l"
  hops :: nat

fun drop_shells :: "liburing \<Rightarrow> nat \<Rightarrow> nat \<Rightarrow> tcp_connection \<Rightarrow> sys_env \<Rightarrow> sys_env res" where
  "drop_shells L t 0 c s = Inr s"
| "drop_shells L t (Suc n) c s =
     bind_res (TcpConnection_dtor L t c s) (\<lambda>(c', s1). drop_shells L t n c s1)"

definition invoke_with_conn ::
  "liburing \<Rightarrow> ('l, 'f) client \<Rightarrow> nat \<Rightarrow> 'f option \<Rightarrow> tcp_connection \<Rightarrow> ('l, 'v, 'f) world
   \<Rightarrow> (task \<times> tcp_connection \<times> ('l, 'v, 'f) world) res" where
  "invoke_with_conn L cl t f conn p =
     (case f of
        None \<Rightarrow> Inl BadFunctionCall
      | Some g \<Rightarrow>
          (let (arg, shell) = TcpConnection_move_ctor conn;
               (tk, p1) = create_coroutine (call_func cl g arg) p
           in bind_res (on_env (drop_shells L t (hops cl) shell) p1) (\<lambda>p2. Inr (tk, shell, p2))))"

lemma drop_shells_worker: "worker_owned c \<Longrightarrow> drop_shells L t n (snd (TcpConnection_move_ctor c)) s = Inr s"
proof (induction n)
  case (Suc n)
  then show ?case using moved_from_worker_dtor [OF Suc.prems, of L t s] by auto
qed simp

lemma invoke_worker_conn:
  "worker_owned c \<Longrightarrow> invoke_with_conn L cl t (Some g) c p =
     Inr (fst (create_coroutine (call_func cl g c) p), snd (TcpConnection_move_ctor c),
          snd (create_coroutine (call_func cl g c) p))"
  using drop_shells_worker [of c L t "hops cl" "env p"]
  by (simp add: invoke_with_conn_def on_env_def create_coroutine_def split_beta)

text \<open>What a worker's connection holds is handed on by moves and given back once.\<close>

definition worker_held :: "nat \<Rightarrow> tcp_connection \<Rightarrow> (nat \<times> int) list" where
  "worker_held t c = (if worker_owned c then conn_held t c else [])"

interpretation worker_conn: owner TcpConnection_move_ctor "worker_held t" for t
  by unfold_locales (simp_all add: worker_held_def move_ctor_held)

end
