(* ===== verification/Ring_Events.thy ===== *)
theory Ring_Events
  imports Tcp_Connection
begin

text \<open>
  Handling completions (\<open>Uring::handle_request\<close>, \<open>process_batch\<close>, \<open>process_all\<close> of
  \<open>io/uring.hpp\<close> and the two handlers that \<open>net/tcp/connection.hpp\<close> defines), for the ring
  of thread \<open>t\<close>.
\<close>

section \<open>Messages that carry a task\<close>

definition impl_handle_msg_conn ::
  "liburing \<Rightarrow> ('l, 'f) client \<Rightarrow> nat \<Rightarrow> cqe \<Rightarrow> ('l, 'v, 'f) world \<Rightarrow> ('l, 'v, 'f) world res" where
  "impl_handle_msg_conn L cl t c p =
     bind_res (conn_helper_at (objs p) (cqe_data c)) (\<lambda>m.
     let (task, m') = ConnTaskHelper_move_out m;
         sys_conn_fd = direct_fd m';
         p1 = delete_obj (cqe_data c) p;
         connfd = direct_map_index sys_conn_fd (ring_at p1 t)
     in bind_res (on_ring t (\<lambda>u. Inr (u\<lparr>direct_map := (direct_map u)(sys_conn_fd := None)\<rparr>)) p1) (\<lambda>p2.
        let conn = set_subring_socket connfd (TcpConnection_ctor (- 1))
        in bind_res (invoke_with_conn L cl t task conn p2) (\<lambda>(tk, conn', p3).
           bind_res (enqueue t tk p3) (\<lambda>p4.
           bind_res (notify_main_ring_release_fd L t sys_conn_fd p4) (\<lambda>p5.
           on_env (\<lambda>s. bind_res (TcpConnection_dtor L t conn' s) (\<lambda>(c', s'). Inr s')) p5)))))"

text \<open>The loop over the descriptors; it does not remove them from the list.\<close>

fun macc_spawn ::
  "liburing \<Rightarrow> ('l, 'f) client \<Rightarrow> nat \<Rightarrow> 'f option \<Rightarrow> int list \<Rightarrow> ('l, 'v, 'f) world
   \<Rightarrow> ('l, 'v, 'f) world res" where
  "macc_spawn L cl t f [] p = Inr p"
| "macc_spawn L cl t f (fd # fds) p =
     bind_res (invoke_with_conn L cl t f (TcpConnection_ctor fd) p) (\<lambda>(tk, tmp, p1).
     bind_res (on_env (\<lambda>s. bind_res (TcpConnection_dtor L t tmp s) (\<lambda>(c', s'). Inr s')) p1) (\<lambda>p2.
     bind_res (enqueue t tk p2) (\<lambda>p3. macc_spawn L cl t f fds p3)))"

definition impl_handle_macc_task ::
  "liburing \<Rightarrow> ('l, 'f) client \<Rightarrow> nat \<Rightarrow> cqe \<Rightarrow> ('l, 'v, 'f) world \<Rightarrow> ('l, 'v, 'f) world res" where
  "impl_handle_macc_task L cl t c p =
     bind_res (macc_task_at (objs p) (cqe_data c)) (\<lambda>m.
     let (func, m') = MAccTaskToken_move_out m;
         p1 = delete_obj (cqe_data c) p
     in macc_spawn L cl t func (awaiting_direct_fd (ring_at p1 t)) p1)"

section \<open>One completion\<close>

definition is_msg :: "ring_msg_type \<Rightarrow> cqe \<Rightarrow> bool" where
  "is_msg m c \<longleftrightarrow> cqe_result c = ring_msg_code m \<and> cqe_fl c AND NET_IORING_CQE_F_TASK \<noteq> 0"

definition wake :: "task_ptr option \<Rightarrow> ('l, 'v, 'f) world \<Rightarrow> ('l, 'v, 'f) world res" where
  "wake ptr p = bind_res (deref_task ptr) (\<lambda>q. upd_task q (set_pending False) p)"

definition push_awaiting :: "nat \<Rightarrow> int \<Rightarrow> ('l, 'v, 'f) world \<Rightarrow> ('l, 'v, 'f) world res" where
  "push_awaiting t r p =
     (if 0 \<le> r
      then on_ring t (\<lambda>u. Inr (u\<lparr>awaiting_direct_fd := awaiting_direct_fd u @ [r]\<rparr>)) p
      else Inr p)"

definition handle_token ::
  "liburing \<Rightarrow> nat \<Rightarrow> cqe \<Rightarrow> completion_token \<Rightarrow> ('l, 'v, 'f) world \<Rightarrow> ('l, 'v, 'f) world res" where
  "handle_token L t c tk p =
     (let a = cqe_data c; r = cqe_result c in
      case tok_op tk of
        Op_SyncCloseDirect \<Rightarrow> Inr (delete_obj a p)
      | Op_Quit \<Rightarrow>
          bind_res (on_ring t (\<lambda>u. Inr (u\<lparr>ring_stopped := True\<rparr>)) p) (\<lambda>p1. Inr (delete_obj a p1))
      | Op_CancelAny \<Rightarrow> Inr (delete_obj a p)
      | Op_RingTask \<Rightarrow> Inr (delete_obj a p)
      | Op_RingFdSender \<Rightarrow> Inr (delete_obj a p)
      | Op_RingFdReceiver \<Rightarrow>
          bind_res (on_ring t (\<lambda>u. Inr (u\<lparr>direct_map := (direct_map u)(cqe_res tk \<mapsto> r)\<rparr>)) p)
            (\<lambda>p1. Inr (delete_obj a p1))
      | Op_MainRingCloseDirectSocket \<Rightarrow>
          bind_res (on_ring t (close_direct_socket L r) p) (\<lambda>p1. Inr (delete_obj a p1))
      | Op_MultishotAccept \<Rightarrow>
          bind_res (push_awaiting t r p) (\<lambda>p1.
          bind_res (token_at (objs p1) multishot_token) (\<lambda>mt. wake (chain_task mt) p1))
      | Op_MultishotAcceptFdReceiver \<Rightarrow>
          bind_res (push_awaiting t r p) (\<lambda>p1. Inr (delete_obj a p1))
      | _ \<Rightarrow>
          wake (chain_task tk)
            (p\<lparr>objs := (objs p)(a \<mapsto> Token (tk\<lparr>cqe_res := r, cqe_flags := cqe_fl c\<rparr>))\<rparr>))"

definition handle_request ::
  "liburing \<Rightarrow> ('l, 'f) client \<Rightarrow> nat \<Rightarrow> cqe \<Rightarrow> ('l, 'v, 'f) world \<Rightarrow> ('l, 'v, 'f) world res" where
  "handle_request L cl t c p =
     (if is_msg RingTask c then
        bind_res (msg_task_at (objs p) (cqe_data c)) (\<lambda>m.
        let (h, m') = RingMsgTask_move_out m;
            p0 = p\<lparr>objs := (objs p)(cqe_data c \<mapsto> MsgTask m')\<rparr>
        in bind_res (enqueue t \<lparr>task_handle = h\<rparr> p0) (\<lambda>p1. Inr (delete_obj (cqe_data c) p1)))
      else if is_msg RingFuncTask c then impl_handle_msg_conn L cl t c p
      else if is_msg MultiAccTask c then impl_handle_macc_task L cl t c p
      else if cqe_data c \<noteq> nullptr then
        bind_res (token_at (objs p) (cqe_data c)) (\<lambda>tk. handle_token L t c tk p)
      else Inr p)"

section \<open>Batches\<close>

text \<open>\<open>process_batch\<close> and \<open>process_all\<close> are \<open>noexcept\<close>.\<close>

definition noexcept :: "'a res \<Rightarrow> 'a res" where
  "noexcept r = (case r of Inl (Throws e) \<Rightarrow> Inl (Terminated e) | _ \<Rightarrow> r)"

fun handle_while_running ::
  "liburing \<Rightarrow> ('l, 'f) client \<Rightarrow> nat \<Rightarrow> cqe list \<Rightarrow> ('l, 'v, 'f) world \<Rightarrow> ('l, 'v, 'f) world res" where
  "handle_while_running L cl t [] p = Inr p"
| "handle_while_running L cl t (c # cs) p =
     (if ring_stopped (ring_at p t) then Inr p
      else bind_res (handle_request L cl t c p) (\<lambda>p1. handle_while_running L cl t cs p1))"

fun handle_each ::
  "liburing \<Rightarrow> ('l, 'f) client \<Rightarrow> nat \<Rightarrow> cqe list \<Rightarrow> ('l, 'v, 'f) world \<Rightarrow> ('l, 'v, 'f) world res" where
  "handle_each L cl t [] p = Inr p"
| "handle_each L cl t (c # cs) p =
     bind_res (handle_request L cl t c p) (\<lambda>p1. handle_each L cl t cs p1)"

text \<open>
  \<open>during_wait\<close> is what arrives while a stopping ring waits for the result of its cancel request.
\<close>

definition cancel_everything :: "liburing \<Rightarrow> cqe list \<Rightarrow> uring \<Rightarrow> uring res" where
  "cancel_everything L during_wait u =
     (let u0 = consume_all u;
          (i, u1) = get_sqe L u0
      in bind_res (at_sqe i (prep L PrepCancelAny) u1) (\<lambda>u2.
         Inr (consume_all (arrive during_wait (submit_all L u2)))))"

definition process_batch ::
  "liburing \<Rightarrow> ('l, 'f) client \<Rightarrow> nat \<Rightarrow> cqe list \<Rightarrow> ('l, 'v, 'f) world \<Rightarrow> ('l, 'v, 'f) world res" where
  "process_batch L cl t during_wait p =
     (let cqes = take URING_PEEK_CQES_BATCH (cq (ring_at p t)) in
      noexcept (
        bind_res (handle_while_running L cl t cqes p) (\<lambda>p1.
        bind_res (on_ring t (\<lambda>u. Inr (consume (length cqes) u)) p1) (\<lambda>p2.
        if ring_stopped (ring_at p2 t) then on_ring t (cancel_everything L during_wait) p2
        else Inr p2))))"

definition process_all ::
  "liburing \<Rightarrow> ('l, 'f) client \<Rightarrow> nat \<Rightarrow> ('l, 'v, 'f) world \<Rightarrow> ('l, 'v, 'f) world res" where
  "process_all L cl t p =
     (let cqes = cq (ring_at p t) in
      noexcept (
        bind_res (handle_each L cl t cqes p) (\<lambda>p1.
        on_ring t (\<lambda>u. Inr (consume (length cqes) u)) p1)))"

end
