(* ===== verification/Ring_Safety.thy ===== *)
theory Ring_Safety
  imports Ring_Events
begin

text \<open>
  Handling a completion keeps the invariant of the coroutine layer, as long as the user data of the
  completion points to what the handler takes it for. What can go wrong beyond that is a full
  submission queue and the call of an empty function.
\<close>

declare split_paired_All [simp del] split_paired_Ex [simp del]

section \<open>Changes of tokens and of the pending flags\<close>

lemma at_rest_pending [simp]: "at_rest F H hs q (st\<lparr>pending := b\<rparr>) = at_rest F H hs q st"
  by (simp add: at_rest_def)

lemma same_pending [simp]: "\<exists>b. (st :: scheduled_task) = st\<lparr>pending := b\<rparr>"
  by (rule exI [of _ "pending st"]) simp

lemma well_formed_objs:
  assumes W: "well_formed S p" and F: "frames p' = frames p" and n: "fresh p \<le> fresh p'"
    and R: "\<And>q. in_range p' q = in_range p q"
    and T: "\<And>q. in_range p q \<Longrightarrow> \<exists>b. task_at p' q = (task_at p q)\<lparr>pending := b\<rparr>"
    and D: "\<And>a tk. objs p a = Some (Token tk) \<Longrightarrow> a \<noteq> multishot_token \<Longrightarrow> default_op (tok_op tk)
      \<Longrightarrow> \<exists>tk'. objs p' a = Some (Token tk') \<and> chain_task tk' = chain_task tk \<and> tok_op tk' = tok_op tk"
    and M: "\<And>tk. objs p multishot_token = Some (Token tk)
      \<Longrightarrow> \<exists>tk'. objs p' multishot_token = Some (Token tk')"
    and G: "\<And>a m h. objs p' a = Some (MsgTask m) \<Longrightarrow> msg_task m = Some h \<Longrightarrow> objs p a = Some (MsgTask m)"
    and B: "\<And>a. objs p' a \<noteq> None \<Longrightarrow> objs p a \<noteq> None \<or> a < fresh p'"
  shows "well_formed S p'"
proof -
  have O: "others S None p" using W by (simp add: well_formed_def)
  have b: "bounded p'"
    by (rule bounded_mono [OF others_bounded [OF O] n M]) (use F B in auto)
  have rest: "at_rest (frames p') (objs p') (S q) q (task_at p' q)" if q: "in_range p' q" for q
  proof -
    have r: "in_range p q" using q R by simp
    have "at_rest (frames p') (objs p') (S q) q (task_at p q)"
      by (rule at_rest_cong [OF others_at_rest [OF O r]]) (use F D in fastforce)+
    then show ?thesis using T [OF r] by auto
  qed
  have "parked S p'"
    unfolding parked_def F R
  proof (intro allI impI)
    fix a m h assume a: "objs p' a = Some (MsgTask m)" "msg_task m = Some h"
    note pd = parkedD [OF others_parked [OF O] G [OF a] a(2)]
    show "(\<exists>f. frames p h = Some f \<and> parked_frame f) \<and> (\<forall>q. in_range p q \<longrightarrow> h \<notin> set (S q)) \<and>
        (\<forall>a' m'. objs p' a' = Some (MsgTask m') \<longrightarrow> msg_task m' = Some h \<longrightarrow> a' = a)"
      using pd G by meson
  qed
  moreover have "disjoint_chains S p'" using others_disjoint [OF O] R by (auto simp: disjoint_chains_def)
  moreover have "set (S q) \<subseteq> dom (frames p')" if "in_range p' q" for q
    using that R F others_chain_dom [OF O] by simp
  ultimately show ?thesis using rest b by (simp add: well_formed_def others_def)
qed

lemma well_formed_env [simp]: "well_formed S (p\<lparr>env := s\<rparr>) = well_formed S p"
  by (simp add: well_formed_def)

lemma well_formed_delete:
  assumes W: "well_formed S p" and a: "a \<noteq> multishot_token"
    and ob: "\<And>tk. objs p a = Some (Token tk) \<Longrightarrow> \<not> default_op (tok_op tk)"
  shows "well_formed S (delete_obj a p)"
  by (rule well_formed_objs [OF W]) (use a ob in \<open>auto simp: delete_obj_def split: if_splits\<close>)

lemma well_formed_token:
  assumes W: "well_formed S p" and a: "objs p a = Some (Token tk)"
    and tk': "chain_task tk' = chain_task tk" "tok_op tk' = tok_op tk"
  shows "well_formed S (p\<lparr>objs := (objs p)(a \<mapsto> Token tk')\<rparr>)"
  by (rule well_formed_objs [OF W]) (use a tk' in \<open>auto split: if_splits\<close>)

lemma well_formed_alloc_token:
  assumes W: "well_formed S p"
  shows "well_formed S (p\<lparr>objs := (objs p)(fresh p \<mapsto> Token tk), fresh := Suc (fresh p)\<rparr>)"
  using others_alloc_obj [of S None p "Token tk" "fresh p"] W
  by (simp add: well_formed_def alloc_obj_def)

lemma wake_ok:
  assumes W: "well_formed S p" and q: "in_range p q"
  obtains p' where "wake (Some q) p = Inr p'" and "well_formed S p'" and "env p' = env p"
    and "objs p' = objs p" and "frames p' = frames p"
    and "\<And>q'. in_range p' q' = in_range p q'"
    and "\<And>q'. task_at p' q' = (if q' = q then set_pending False (task_at p q) else task_at p q')"
proof -
  obtain p' where p': "upd_task q (set_pending False) p = Inr p'" "frames p' = frames p" "objs p' = objs p"
    "fresh p' = fresh p" "env p' = env p" and R: "\<And>q'. in_range p' q' = in_range p q'"
    and T: "\<And>q'. task_at p' q' = (if q' = q then set_pending False (task_at p q) else task_at p q')"
    using upd_task_in_range [OF q, of "set_pending False"] by metis
  have "\<exists>b. task_at p' q' = (task_at p q')\<lparr>pending := b\<rparr>" for q'
    by (cases "q' = q") (auto simp: T set_pending_def intro!: exI [of _ False])
  then have "well_formed S p'"
    by (intro well_formed_objs [OF W]) (use p' R in auto)
  then show ?thesis using that [OF _ _ p'(5,3,2) R T] p' by (simp add: wake_def deref_task_def)
qed

section \<open>Effects on the rings\<close>

definition ring_fault :: "fault \<Rightarrow> bool" where
  "ring_fault e \<longleftrightarrow> e = NullSqe \<or> e = BadFunctionCall"

lemma close_direct_socket_fault: "close_direct_socket L fd u = Inl e \<Longrightarrow> e = NullSqe"
  by (cases "lu_room L (sq u)") (auto simp: close_direct_socket_def get_sqe_room get_sqe_full)

lemma TcpConnection_dtor_fault: "TcpConnection_dtor L t c s = Inl e \<Longrightarrow> e = NullSqe"
  by (auto simp: TcpConnection_dtor_def upd_ring_def bind_res_eq_Inl split: if_splits
      dest: close_direct_socket_fault)

lemma drop_shells_fault: "drop_shells L t n c s = Inl e \<Longrightarrow> e = NullSqe"
  by (induction n arbitrary: c s) (auto simp: bind_res_eq_Inl dest: TcpConnection_dtor_fault)

lemma on_env_Inr: "on_env f p = Inr p' \<longleftrightarrow> (\<exists>s. f (env p) = Inr s \<and> p' = p\<lparr>env := s\<rparr>)"
  by (auto simp: on_env_def bind_res_eq_Inr)

lemma on_env_Inl: "on_env f p = Inl e \<longleftrightarrow> f (env p) = Inl e"
  by (auto simp: on_env_def bind_res_eq_Inl)

lemma on_ring_env: "on_ring t f p = Inr p' \<Longrightarrow> \<exists>s. p' = p\<lparr>env := s\<rparr>"
  by (auto simp: on_ring_def on_env_Inr)

lemma on_ring_pure [simp]:
  "on_ring t (\<lambda>u. Inr (g u)) p = Inr (p\<lparr>env := (env p)\<lparr>rings := (rings (env p))(t := g (rings (env p) t))\<rparr>\<rparr>)"
  by (simp add: on_ring_def on_env_def upd_ring_def)

lemma notify_main_ring_release_fd_cases:
  obtains "notify_main_ring_release_fd L t fd p = Inl NullSqe"
  | s where "notify_main_ring_release_fd L t fd p = Inr (p\<lparr>
      objs := (objs p)(fresh p \<mapsto> Token (control_token Op_MainRingCloseDirectSocket)),
      fresh := Suc (fresh p), env := s\<rparr>)"
proof (cases "lu_room L (sq (rings (env p) t))")
  case True
  then show thesis
    by (intro that(2)) (simp add: notify_main_ring_release_fd_def alloc_obj_def on_ring_def on_env_def
        upd_ring_def get_sqe_room)
next
  case False
  then show thesis
    by (intro that(1)) (simp add: notify_main_ring_release_fd_def alloc_obj_def on_ring_def on_env_def
        upd_ring_def get_sqe_full)
qed

lemma enqueue_env: "enqueue t tk (p\<lparr>env := s\<rparr>) = bind_res (enqueue t tk p) (\<lambda>q. Inr (q\<lparr>env := s\<rparr>))"
  by (simp add: enqueue_def Let_def upd_promise_def split: option.splits)

section \<open>What the handler may rely on\<close>

text \<open>The user data of a completion points to a live object of the kind the handler casts it to.\<close>

definition message_address :: "address \<Rightarrow> bool" where
  "message_address a \<longleftrightarrow> a \<noteq> nullptr \<and> a \<noteq> multishot_token"

definition event_ok :: "('l, 'v, 'f) world \<Rightarrow> cqe \<Rightarrow> bool" where
  "event_ok p c \<longleftrightarrow>
     (if is_msg RingTask c then
        message_address (cqe_data c) \<and> (\<exists>m. objs p (cqe_data c) = Some (MsgTask m) \<and> msg_task m \<noteq> None)
      else if is_msg RingFuncTask c then
        message_address (cqe_data c) \<and> (\<exists>m. objs p (cqe_data c) = Some (ConnHelper m))
      else if is_msg MultiAccTask c then
        message_address (cqe_data c) \<and> (\<exists>m. objs p (cqe_data c) = Some (MAccTask m))
      else cqe_data c \<noteq> nullptr \<longrightarrow>
        (\<exists>tk. objs p (cqe_data c) = Some (Token tk) \<and>
          (cqe_data c = multishot_token \<longleftrightarrow> tok_op tk = Op_MultishotAccept) \<and>
          (default_op (tok_op tk) \<or> tok_op tk = Op_MultishotAccept \<longrightarrow>
            (\<exists>q. chain_task tk = Some q \<and> in_range p q))))"

text \<open>
  What handling a completion with user data \<open>a\<close> leaves as it was: all tasks but for their pending
  flags, all their coroutines, and all other objects.
\<close>

definition handled ::
  "chains \<Rightarrow> chains \<Rightarrow> address \<Rightarrow> ('l, 'v, 'f) world \<Rightarrow> ('l, 'v, 'f) world \<Rightarrow> bool" where
  "handled S S' a p p' \<longleftrightarrow>
     (\<forall>q. in_range p q \<longrightarrow> in_range p' q \<and> S' q = S q \<and> (\<exists>b. task_at p' q = (task_at p q)\<lparr>pending := b\<rparr>)) \<and>
     (\<forall>q h. in_range p q \<longrightarrow> h \<in> set (S q) \<longrightarrow> frames p' h = frames p h) \<and>
     (\<forall>b ob. objs p b = Some ob \<longrightarrow> b \<noteq> a \<or> b = multishot_token \<longrightarrow> objs p' b = Some ob)"

definition event_done :: "chains \<Rightarrow> address \<Rightarrow> ('l, 'v, 'f) world \<Rightarrow> ('l, 'v, 'f) world res \<Rightarrow> bool" where
  "event_done S a p r =
     (case r of
        Inl e \<Rightarrow> ring_fault e
      | Inr p' \<Rightarrow> \<exists>S'. well_formed S' p' \<and> handled S S' a p p')"

lemma event_ok_handled:
  assumes "event_ok p c'" and "handled S S' a p p'" and "cqe_data c' \<noteq> a \<or> a = multishot_token \<or> a = nullptr"
  shows "event_ok p' c'"
proof -
  have keep: "objs p' (cqe_data c') = Some ob" if "objs p (cqe_data c') = Some ob" "cqe_data c' \<noteq> nullptr" for ob
    using that assms(2,3) unfolding handled_def by metis
  have "in_range p' q" if "in_range p q" for q
    using that assms(2) by (simp add: handled_def)
  with keep assms(1) show ?thesis
    unfolding event_ok_def message_address_def by (fastforce split: if_splits)
qed

lemma handledI_same:
  assumes "frames p' = frames p" and "\<And>q. in_range p' q = in_range p q"
    and "\<And>q. in_range p q \<Longrightarrow> \<exists>b. task_at p' q = (task_at p q)\<lparr>pending := b\<rparr>"
    and "\<And>b ob. objs p b = Some ob \<Longrightarrow> b \<noteq> a \<or> b = multishot_token \<Longrightarrow> objs p' b = Some ob"
  shows "handled S S a p p'"
  using assms by (simp add: handled_def)

lemma handledD:
  assumes "handled S S' a p p'" and "in_range p q"
  shows "in_range p' q" and "S' q = S q" and "\<exists>b. task_at p' q = (task_at p q)\<lparr>pending := b\<rparr>"
    and "h \<in> set (S q) \<Longrightarrow> frames p' h = frames p h"
  using assms by (simp_all add: handled_def)

lemma handled_objs: "handled S S' a p p' \<Longrightarrow> objs p b = Some ob \<Longrightarrow> b \<noteq> a \<or> b = multishot_token \<Longrightarrow>
    objs p' b = Some ob"
  by (simp add: handled_def)

lemma handled_trans:
  assumes A: "handled S S' a p p'" and B: "handled S' S'' a p' p''"
  shows "handled S S'' a p p''"
  unfolding handled_def
proof (intro conjI allI impI)
  fix q assume r: "in_range p q"
  note A' = handledD [OF A r] and B' = handledD [OF B handledD(1) [OF A r]]
  show "in_range p'' q" "S'' q = S q" using A' B' by simp_all
  show "\<exists>b. task_at p'' q = (task_at p q)\<lparr>pending := b\<rparr>" using A'(3) B'(3) by auto
  fix h assume "h \<in> set (S q)"
  then show "frames p'' h = frames p h" using A'(2) A'(4) B'(4) by simp
qed (use handled_objs [OF A] handled_objs [OF B] in blast)

lemma handled_env [simp]: "handled S S' a p (p'\<lparr>env := s\<rparr>) = handled S S' a p p'"
  by (simp add: handled_def)

lemma handled_refl [simp]: "handled S S a p p"
  by (simp add: handled_def)

lemma handled_delete [simp]: "a \<noteq> multishot_token \<Longrightarrow> handled S S a p (delete_obj a p)"
  by (simp add: handled_def delete_obj_def)

lemma delete_obj_env: "delete_obj a (p\<lparr>env := s\<rparr>) = (delete_obj a p)\<lparr>env := s\<rparr>"
  by (simp add: delete_obj_def)

section \<open>Completion tokens\<close>

lemma delete_done:
  assumes "well_formed S p" and "a \<noteq> multishot_token" and "\<And>tk. objs p a = Some (Token tk) \<Longrightarrow> \<not> default_op (tok_op tk)"
  shows "event_done S a p (Inr ((delete_obj a p)\<lparr>env := s\<rparr>))"
  unfolding event_done_def using well_formed_delete [OF assms] assms(2)
  by (auto intro!: exI [of _ S])

lemma event_doneI: "well_formed S' p' \<Longrightarrow> handled S S' a p p' \<Longrightarrow> event_done S a p (Inr (p'\<lparr>env := s\<rparr>))"
  unfolding event_done_def by (simp only: sum.case) (rule exI [of _ S'], simp)

lemma wake_done:
  assumes W: "well_formed S p" and q: "in_range p q"
  shows "event_done S a p (wake (Some q) p)"
proof -
  obtain p' where p': "wake (Some q) p = Inr p'" "well_formed S p'" "objs p' = objs p" "frames p' = frames p"
    and R: "\<And>q'. in_range p' q' = in_range p q'"
    and T: "\<And>q'. task_at p' q' = (if q' = q then set_pending False (task_at p q) else task_at p q')"
    using wake_ok [OF W q] by metis
  have "handled S S a p p'"
    by (rule handledI_same) (use p' R in \<open>auto simp: T set_pending_def intro!: exI [of _ False]\<close>)
  then show ?thesis using p' by (auto simp: event_done_def)
qed

lemma event_done_trans:
  assumes "handled S S a p p1" and "event_done S a p1 r"
  shows "event_done S a p r"
  using assms handled_trans by (fastforce simp: event_done_def split: sum.splits)

lemma push_awaiting_eq: "\<exists>s. push_awaiting t r p = Inr (p\<lparr>env := s\<rparr>)"
proof (cases "0 \<le> r")
  case False
  then show ?thesis by (intro exI [of _ "env p"]) (simp add: push_awaiting_def)
qed (auto simp: push_awaiting_def)

lemma handle_token_done:
  assumes W: "well_formed S p" and tk: "objs p (cqe_data c) = Some (Token tk)"
    and ms: "cqe_data c = multishot_token \<longleftrightarrow> tok_op tk = Op_MultishotAccept"
    and ct: "default_op (tok_op tk) \<or> tok_op tk = Op_MultishotAccept \<Longrightarrow>
      \<exists>q. chain_task tk = Some q \<and> in_range p q"
  shows "event_done S (cqe_data c) p (handle_token L t c tk p)"
proof -
  let ?a = "cqe_data c"
  have del: "event_done S ?a p (Inr ((delete_obj ?a p)\<lparr>env := s\<rparr>))"
    if "\<not> default_op (tok_op tk)" "tok_op tk \<noteq> Op_MultishotAccept" for s
    by (rule delete_done [OF W]) (use that tk ms in auto)
  have del0: "event_done S ?a p (Inr (delete_obj ?a p))"
    if "\<not> default_op (tok_op tk)" "tok_op tk \<noteq> Op_MultishotAccept"
    using del [OF that, of "env (delete_obj ?a p)"] by simp
  have wk: "event_done S ?a p (wake (chain_task tk)
      (p\<lparr>objs := (objs p)(?a \<mapsto> Token (tk\<lparr>cqe_res := r, cqe_flags := fl\<rparr>))\<rparr>))"
    if d: "default_op (tok_op tk)" for r fl
  proof -
    let ?p = "p\<lparr>objs := (objs p)(?a \<mapsto> Token (tk\<lparr>cqe_res := r, cqe_flags := fl\<rparr>))\<rparr>"
    obtain q where q: "chain_task tk = Some q" "in_range p q" using ct d by blast
    have "?a \<noteq> multishot_token" using ms d by (auto simp: default_op_def)
    then have "handled S S ?a p ?p" by (simp add: handled_def)
    moreover have "event_done S ?a ?p (wake (Some q) ?p)"
      by (rule wake_done) (use well_formed_token [OF W tk] q in auto)
    ultimately show ?thesis using q event_done_trans by fastforce
  qed
  show ?thesis
  proof (cases "tok_op tk = Op_MultishotAccept")
    case True
    then obtain q where q: "chain_task tk = Some q" "in_range p q" using ct by blast
    obtain s where s: "push_awaiting t (cqe_result c) p = Inr (p\<lparr>env := s\<rparr>)" using push_awaiting_eq by blast
    have m: "objs p multishot_token = Some (Token tk)" using tk ms True by metis
    have "event_done S ?a (p\<lparr>env := s\<rparr>) (wake (Some q) (p\<lparr>env := s\<rparr>))"
      by (rule wake_done) (use W q in simp_all)
    then have "event_done S ?a p (wake (Some q) (p\<lparr>env := s\<rparr>))"
      using event_done_trans [of S ?a p "p\<lparr>env := s\<rparr>"] by simp
    then show ?thesis using True s m q by (simp add: handle_token_def token_at_def)
  next
    case False
    obtain s where s: "push_awaiting t (cqe_result c) p = Inr (p\<lparr>env := s\<rparr>)" using push_awaiting_eq by blast
    have cl: "event_done S ?a p (bind_res (on_ring t (close_direct_socket L (cqe_result c)) p)
        (\<lambda>p1. Inr (delete_obj ?a p1)))" if "tok_op tk = Op_MainRingCloseDirectSocket"
    proof (cases "on_ring t (close_direct_socket L (cqe_result c)) p")
      case (Inl e)
      then have "e = NullSqe"
        by (auto simp: on_ring_def on_env_Inl upd_ring_def bind_res_eq_Inl dest: close_direct_socket_fault)
      then show ?thesis using Inl by (simp add: event_done_def ring_fault_def)
    next
      case (Inr p1)
      then obtain s where "p1 = p\<lparr>env := s\<rparr>" using on_ring_env by blast
      then show ?thesis using Inr del that by (simp add: delete_obj_env default_op_def)
    qed
    show ?thesis
      using False del del0 wk cl s
      by (cases "tok_op tk") (simp_all add: handle_token_def default_op_def delete_obj_env)
  qed
qed

section \<open>Messages\<close>

lemma enqueue_done:
  assumes W: "well_formed S p" and f: "frames p h = Some f" "parked_frame f"
    and nin: "\<And>q. in_range p q \<Longrightarrow> h \<notin> set (S q)"
    and nomsg: "\<And>a m. objs p a = Some (MsgTask m) \<Longrightarrow> msg_task m \<noteq> Some h"
  obtains p' where "enqueue t \<lparr>task_handle = Some h\<rparr> p = Inr p'"
    and "well_formed (S((t, length (loops p t)) := [h])) p'"
    and "handled S (S((t, length (loops p t)) := [h])) a p p'" and "objs p' = objs p"
    and "env p' = env p" and "fresh p' = fresh p"
proof -
  let ?n = "(t, length (loops p t))"
  obtain p' where p': "enqueue t \<lparr>task_handle = Some h\<rparr> p = Inr p'" using enqueue_eq [OF f(1)] by blast
  have W': "well_formed (S(?n := [h])) p'"
    using others_enqueue [OF W [unfolded well_formed_def] f nin nomsg _ p'] by (simp add: well_formed_def)
  have eq: "p' = p\<lparr>loops := (loops p)(t := loops p t @
             [\<lparr>sched_task = \<lparr>task_handle = Some h\<rparr>, awaiting_handle = Some h, valid = True,
               pending = False\<rparr>]),
           frames := (frames p)(h \<mapsto> f\<lparr>promise := set_chain_root (Some ?n) (promise f)\<rparr>)\<rparr>"
    using p' enqueue_eq [OF f(1), of t] by simp
  have "handled S (S(?n := [h])) a p p'"
    unfolding handled_def
  proof (intro conjI allI impI)
    fix q assume r: "in_range p q"
    then have "q \<noteq> ?n" by auto
    then show "in_range p' q" "(S(?n := [h])) q = S q" "\<exists>b. task_at p' q = (task_at p q)\<lparr>pending := b\<rparr>"
      using r by (simp_all add: eq in_range_append task_at_append)
    fix k assume "k \<in> set (S q)"
    then show "frames p' k = frames p k" using nin [OF r] by (auto simp: eq)
  qed (simp add: eq)
  then show ?thesis using that [OF p' W'] by (simp add: eq)
qed

lemma spawn_done:
  assumes W: "well_formed S p" and c: "create_coroutine l p = (tk, p1)"
  obtains S' p' where "enqueue t tk (p1\<lparr>env := s\<rparr>) = Inr p'" and "well_formed S' p'"
    and "handled S S' a p p'" and "objs p' = objs p" and "env p' = s"
proof -
  note O = W [unfolded well_formed_def]
  note bnd = others_bounded [OF O]
  let ?q = "p1\<lparr>env := s\<rparr>"
  have W1: "well_formed S ?q" using others_create_coroutine [OF O c] by (simp add: well_formed_def)
  have q: "objs ?q = objs p" "env ?q = s" "tk = \<lparr>task_handle = Some (fresh p)\<rparr>" "\<And>q'. in_range ?q q' = in_range p q'"
    "frames ?q (fresh p) = Some \<lparr>promise = new_promise, costate = Suspended l AwInitial\<rparr>"
    "\<And>q'. task_at ?q q' = task_at p q'" "\<And>h. h \<noteq> fresh p \<Longrightarrow> frames ?q h = frames p h"
    using c by (auto simp: create_coroutine_def)
  have nin: "fresh p \<notin> set (S q')" if "in_range ?q q'" for q'
    using others_chain_dom [OF O that [unfolded q(4)]] fresh_frame [OF bnd, of "fresh p"] by blast
  have nomsg: "msg_task m \<noteq> Some (fresh p)" if "objs ?q b = Some (MsgTask m)" for b m
    using parkedD(1) [OF others_parked [OF O] that [unfolded q(1)], of "fresh p"]
      fresh_frame [OF bnd, of "fresh p"] by auto
  have h0: "handled S S a p ?q"
    unfolding handled_def
  proof (intro conjI allI impI)
    fix q' h assume r: "in_range p q'" and h: "h \<in> set (S q')"
    then show "frames ?q h = frames p h" using nin q(4,7) by metis
  qed (use q in simp_all)
  obtain p' where "enqueue t \<lparr>task_handle = Some (fresh p)\<rparr> ?q = Inr p'"
    "well_formed (S((t, length (loops ?q t)) := [fresh p])) p'"
    "handled S (S((t, length (loops ?q t)) := [fresh p])) a ?q p'" "objs p' = objs ?q" "env p' = env ?q"
    by (rule enqueue_done [OF W1 q(5) parked_new_frame, where t = t and a = a]) (use nin nomsg in blast)+
  then show ?thesis using that q handled_trans [OF h0] by metis
qed

lemma invoke_with_conn_cases:
  obtains e where "invoke_with_conn L cl t f conn p = Inl e" and "ring_fault e"
  | l tk p1 s shell where "create_coroutine l p = (tk, p1)"
    and "invoke_with_conn L cl t f conn p = Inr (tk, shell, p1\<lparr>env := s\<rparr>)"
proof (cases f)
  case None
  then show thesis by (intro that(1) [of BadFunctionCall]) (simp_all add: invoke_with_conn_def ring_fault_def)
next
  case (Some g)
  obtain tk p1 where c: "create_coroutine (call_func cl g conn) p = (tk, p1)" by fastforce
  have eq: "invoke_with_conn L cl t f conn p =
      bind_res (on_env (drop_shells L t (hops cl) (snd (TcpConnection_move_ctor conn))) p1)
        (\<lambda>p2. Inr (tk, snd (TcpConnection_move_ctor conn), p2))"
    using Some c by (simp add: invoke_with_conn_def split_beta)
  show thesis
  proof (cases "on_env (drop_shells L t (hops cl) (snd (TcpConnection_move_ctor conn))) p1")
    case (Inl e)
    then have "e = NullSqe" by (auto simp: on_env_Inl dest: drop_shells_fault)
    then show thesis using that(1) [of e] eq Inl by (simp add: ring_fault_def)
  next
    case (Inr p2)
    then obtain s where "p2 = p1\<lparr>env := s\<rparr>" by (auto simp: on_env_Inr)
    then show thesis using that(2) [OF c] eq Inr by simp
  qed
qed

text \<open>Destroying a connection changes only the rings.\<close>

lemma destroy_conn_cases:
  obtains "on_env (\<lambda>s. bind_res (TcpConnection_dtor L t c s) (\<lambda>(c', s'). Inr s')) p = Inl NullSqe"
  | s where "on_env (\<lambda>s. bind_res (TcpConnection_dtor L t c s) (\<lambda>(c', s'). Inr s')) p = Inr (p\<lparr>env := s\<rparr>)"
proof (cases "TcpConnection_dtor L t c (env p)")
  case (Inl e)
  then show thesis using that(1) TcpConnection_dtor_fault [OF Inl] by (simp add: on_env_def)
next
  case (Inr x)
  then show thesis using that(2) by (simp add: on_env_def split_beta)
qed

lemma macc_spawn_done:
  "well_formed S p \<Longrightarrow> event_done S a p (macc_spawn L cl t f fds p)"
proof (induction fds arbitrary: S p)
  case Nil
  then show ?case by (auto simp: event_done_def)
next
  case (Cons fd fds)
  show ?case
  proof (cases rule: invoke_with_conn_cases [of L cl t f "TcpConnection_ctor fd" p])
    case (1 e)
    then show ?thesis by (simp add: event_done_def)
  next
    case (2 l tk p1 s tmp)
    show ?thesis
    proof (cases rule: destroy_conn_cases [of L t tmp "p1\<lparr>env := s\<rparr>"])
      case 1
      then show ?thesis using 2 by (simp add: event_done_def ring_fault_def)
    next
      case (2 s')
      note inv = \<open>invoke_with_conn L cl t f (TcpConnection_ctor fd) p = Inr (tk, tmp, p1\<lparr>env := s\<rparr>)\<close>
      obtain S' p' where p': "enqueue t tk (p1\<lparr>env := s'\<rparr>) = Inr p'" "well_formed S' p'" "handled S S' a p p'"
        using spawn_done [OF Cons.prems \<open>create_coroutine l p = (tk, p1)\<close>] by metis
      then have "macc_spawn L cl t f (fd # fds) p = macc_spawn L cl t f fds p'" using inv 2 by simp
      moreover have "event_done S' a p' (macc_spawn L cl t f fds p')" by (rule Cons.IH [OF p'(2)])
      ultimately show ?thesis
        using handled_trans [OF p'(3)] by (auto simp: event_done_def split: sum.splits)
    qed
  qed
qed

lemma handled_fresh_token:
  assumes "well_formed S p"
  shows "handled S S a p (p\<lparr>objs := (objs p)(fresh p \<mapsto> Token tk), fresh := Suc (fresh p), env := s\<rparr>)"
  using fresh_obj [OF others_bounded [OF assms [unfolded well_formed_def]], of "fresh p"]
  by (auto simp: handled_def)

lemma impl_handle_msg_conn_done:
  assumes W: "well_formed S p" and a: "cqe_data c \<noteq> multishot_token"
    and m: "objs p (cqe_data c) = Some (ConnHelper m)"
  shows "event_done S (cqe_data c) p (impl_handle_msg_conn L cl t c p)"
proof -
  let ?a = "cqe_data c" and ?fd = "direct_fd m"
  let ?conn = "set_subring_socket (direct_map_index ?fd (ring_at (delete_obj ?a p) t)) (TcpConnection_ctor (- 1))"
  obtain s where s: "on_ring t (\<lambda>u. Inr (u\<lparr>direct_map := (direct_map u)(?fd := None)\<rparr>)) (delete_obj ?a p)
      = Inr ((delete_obj ?a p)\<lparr>env := s\<rparr>)" by simp
  let ?p2 = "(delete_obj ?a p)\<lparr>env := s\<rparr>"
  have W2: "well_formed S ?p2" using well_formed_delete [OF W a] m by simp
  have h2: "handled S S ?a p ?p2" using a by simp
  have eq: "impl_handle_msg_conn L cl t c p =
      bind_res (invoke_with_conn L cl t (helper_func m) ?conn ?p2) (\<lambda>(tk, conn', p3).
        bind_res (enqueue t tk p3) (\<lambda>p4.
        bind_res (notify_main_ring_release_fd L t ?fd p4) (\<lambda>p5.
        on_env (\<lambda>s. bind_res (TcpConnection_dtor L t conn' s) (\<lambda>(c', s'). Inr s')) p5)))"
    using m s by (simp add: impl_handle_msg_conn_def conn_helper_at_def ConnTaskHelper_move_out_def Let_def)
  have "event_done S ?a ?p2 (impl_handle_msg_conn L cl t c p)"
  proof (cases rule: invoke_with_conn_cases [of L cl t "helper_func m" ?conn ?p2])
    case (1 e)
    then show ?thesis using eq by (simp add: event_done_def)
  next
    case (2 l tk p1 s' conn')
    obtain S' p4 where p4: "enqueue t tk (p1\<lparr>env := s'\<rparr>) = Inr p4" "well_formed S' p4"
      "handled S S' ?a ?p2 p4"
      using spawn_done [OF W2 2(1)] by metis
    show ?thesis
    proof (cases rule: notify_main_ring_release_fd_cases [of L t ?fd p4])
      case 1
      then show ?thesis using eq 2 p4 by (simp add: event_done_def ring_fault_def)
    next
      case (2 s'')
      note nt = this
      let ?p5 = "p4\<lparr>objs := (objs p4)(fresh p4 \<mapsto> Token (control_token Op_MainRingCloseDirectSocket)),
        fresh := Suc (fresh p4), env := s''\<rparr>"
      have W5: "well_formed S' ?p5" using well_formed_alloc_token [OF p4(2)] by simp
      have h5: "handled S S' ?a ?p2 ?p5" by (rule handled_trans [OF p4(3) handled_fresh_token [OF p4(2)]])
      have eq': "impl_handle_msg_conn L cl t c p =
          on_env (\<lambda>s. bind_res (TcpConnection_dtor L t conn' s) (\<lambda>(c', s'). Inr s')) ?p5"
        using eq \<open>invoke_with_conn L cl t (helper_func m) ?conn ?p2 = _\<close> p4(1) nt by simp
      show ?thesis
      proof (cases rule: destroy_conn_cases [of L t conn' ?p5])
        case 1
        then show ?thesis using eq' by (simp add: event_done_def ring_fault_def)
      next
        case (2 s3)
        show ?thesis unfolding eq' 2 by (rule event_doneI [OF W5 h5])
      qed
    qed
  qed
  then show ?thesis by (rule event_done_trans [OF h2])
qed

lemma handle_msg_task_done:
  assumes W: "well_formed S p" and a: "cqe_data c \<noteq> multishot_token"
    and m: "objs p (cqe_data c) = Some (MsgTask m)" "msg_task m = Some h"
  shows "\<exists>p' S'. bind_res (enqueue t \<lparr>task_handle = Some h\<rparr>
        (p\<lparr>objs := (objs p)(cqe_data c \<mapsto> MsgTask (m\<lparr>msg_task := None\<rparr>))\<rparr>))
        (\<lambda>p1. Inr (delete_obj (cqe_data c) p1)) = Inr p' \<and> well_formed S' p' \<and>
      handled S S' (cqe_data c) p p' \<and> S' (t, length (loops p t)) = [h] \<and>
      in_range p' (t, length (loops p t)) \<and> env p' = env p"
proof -
  let ?a = "cqe_data c" let ?p0 = "p\<lparr>objs := (objs p)(?a \<mapsto> MsgTask (m\<lparr>msg_task := None\<rparr>))\<rparr>"
  let ?n = "(t, length (loops p t))"
  note pd = parkedD [OF others_parked [OF W [unfolded well_formed_def]] m]
  obtain f where f: "frames p h = Some f" "parked_frame f" using pd(1) by blast
  have W0: "well_formed S ?p0"
    by (rule well_formed_objs [OF W]) (use a m in \<open>auto split: if_splits\<close>)
  obtain p1 where p1: "enqueue t \<lparr>task_handle = Some h\<rparr> ?p0 = Inr p1"
    "well_formed (S(?n := [h])) p1" "handled S (S(?n := [h])) ?a ?p0 p1" "objs p1 = objs ?p0"
    "env p1 = env ?p0"
    by (rule enqueue_done [OF W0, where t = t and a = ?a and h = h and f = f])
      (use f pd(2,3) in \<open>auto split: if_splits\<close>)
  have W1: "well_formed (S(?n := [h])) (delete_obj ?a p1)"
    by (rule well_formed_delete [OF p1(2) a]) (simp add: p1(4))
  have "handled S S ?a p ?p0" using a by (simp add: handled_def)
  then have "handled S (S(?n := [h])) ?a p (delete_obj ?a p1)"
    using handled_trans [OF handled_trans [OF _ p1(3)] handled_delete [OF a]] by blast
  moreover have "in_range (delete_obj ?a p1) ?n"
    using p1(1) f by (auto simp: enqueue_eq delete_obj_def in_range_def)
  ultimately show ?thesis using p1 W1
    by (intro exI [of _ "delete_obj ?a p1"] exI [of _ "S(?n := [h])"] conjI) (simp_all add: delete_obj_def)
qed

theorem handle_request_done:
  assumes W: "well_formed S p" and ev: "event_ok p c"
  shows "event_done S (cqe_data c) p (handle_request L cl t c p)"
proof -
  consider (task) "is_msg RingTask c" | (func) "\<not> is_msg RingTask c" "is_msg RingFuncTask c"
    | (macc) "\<not> is_msg RingTask c" "\<not> is_msg RingFuncTask c" "is_msg MultiAccTask c"
    | (null) "\<not> is_msg RingTask c" "\<not> is_msg RingFuncTask c" "\<not> is_msg MultiAccTask c" "cqe_data c = nullptr"
    | (tok) "\<not> is_msg RingTask c" "\<not> is_msg RingFuncTask c" "\<not> is_msg MultiAccTask c" "cqe_data c \<noteq> nullptr"
    by blast
  then show ?thesis
  proof cases
    case task
    then obtain m h where m: "objs p (cqe_data c) = Some (MsgTask m)" "msg_task m = Some h"
      and a: "cqe_data c \<noteq> multishot_token"
      using ev by (auto simp: event_ok_def message_address_def)
    obtain p' S' where "bind_res (enqueue t \<lparr>task_handle = Some h\<rparr>
        (p\<lparr>objs := (objs p)(cqe_data c \<mapsto> MsgTask (m\<lparr>msg_task := None\<rparr>))\<rparr>))
        (\<lambda>p1. Inr (delete_obj (cqe_data c) p1)) = Inr p'"
      "well_formed S' p'" "handled S S' (cqe_data c) p p'"
      using handle_msg_task_done [OF W a m, of t] by blast
    then show ?thesis
      using task m by (auto simp: handle_request_def msg_task_at_def RingMsgTask_move_out_def event_done_def)
  next
    case func
    then obtain m where "objs p (cqe_data c) = Some (ConnHelper m)" "cqe_data c \<noteq> multishot_token"
      using ev by (auto simp: event_ok_def message_address_def)
    then show ?thesis using func impl_handle_msg_conn_done [OF W] by (simp add: handle_request_def)
  next
    case macc
    then obtain m where m: "objs p (cqe_data c) = Some (MAccTask m)" and a: "cqe_data c \<noteq> multishot_token"
      using ev by (auto simp: event_ok_def message_address_def)
    have W1: "well_formed S (delete_obj (cqe_data c) p)" using well_formed_delete [OF W a] m by simp
    have "event_done S (cqe_data c) p (impl_handle_macc_task L cl t c p)"
      using event_done_trans [OF handled_delete [OF a] macc_spawn_done [OF W1]] m
      by (simp add: impl_handle_macc_task_def macc_task_at_def MAccTaskToken_move_out_def Let_def)
    then show ?thesis using macc by (simp add: handle_request_def)
  next
    case null
    then show ?thesis using W by (auto simp: handle_request_def event_done_def)
  next
    case tok
    then obtain tk where tk: "objs p (cqe_data c) = Some (Token tk)"
      "cqe_data c = multishot_token \<longleftrightarrow> tok_op tk = Op_MultishotAccept"
      "default_op (tok_op tk) \<or> tok_op tk = Op_MultishotAccept \<Longrightarrow> \<exists>q. chain_task tk = Some q \<and> in_range p q"
      using ev by (auto simp: event_ok_def)
    then show ?thesis
      using tok handle_token_done [OF W tk] by (simp add: handle_request_def token_at_def)
  qed
qed

end
