(* ===== verification/Ring_Effects.thy ===== *)
theory Ring_Effects
  imports Ring_Safety
begin

text \<open>
  What handling completions does to the rings of all threads: a relation between rings that every
  primitive operation on a ring satisfies holds, for every ring, between the states before and after a
  handler, and nothing outside the rings changes.
\<close>

lemma submit_all_cq [simp]: "cq (submit_all L u) = cq u"
  by (simp add: submit_all_def Let_def)

locale ring_effects =
  fixes R :: "uring \<Rightarrow> uring \<Rightarrow> bool"
  assumes refl: "R u u"
    and trans: "R u v \<Longrightarrow> R v w \<Longrightarrow> R u w"
    and get_sqe: "get_sqe L u = (i, u') \<Longrightarrow> R u u'"
    and at_sqe: "at_sqe i f u = Inr u' \<Longrightarrow> R u u'"
    and submit_all: "R u (submit_all L u)"
    and direct_map: "R u (u\<lparr>direct_map := m\<rparr>)"
    and awaiting: "R u (u\<lparr>awaiting_direct_fd := fds\<rparr>)"
    and stop: "R u (u\<lparr>ring_stopped := True\<rparr>)"
begin

definition effect :: "sys_env \<Rightarrow> sys_env \<Rightarrow> bool" where
  "effect s s' \<longleftrightarrow> (\<exists>rs. s' = s\<lparr>rings := rs\<rparr> \<and> (\<forall>k. R (rings s k) (rs k)))"

declare refl [simp] direct_map [simp] awaiting [simp] stop [simp]

lemma effect_refl [simp]: "effect s s"
  unfolding effect_def by (rule exI [of _ "rings s"], rule conjI) simp_all

lemma effect_trans:
  assumes "effect s s'" and "effect s' s''"
  shows "effect s s''"
proof -
  obtain rs where rs: "s' = s\<lparr>rings := rs\<rparr>" "\<And>k. R (rings s k) (rs k)"
    using assms(1) by (auto simp: effect_def)
  obtain rs' where rs': "s'' = s'\<lparr>rings := rs'\<rparr>" "\<And>k. R (rings s' k) (rs' k)"
    using assms(2) by (auto simp: effect_def)
  have "s'' = s\<lparr>rings := rs'\<rparr>" unfolding rs'(1) rs(1) by simp
  moreover have "R (rings s k) (rs' k)" for k
    using trans [OF rs(2) [of k]] rs'(2) [of k] by (simp add: rs(1))
  ultimately show ?thesis unfolding effect_def by blast
qed

lemma set_ring_effect [simp]: "R (rings s t) u \<Longrightarrow> effect s (s\<lparr>rings := (rings s)(t := u)\<rparr>)"
  unfolding effect_def by (rule exI [of _ "(rings s)(t := u)"], rule conjI) simp_all

lemma upd_ring_effect:
  assumes "upd_ring t f s = Inr s'" and "\<And>u. f (rings s t) = Inr u \<Longrightarrow> R (rings s t) u"
  shows "effect s s'"
  using assms by (auto simp: upd_ring_def bind_res_eq_Inr)

lemma on_ring_effect:
  assumes "on_ring t f p = Inr p'" and "\<And>u. f (rings (env p) t) = Inr u \<Longrightarrow> R (rings (env p) t) u"
  shows "effect (env p) (env p')"
  using assms by (auto simp: on_ring_def on_env_Inr intro: upd_ring_effect)

text \<open>Asking for an entry, writing through the pointer twice, and submitting.\<close>

lemma submit_one:
  assumes "(let (i, u1) = get_sqe L u in
      bind_res (at_sqe i f u1) (\<lambda>u2. bind_res (at_sqe i g u2) (\<lambda>u3. Inr (submit_all L u3)))) = Inr u'"
  shows "R u u'"
proof -
  obtain i u1 where 1: "get_sqe L u = (i, u1)" by fastforce
  then obtain u2 u3 where "at_sqe i f u1 = Inr u2" "at_sqe i g u2 = Inr u3" "u' = submit_all L u3"
    using assms by (auto simp: bind_res_eq_Inr)
  then show ?thesis using get_sqe [OF 1] at_sqe submit_all trans by metis
qed

lemma close_effect: "close_direct_socket L fd u = Inr u' \<Longrightarrow> R u u'"
  unfolding close_direct_socket_def by (rule submit_one)

lemma dtor_effect: "TcpConnection_dtor L t c s = Inr (c', s') \<Longrightarrow> effect s s'"
  by (auto simp: TcpConnection_dtor_def bind_res_eq_Inr split: if_splits
      dest!: upd_ring_effect intro: close_effect)

lemma drop_shells_effect: "drop_shells L t n c s = Inr s' \<Longrightarrow> effect s s'"
proof (induction n arbitrary: c s)
  case (Suc n)
  then obtain c' s1 where 1: "TcpConnection_dtor L t c s = Inr (c', s1)" and 2: "drop_shells L t n c s1 = Inr s'"
    by (auto simp: bind_res_eq_Inr)
  show ?case by (rule effect_trans [OF dtor_effect [OF 1] Suc.IH [OF 2]])
qed simp

lemma invoke_effect: "invoke_with_conn L cl t f c p = Inr (tk, sh, p') \<Longrightarrow> effect (env p) (env p')"
  by (auto simp: invoke_with_conn_def bind_res_eq_Inr on_env_Inr create_coroutine_def
      split: option.splits prod.splits dest: drop_shells_effect)

lemma enqueue_effect: "enqueue t tk p = Inr p' \<Longrightarrow> env p' = env p"
  by (auto simp: enqueue_def Let_def upd_promise_def split: option.splits)

lemma destroy_conn_effect:
  "on_env (\<lambda>s. bind_res (TcpConnection_dtor L t c s) (\<lambda>(c', s'). Inr s')) p = Inr p'
   \<Longrightarrow> effect (env p) (env p')"
  by (auto simp: on_env_Inr bind_res_eq_Inr split: prod.splits dest: dtor_effect)

lemma macc_spawn_effect: "macc_spawn L cl t f fds p = Inr p' \<Longrightarrow> effect (env p) (env p')"
proof (induction fds arbitrary: p)
  case (Cons fd fds)
  then obtain tk tmp p1 p2 p3 where
    1: "invoke_with_conn L cl t f (TcpConnection_ctor fd) p = Inr (tk, tmp, p1)"
    and 2: "on_env (\<lambda>s. bind_res (TcpConnection_dtor L t tmp s) (\<lambda>(c', s'). Inr s')) p1 = Inr p2"
    and 3: "enqueue t tk p2 = Inr p3" and 4: "macc_spawn L cl t f fds p3 = Inr p'"
    by (auto simp: bind_res_eq_Inr)
  show ?case
    using effect_trans [OF invoke_effect [OF 1] destroy_conn_effect [OF 2]] enqueue_effect [OF 3]
      Cons.IH [OF 4] effect_trans by fastforce
qed simp

lemma notify_main_effect:
  assumes "notify_main_ring_release_fd L t fd p = Inr p'"
  shows "effect (env p) (env p')"
proof -
  have on: "on_ring t (\<lambda>u.
        let (i, u1) = get_sqe L u in
        bind_res (at_sqe i (prep L (PrepMsgRing (sys_ring_fd (env p)) fd (fresh p))) u1) (\<lambda>u2.
        bind_res (at_sqe i (or_flags IOSQE_CQE_SKIP_SUCCESS) u2) (\<lambda>u3.
        Inr (submit_all L u3))))
      (snd (alloc_obj (Token (control_token Op_MainRingCloseDirectSocket)) p)) = Inr p'"
    using assms by (simp add: notify_main_ring_release_fd_def alloc_obj_def)
  have "effect (env (snd (alloc_obj (Token (control_token Op_MainRingCloseDirectSocket)) p))) (env p')"
    by (rule on_ring_effect [OF on]) (rule submit_one)
  then show ?thesis by (simp add: alloc_obj_def)
qed

lemma msg_conn_effect:
  assumes "impl_handle_msg_conn L cl t c p = Inr p'"
  shows "effect (env p) (env p')"
proof -
  obtain fd task p2 conn tk conn' p3 p4 p5 where
    2: "on_ring t (\<lambda>u. Inr (u\<lparr>direct_map := (direct_map u)(fd := None)\<rparr>)) (delete_obj (cqe_data c) p) = Inr p2"
    and 3: "invoke_with_conn L cl t task conn p2 = Inr (tk, conn', p3)"
    and 4: "enqueue t tk p3 = Inr p4"
    and 5: "notify_main_ring_release_fd L t fd p4 = Inr p5"
    and 6: "on_env (\<lambda>s. bind_res (TcpConnection_dtor L t conn' s) (\<lambda>(c', s'). Inr s')) p5 = Inr p'"
    using assms by (auto simp: impl_handle_msg_conn_def Let_def ConnTaskHelper_move_out_def bind_res_eq_Inr
        simp del: on_ring_pure)
  have "effect (env p) (env p2)"
    using on_ring_effect [OF 2] direct_map by (simp add: delete_obj_def)
  then show ?thesis
    using invoke_effect [OF 3] enqueue_effect [OF 4] notify_main_effect [OF 5] destroy_conn_effect [OF 6]
      effect_trans by metis
qed

lemma wake_effect: "wake q p = Inr p' \<Longrightarrow> env p' = env p"
  by (auto simp: wake_def bind_res_eq_Inr upd_task_def Let_def split: if_splits)

lemma push_effect: "push_awaiting t r p = Inr p' \<Longrightarrow> effect (env p) (env p')"
  by (auto simp: push_awaiting_def split: if_splits)

lemma handle_token_effect:
  assumes h: "handle_token L t c tk p = Inr p'"
  shows "effect (env p) (env p')"
proof -
  have cl: "effect (env p) (env p1)" if "on_ring t (close_direct_socket L r) p = Inr p1" for r p1
    by (rule on_ring_effect [OF that close_effect])
  show ?thesis
    using h cl
    by (cases "tok_op tk")
      (auto simp: handle_token_def Let_def bind_res_eq_Inr delete_obj_def
        dest!: wake_effect push_effect)
qed

lemma handle_request_effect: "handle_request L cl t c p = Inr p' \<Longrightarrow> effect (env p) (env p')"
  by (auto simp: handle_request_def bind_res_eq_Inr RingMsgTask_move_out_def impl_handle_macc_task_def
      MAccTaskToken_move_out_def Let_def delete_obj_def split: if_splits
      dest!: msg_conn_effect handle_token_effect enqueue_effect macc_spawn_effect)

lemma while_running_effect: "handle_while_running L cl t cs p = Inr p' \<Longrightarrow> effect (env p) (env p')"
proof (induction cs arbitrary: p)
  case (Cons c cs)
  then show ?case
    by (auto simp: bind_res_eq_Inr split: if_splits dest!: handle_request_effect intro: effect_trans)
qed simp

lemma handle_each_effect: "handle_each L cl t cs p = Inr p' \<Longrightarrow> effect (env p) (env p')"
proof (induction cs arbitrary: p)
  case (Cons c cs)
  then show ?case by (auto simp: bind_res_eq_Inr dest!: handle_request_effect intro: effect_trans)
qed simp

end

section \<open>What no handler changes\<close>

text \<open>
  The completion queues and the descriptors stay, a stopped ring stays stopped, and what has been
  submitted only becomes longer.
\<close>

definition ring_advances :: "uring \<Rightarrow> uring \<Rightarrow> bool" where
  "ring_advances u u' \<longleftrightarrow> cq u' = cq u \<and> ring_fd u' = ring_fd u \<and> (ring_stopped u \<longrightarrow> ring_stopped u') \<and>
     (\<exists>es. submitted u' = submitted u @ es)"

interpretation ring_adv: ring_effects ring_advances
proof unfold_locales
  show "ring_advances u u'" if "get_sqe L u = (i, u')" for L u i u'
    using that by (auto simp: get_sqe_def ring_advances_def split: if_splits)
  show "ring_advances u u'" if "at_sqe i f u = Inr u'" for i f u u'
    using that by (cases i) (auto simp: ring_advances_def)
qed (auto simp: ring_advances_def submit_all_def Let_def)

end
