(* ===== verification/Ring_Batch.thy ===== *)
theory Ring_Batch
  imports Ring_Effects
begin

text \<open>
  Whole batches of completions: handling them keeps the invariant of the coroutine layer, takes at
  most \<open>URING_PEEK_CQES_BATCH\<close> completions from the queue, and stops at a quit message.
\<close>

section \<open>The invariant over a batch\<close>

text \<open>
  All completions of a batch point to live objects, and no two of them to the same one: a token
  completes once, except for the static one of the multishot accept.
\<close>

definition single_use :: "cqe list \<Rightarrow> address list" where
  "single_use cs = filter message_address (map cqe_data cs)"

definition events_ok :: "('l, 'v, 'f) world \<Rightarrow> cqe list \<Rightarrow> bool" where
  "events_ok p cs \<longleftrightarrow> (\<forall>c \<in> set cs. event_ok p c) \<and> distinct (single_use cs)"

definition undisturbed :: "chains \<Rightarrow> chains \<Rightarrow> ('l, 'v, 'f) world \<Rightarrow> ('l, 'v, 'f) world \<Rightarrow> bool" where
  "undisturbed S S' p p' \<longleftrightarrow>
     (\<forall>q. in_range p q \<longrightarrow> in_range p' q \<and> S' q = S q \<and> (\<exists>b. task_at p' q = (task_at p q)\<lparr>pending := b\<rparr>)) \<and>
     (\<forall>q h. in_range p q \<longrightarrow> h \<in> set (S q) \<longrightarrow> frames p' h = frames p h)"

definition batch_ok :: "chains \<Rightarrow> ('l, 'v, 'f) world \<Rightarrow> ('l, 'v, 'f) world res \<Rightarrow> bool" where
  "batch_ok S p r =
     (case r of Inl e \<Rightarrow> ring_fault e | Inr p' \<Rightarrow> \<exists>S'. well_formed S' p' \<and> undisturbed S S' p p')"

lemma undisturbed_refl [simp]: "undisturbed S S p p"
  by (simp add: undisturbed_def)

lemma undisturbed_env [simp]: "undisturbed S S' p (p'\<lparr>env := s\<rparr>) = undisturbed S S' p p'"
  by (simp add: undisturbed_def)

lemma handled_undisturbed: "handled S S' a p p' \<Longrightarrow> undisturbed S S' p p'"
  by (simp add: handled_def undisturbed_def)

lemma undisturbed_trans:
  assumes A: "undisturbed S S' p p'" and B: "undisturbed S' S'' p' p''"
  shows "undisturbed S S'' p p''"
proof -
  have h: "handled S S' nullptr (p\<lparr>objs := Map.empty\<rparr>) (p'\<lparr>objs := Map.empty\<rparr>)"
    using A by (simp add: handled_def undisturbed_def)
  have "handled S' S'' nullptr (p'\<lparr>objs := Map.empty\<rparr>) (p''\<lparr>objs := Map.empty\<rparr>)"
    using B by (simp add: handled_def undisturbed_def)
  from handled_undisturbed [OF handled_trans [OF h this]] show ?thesis by (simp add: undisturbed_def)
qed

lemma batch_ok_trans:
  assumes "undisturbed S S' p p'" and "batch_ok S' p' r"
  shows "batch_ok S p r"
  using assms undisturbed_trans [OF assms(1)] by (auto simp: batch_ok_def split: sum.splits)

lemma events_ok_step:
  assumes ok: "events_ok p (c # cs)" and h: "handled S S' (cqe_data c) p p'"
  shows "events_ok p' cs"
proof -
  have "event_ok p' c'" if c': "c' \<in> set cs" for c'
  proof (rule event_ok_handled [OF _ h])
    show "event_ok p c'" using ok c' by (simp add: events_ok_def)
    show "cqe_data c' \<noteq> cqe_data c \<or> cqe_data c = multishot_token \<or> cqe_data c = nullptr"
      using ok imageI [OF c', of cqe_data]
      by (auto simp: events_ok_def single_use_def message_address_def split: if_splits)
  qed
  then show ?thesis using ok by (auto simp: events_ok_def single_use_def split: if_splits)
qed

lemma handle_while_running_ok:
  "well_formed S p \<Longrightarrow> events_ok p cs \<Longrightarrow> batch_ok S p (handle_while_running L cl t cs p)"
proof (induction cs arbitrary: S p)
  case (Cons c cs)
  have d: "event_done S (cqe_data c) p (handle_request L cl t c p)"
    by (rule handle_request_done) (use Cons.prems in \<open>auto simp: events_ok_def\<close>)
  show ?case
  proof (cases "ring_stopped (ring_at p t)")
    case False
    show ?thesis
    proof (cases "handle_request L cl t c p")
      case (Inl e)
      then show ?thesis using d False by (simp add: event_done_def batch_ok_def)
    next
      case (Inr p1)
      then obtain S' where S': "well_formed S' p1" "handled S S' (cqe_data c) p p1"
        using d by (auto simp: event_done_def)
      have "batch_ok S' p1 (handle_while_running L cl t cs p1)"
        by (rule Cons.IH [OF S'(1) events_ok_step [OF Cons.prems(2) S'(2)]])
      then show ?thesis using batch_ok_trans [OF handled_undisturbed [OF S'(2)]] False Inr by simp
    qed
  qed (use Cons.prems in \<open>auto simp: batch_ok_def\<close>)
qed (auto simp: batch_ok_def)

lemma handle_each_ok:
  "well_formed S p \<Longrightarrow> events_ok p cs \<Longrightarrow> batch_ok S p (handle_each L cl t cs p)"
proof (induction cs arbitrary: S p)
  case (Cons c cs)
  have d: "event_done S (cqe_data c) p (handle_request L cl t c p)"
    by (rule handle_request_done) (use Cons.prems in \<open>auto simp: events_ok_def\<close>)
  show ?case
  proof (cases "handle_request L cl t c p")
    case (Inl e)
    then show ?thesis using d by (simp add: event_done_def batch_ok_def)
  next
    case (Inr p1)
    then obtain S' where S': "well_formed S' p1" "handled S S' (cqe_data c) p p1"
      using d by (auto simp: event_done_def)
    have "batch_ok S' p1 (handle_each L cl t cs p1)"
      by (rule Cons.IH [OF S'(1) events_ok_step [OF Cons.prems(2) S'(2)]])
    then show ?thesis using batch_ok_trans [OF handled_undisturbed [OF S'(2)]] Inr by simp
  qed
qed (auto simp: batch_ok_def)

lemma batch_ok_noexcept [simp]: "batch_ok S p (noexcept r) \<longleftrightarrow> batch_ok S p r"
  by (cases r) (auto simp: noexcept_def batch_ok_def ring_fault_def split: fault.splits)

lemma events_ok_take: "events_ok p cs \<Longrightarrow> events_ok p (take n cs)"
  unfolding events_ok_def single_use_def
  by (metis append_take_drop_id distinct_append filter_append in_set_takeD map_append)

lemma cancel_everything_fault: "cancel_everything L ds u = Inl e \<Longrightarrow> e = NullSqe"
  by (cases "lu_room L (sq (consume_all u))")
    (auto simp: cancel_everything_def Let_def get_sqe_def)

lemma process_batch_ok:
  assumes W: "well_formed S p" and ev: "events_ok p (cq (ring_at p t))"
  shows "batch_ok S p (process_batch L cl t during p)"
proof -
  let ?cqes = "take URING_PEEK_CQES_BATCH (cq (ring_at p t))"
  have b: "batch_ok S p (handle_while_running L cl t ?cqes p)"
    by (rule handle_while_running_ok [OF W events_ok_take [OF ev]])
  show ?thesis
  proof (cases "handle_while_running L cl t ?cqes p")
    case (Inl e)
    then show ?thesis using b by (simp add: process_batch_def)
  next
    case (Inr p1)
    then obtain S' where S': "well_formed S' p1" "undisturbed S S' p p1"
      using b by (auto simp: batch_ok_def)
    have env: "batch_ok S p (Inr (p1\<lparr>env := s\<rparr>))" for s
      unfolding batch_ok_def by (simp only: sum.case) (use S' in \<open>intro exI [of _ S'], simp\<close>)
    let ?p2 = "p1\<lparr>env := (env p1)\<lparr>rings := (rings (env p1))(t := consume (length ?cqes) (rings (env p1) t))\<rparr>\<rparr>"
    have c: "batch_ok S p (on_ring t (cancel_everything L during) ?p2)"
    proof (cases "on_ring t (cancel_everything L during) ?p2")
      case (Inl e)
      then have "e = NullSqe"
        by (auto simp: on_ring_def on_env_Inl upd_ring_def bind_res_eq_Inl dest: cancel_everything_fault)
      then show ?thesis using Inl by (simp add: batch_ok_def ring_fault_def)
    next
      case (Inr p3)
      then obtain s where "p3 = p1\<lparr>env := s\<rparr>" using on_ring_env [OF Inr] by auto
      then show ?thesis using Inr env by simp
    qed
    show ?thesis using Inr env c by (simp add: process_batch_def Let_def)
  qed
qed

lemma process_all_ok:
  assumes W: "well_formed S p" and ev: "events_ok p (cq (ring_at p t))"
  shows "batch_ok S p (process_all L cl t p)"
proof -
  have b: "batch_ok S p (handle_each L cl t (cq (ring_at p t)) p)" by (rule handle_each_ok [OF W ev])
  show ?thesis
  proof (cases "handle_each L cl t (cq (ring_at p t)) p")
    case (Inl e)
    then show ?thesis using b by (simp add: process_all_def)
  next
    case (Inr p1)
    then obtain S' where S': "well_formed S' p1" "undisturbed S S' p p1"
      using b by (auto simp: batch_ok_def)
    then have "batch_ok S p (Inr (p1\<lparr>env := s\<rparr>))" for s
      unfolding batch_ok_def by (simp only: sum.case) (intro exI [of _ S'], simp)
    then show ?thesis using Inr by (simp add: process_all_def Let_def)
  qed
qed

section \<open>What is left in the queue\<close>

lemma process_batch_queue:
  assumes "process_batch L cl t during p = Inr p'"
  shows "cq (ring_at p' t) = (if ring_stopped (ring_at p' t) then []
           else drop URING_PEEK_CQES_BATCH (cq (ring_at p t)))"
proof -
  let ?cqes = "take URING_PEEK_CQES_BATCH (cq (ring_at p t))"
  obtain p1 where p1: "handle_while_running L cl t ?cqes p = Inr p1"
    using assms by (cases "handle_while_running L cl t ?cqes p")
      (auto simp: process_batch_def noexcept_def Let_def split: fault.splits)
  let ?u = "rings (env p1) t"
  have q: "cq ?u = cq (ring_at p t)" using ring_adv.while_running_effect [OF p1] by (auto simp: ring_adv.effect_def ring_advances_def ring_at_def)
  have d: "drop (length ?cqes) (cq ?u) = drop URING_PEEK_CQES_BATCH (cq (ring_at p t))"
    unfolding q by (cases "URING_PEEK_CQES_BATCH \<le> length (cq (ring_at p t))") simp_all
  show ?thesis
  proof (cases "ring_stopped ?u")
    case False
    then show ?thesis using assms p1 d
      by (auto simp: process_batch_def Let_def noexcept_def ring_at_def consume_def)
  next
    case True
    then have "on_ring t (cancel_everything L during) (p1\<lparr>env := (env p1)\<lparr>rings := (rings (env p1))(t := consume (length ?cqes) ?u)\<rparr>\<rparr>) = Inr p'"
      using assms p1 by (auto simp: process_batch_def Let_def noexcept_def ring_at_def consume_def
          split: sum.splits fault.splits)
    then obtain u where u: "cancel_everything L during (consume (length ?cqes) ?u) = Inr u"
      and p': "ring_at p' t = u"
      by (auto simp: on_ring_def on_env_Inr upd_ring_def bind_res_eq_Inr ring_at_def)
    have "cq u = [] \<and> ring_stopped u"
      using u True by (cases "lu_room L (sq (consume_all (consume (length ?cqes) ?u)))")
        (auto simp: cancel_everything_def Let_def get_sqe_def consume_all_def consume_def arrive_def submit_all_def)
    then show ?thesis using p' by simp
  qed
qed

end
