(* ===== verification/Ring_Properties.thy ===== *)
theory Ring_Properties
  imports Ring_Batch Coroutine_Properties
begin

text \<open>
  The properties of a ring: handling a completion keeps the coroutine layer intact and hands the
  result to the coroutine that waits for it, and batches are bounded. A small process whose only task
  waits for a read is the concrete instance.
\<close>

section \<open>A process that waits for a read\<close>

definition sample_ring :: uring where
  "sample_ring = new_uring 3 \<lparr>cq_entries = 1024, wq_fd = 0, setup_flags = 0\<rparr>"

definition sample_env :: sys_env where
  "sample_env =
     \<lparr>rings = (\<lambda>t. sample_ring\<lparr>ring_fd := 3 + int t\<rparr>),
      buffers = (\<lambda>t. \<lparr>buf_count = 0, peer_ring = t, br_alive = False, br_mask = 0, br_log = [], storage = []\<rparr>),
      conns = Map.empty, uring_fds = [4, 5], current_worker_uring_idx = - 1, sys_stopped = False,
      stop_requested = (\<lambda>t. False), posix = []\<rparr>"

definition sample_waiting :: "(nat, nat, nat) world" where
  "sample_waiting =
     \<lparr>frames = [2 \<mapsto> \<lparr>promise = set_chain_root (Some (0, 0)) new_promise, costate = Suspended 9 (AwToken 3)\<rparr>],
      objs = [1 \<mapsto> Token default_token,
              3 \<mapsto> Token (default_token\<lparr>tok_op := Op_Receive, chain_task := Some (0, 0)\<rparr>)],
      fresh = 4,
      loops = (\<lambda>t. [])(0 := [\<lparr>sched_task = \<lparr>task_handle = Some 2\<rparr>, awaiting_handle = Some 2,
         valid = True, pending = True\<rparr>]),
      env = sample_env\<rparr>"

definition sample_cqe :: cqe where
  "sample_cqe = \<lparr>cqe_result = 17, cqe_fl = 0, cqe_data = 3\<rparr>"

definition sample_client :: "(nat, nat) client" where
  "sample_client = \<lparr>call_func = (\<lambda>g c. g), hops = 1\<rparr>"

lemma sample_waiting_range: "in_range sample_waiting q \<longleftrightarrow> q = (0, 0)"
  by (cases q) (auto simp: in_range_def sample_waiting_def split: if_splits)

lemma sample_waiting_wf: "well_formed (\<lambda>q. [2]) sample_waiting"
proof -
  have "bounded sample_waiting"
    by (auto simp: bounded_def sample_waiting_def multishot_token_def split: if_splits)
  moreover have "parked (\<lambda>q. [2]) sample_waiting"
    by (auto simp: parked_def sample_waiting_def split: if_splits)
  moreover have "at_rest (frames sample_waiting) (objs sample_waiting) [2] (0, 0) (task_at sample_waiting (0, 0))"
    by (simp add: at_rest_def sample_waiting_def task_at_def pr_ok_def new_promise_def set_chain_root_def
        top_ok_def aw_ok_def multishot_token_def default_op_def)
  moreover have "2 \<in> dom (frames sample_waiting)" by (simp add: sample_waiting_def)
  ultimately show ?thesis
    by (auto simp: well_formed_def others_def disjoint_chains_def sample_waiting_range)
qed

lemma sample_cqe_no_msg: "\<not> is_msg k sample_cqe"
  by (cases k) (simp_all add: is_msg_def sample_cqe_def)

lemma event_ok_env [simp]: "event_ok (p\<lparr>env := s\<rparr>) c = event_ok p c"
  by (simp add: event_ok_def)

lemma sample_event: "event_ok sample_waiting sample_cqe"
  by (auto simp: event_ok_def sample_cqe_no_msg sample_waiting_range)
    (simp_all add: sample_waiting_def sample_cqe_def default_token_def multishot_token_def)

section \<open>One completion\<close>

text \<open>
  C19. Handling one completion is memory safe. If the process is well formed and the user data of the
  completion points to a live object of the kind its message code or operation calls for, then
  handle_request can only fail on a full submission queue or on an empty function object; otherwise
  the process is well formed again, every task keeps everything but its pending flag, every frame of
  every chain is untouched, and every object other than the one the completion names is still there.
\<close>

theorem handle_request_safe:
  assumes "well_formed S p" and "event_ok p c"
  shows "case handle_request L cl t c p of
      Inl e \<Rightarrow> e = NullSqe \<or> e = BadFunctionCall
    | Inr p' \<Rightarrow> \<exists>S'. well_formed S' p' \<and>
        (\<forall>q. in_range p q \<longrightarrow> in_range p' q \<and> S' q = S q \<and>
          (\<exists>b. task_at p' q = (task_at p q)\<lparr>pending := b\<rparr>) \<and>
          (\<forall>h \<in> set (S q). frames p' h = frames p h)) \<and>
        (\<forall>a ob. objs p a = Some ob \<longrightarrow> a \<noteq> cqe_data c \<longrightarrow> objs p' a = Some ob)"
  using handle_request_done [OF assms, of L cl t]
  by (fastforce simp: event_done_def ring_fault_def handled_def split: sum.splits)

lemma handle_request_safe_witness:
  "case handle_request (documented_liburing 128) sample_client 0 sample_cqe sample_waiting of
      Inl e \<Rightarrow> e = NullSqe \<or> e = BadFunctionCall
    | Inr p' \<Rightarrow> in_range p' (0, 0) \<and> frames p' 2 = frames sample_waiting 2"
  using handle_request_safe [OF sample_waiting_wf sample_event, of "documented_liburing 128" sample_client 0]
  by (auto simp: sample_waiting_range split: sum.splits)

text \<open>
  C13. The result of a completion reaches the coroutine that awaits it. If the coroutine at the top of
  the chain of task q is suspended at l on the token at address a, and a completion with that user
  data arrives that is not a message between rings, then handling it succeeds and clears the task's
  pending flag, the task's next resume enters exactly that coroutine, and the coroutine goes on at l
  with exactly the result and the flags of the completion; its token is gone with the awaiter.
\<close>

theorem completion_resumes_awaiter:
  assumes W: "well_formed S p" and q: "in_range p q" "valid (task_at p q)"
    and f: "frames p (last (S q)) = Some f" "costate f = Suspended l (AwToken a)"
    and c: "cqe_data c = a" "a \<noteq> nullptr" "\<not> is_msg RingTask c" "\<not> is_msg RingFuncTask c" "\<not> is_msg MultiAccTask c"
  shows "\<exists>p' p''. handle_request L cl t c p = Inr p' \<and> runnable (task_at p' q) \<and>
    awaiting_handle (task_at p' q) = Some (last (S q)) \<and>
    cstep code (fst q) (Enter (last (S q))) p' =
      Inr (Exec (last (S q)) l (RCqe (cqe_result c) (cqe_fl c)), p'') \<and>
    frames p'' (last (S q)) = Some (f\<lparr>costate := Running\<rparr>) \<and> objs p'' a = None"
proof -
  have rest: "at_rest (frames p) (objs p) (S q) q (task_at p q)" by (rule wf_task [OF W q(1)])
  then have aw: "awaiting_handle (task_at p q) = Some (last (S q))" and "aw_ok (objs p) q (AwToken a)"
    using q(2) f by (auto simp: at_rest_def top_ok_def)
  then obtain tk where tk: "objs p a = Some (Token tk)" "chain_task tk = Some q" "default_op (tok_op tk)"
    and ms: "a \<noteq> multishot_token"
    by (auto simp: aw_ok_def)
  let ?tk = "tk\<lparr>cqe_res := cqe_result c, cqe_flags := cqe_fl c\<rparr>"
  let ?p = "p\<lparr>objs := (objs p)(a \<mapsto> Token ?tk)\<rparr>"
  have W1: "well_formed S ?p" by (rule well_formed_token [OF W tk(1)]) simp_all
  have r: "in_range ?p q" using q by simp
  obtain p' where p': "wake (Some q) ?p = Inr p'" "objs p' = objs ?p" "frames p' = frames ?p"
    and T: "\<And>q'. task_at p' q' = (if q' = q then set_pending False (task_at ?p q) else task_at ?p q')"
    by (rule wake_ok [OF W1 r]) auto
  have h: "handle_request L cl t c p = Inr p'"
    using c tk p'(1) by (cases "tok_op tk")
      (simp_all add: handle_request_def token_at_def handle_token_def default_op_def)
  let ?p'' = "(delete_obj a (p'\<lparr>frames := (frames p)(last (S q) \<mapsto> f\<lparr>costate := Running\<rparr>)\<rparr>))"
  have "cstep code (fst q) (Enter (last (S q))) p' =
      Inr (Exec (last (S q)) l (RCqe (cqe_result c) (cqe_fl c)), ?p'')"
    using f p' by (simp add: cstep_def enter_def set_costate_def await_resume_def
        UringAwaiter_await_resume_def token_at_def)
  then show ?thesis
    using h T [of q] aw q(2) by (intro exI [of _ p'] exI [of _ ?p'']) (simp add: runnable_def set_pending_def delete_obj_def)
qed

lemma completion_resumes_awaiter_witness:
  "\<exists>p' p''. handle_request (documented_liburing 128) sample_client 0 sample_cqe sample_waiting = Inr p' \<and>
     runnable (task_at p' (0, 0)) \<and>
     cstep (\<lambda>l inp. CoReturn 0) 0 (Enter 2) p' = Inr (Exec 2 9 (RCqe 17 0), p'')"
proof -
  have "valid (task_at sample_waiting (0, 0))" by (simp add: sample_waiting_def task_at_def)
  moreover have "frames sample_waiting (last [2]) =
      Some \<lparr>promise = set_chain_root (Some (0, 0)) new_promise, costate = Suspended 9 (AwToken 3)\<rparr>"
    by (simp add: sample_waiting_def)
  ultimately show ?thesis
    using completion_resumes_awaiter [OF sample_waiting_wf, of "(0, 0)"
        "\<lparr>promise = set_chain_root (Some (0, 0)) new_promise, costate = Suspended 9 (AwToken 3)\<rparr>" 9 3 sample_cqe
        "documented_liburing 128" sample_client 0 "\<lambda>l inp. CoReturn 0"]
    by (auto simp: sample_waiting_range sample_cqe_no_msg) (auto simp: sample_cqe_def nullptr_def)
qed

section \<open>Batches\<close>


definition sample_arrived :: "(nat, nat, nat) world" where
  "sample_arrived = sample_waiting\<lparr>env := sample_env\<lparr>rings := (rings sample_env)(0 := sample_ring\<lparr>cq := [sample_cqe]\<rparr>)\<rparr>\<rparr>"

lemma sample_arrived_wf: "well_formed (\<lambda>q. [2]) sample_arrived"
  using sample_waiting_wf by (simp add: sample_arrived_def)

lemma sample_arrived_cq: "cq (ring_at sample_arrived 0) = [sample_cqe]"
  by (simp add: sample_arrived_def ring_at_def)

lemma sample_arrived_events: "events_ok sample_arrived [sample_cqe]"
  using sample_event by (simp add: events_ok_def single_use_def sample_arrived_def)


text \<open>
  C35. A batch is bounded. process_batch takes at most URING_PEEK_CQES_BATCH completions, the oldest
  ones, off the queue of its ring and leaves the rest; a ring that has been told to quit is left with
  an empty queue.
\<close>

theorem process_batch_bounded:
  assumes "process_batch L cl t during p = Inr p'"
  shows "cq (ring_at p' t) = (if ring_stopped (ring_at p' t) then []
           else drop URING_PEEK_CQES_BATCH (cq (ring_at p t)))"
  by (rule process_batch_queue [OF assms])

lemma process_batch_bounded_witness:
  "\<exists>p'. process_batch (documented_liburing 128) sample_client 0 [] sample_arrived = Inr p' \<and>
     cq (ring_at p' 0) = []"
proof -
  obtain p1 where p1: "handle_request (documented_liburing 128) sample_client 0 sample_cqe sample_arrived = Inr p1"
    and e1: "env p1 = env sample_arrived"
  proof -
    have "objs sample_arrived 3 = Some (Token (default_token\<lparr>tok_op := Op_Receive, chain_task := Some (0, 0)\<rparr>))"
      by (simp add: sample_arrived_def sample_waiting_def)
    then have "\<exists>p1. handle_request (documented_liburing 128) sample_client 0 sample_cqe sample_arrived = Inr p1 \<and>
        env p1 = env sample_arrived"
      using sample_cqe_no_msg [of RingTask] sample_cqe_no_msg [of RingFuncTask] sample_cqe_no_msg [of MultiAccTask]
      by (simp add: handle_request_def sample_cqe_def nullptr_def token_at_def handle_token_def wake_def
          deref_task_def upd_task_def default_token_def)
        (simp add: sample_arrived_def sample_waiting_def)
    then show ?thesis using that by blast
  qed
  have st: "\<not> ring_stopped (ring_at sample_arrived 0)"
    by (simp add: sample_arrived_def ring_at_def sample_ring_def new_uring_def)
  have "\<exists>p'. process_batch (documented_liburing 128) sample_client 0 [] sample_arrived = Inr p'"
    using p1 st e1
    by (simp add: process_batch_def noexcept_def sample_arrived_cq URING_PEEK_CQES_BATCH_def)
      (auto simp: on_ring_def on_env_def upd_ring_def cancel_everything_def Let_def get_sqe_def
        documented_liburing_def consume_all_def consume_def ring_at_def split: if_splits)
  then show ?thesis
    using process_batch_bounded [of "documented_liburing 128" sample_client 0 "[]" sample_arrived]
    by (auto simp: sample_arrived_cq URING_PEEK_CQES_BATCH_def split: if_splits)
qed

section \<open>A small batch is everything\<close>

lemma stopped_stays:
  "handle_request L cl t c p = Inr p' \<Longrightarrow> ring_stopped (ring_at p t) \<Longrightarrow> ring_stopped (ring_at p' t)"
  using ring_adv.handle_request_effect [of L cl t c p p']
  by (auto simp: ring_adv.effect_def ring_advances_def ring_at_def)

lemma each_stopped_stays:
  "handle_each L cl t cs p = Inr p' \<Longrightarrow> ring_stopped (ring_at p t) \<Longrightarrow> ring_stopped (ring_at p' t)"
  using ring_adv.handle_each_effect [of L cl t cs p p']
  by (auto simp: ring_adv.effect_def ring_advances_def ring_at_def)

lemma while_running_each:
  "\<not> ring_stopped (ring_at p' t) \<Longrightarrow>
   handle_while_running L cl t cs p = Inr p' \<longleftrightarrow> handle_each L cl t cs p = Inr p'"
proof (induction cs arbitrary: p)
  case (Cons c cs)
  show ?case
  proof (cases "ring_stopped (ring_at p t)")
    case True
    then show ?thesis using each_stopped_stays [of L cl t "c # cs" p p'] Cons.prems by auto
  next
    case False
    then show ?thesis using Cons by (auto simp: bind_res_eq_Inr)
  qed
qed simp

lemma cancel_everything_stopped:
  "cancel_everything L during u = Inr u' \<Longrightarrow> ring_stopped u' = ring_stopped u"
  by (cases "lu_room L (sq (consume_all u))")
    (auto simp: cancel_everything_def Let_def get_sqe_def consume_all_def consume_def arrive_def submit_all_def)



end
