(* ===== verification/Buffer_Pool.thy ===== *)
theory Buffer_Pool
  imports Ring_Buffer
begin

text \<open>
  What a receiver relies on when it gets its data through provided buffers: the buffers are disjoint,
  the kernel fills one of them, the receiver copies the bytes out and gives the buffer back. The
  interface is a locale; its client is any sequence of received messages. It is interpreted on
  \<open>RingBuffer\<close>.
\<close>

locale buffer_pool =
  fixes inv :: "'b \<Rightarrow> bool" and count :: "'b \<Rightarrow> nat" and bsize :: nat
    and content :: "'b \<Rightarrow> nat \<Rightarrow> 'x list"
    and fill :: "nat \<Rightarrow> 'x list \<Rightarrow> 'b \<Rightarrow> 'b"
    and copy :: "nat \<Rightarrow> nat \<Rightarrow> 'b \<Rightarrow> 'x list res"
    and give_back :: "nat \<Rightarrow> 'b \<Rightarrow> 'b res"
  assumes fill_inv: "inv b \<Longrightarrow> i < count b \<Longrightarrow> length xs \<le> bsize \<Longrightarrow> inv (fill i xs b)"
    and fill_count: "inv b \<Longrightarrow> i < count b \<Longrightarrow> length xs \<le> bsize \<Longrightarrow> count (fill i xs b) = count b"
    and fill_content: "inv b \<Longrightarrow> i < count b \<Longrightarrow> length xs \<le> bsize \<Longrightarrow> j < count b \<Longrightarrow>
      content (fill i xs b) j = (if j = i then xs @ drop (length xs) (content b i) else content b j)"
    and copy_content: "inv b \<Longrightarrow> i < count b \<Longrightarrow> n \<le> bsize \<Longrightarrow> copy i n b = Inr (take n (content b i))"
    and give_back_ok: "inv b \<Longrightarrow> i < count b \<Longrightarrow>
      \<exists>b'. give_back i b = Inr b' \<and> inv b' \<and> count b' = count b \<and> content b' = content b"
begin

text \<open>The kernel fills one buffer after the other.\<close>

fun fill_all :: "(nat \<times> 'x list) list \<Rightarrow> 'b \<Rightarrow> 'b" where
  "fill_all [] b = b"
| "fill_all (m # ms) b = fill_all ms (fill (fst m) (snd m) b)"

definition fits :: "'b \<Rightarrow> nat \<times> 'x list \<Rightarrow> bool" where
  "fits b m \<longleftrightarrow> fst m < count b \<and> length (snd m) \<le> bsize"

lemma fits_fill: "inv b \<Longrightarrow> fits b m \<Longrightarrow> fits (fill (fst m) (snd m) b) m' = fits b m'"
  by (simp add: fits_def fill_count)

lemma fill_all_inv: "inv b \<Longrightarrow> \<forall>m \<in> set ms. fits b m \<Longrightarrow> inv (fill_all ms b) \<and> count (fill_all ms b) = count b"
proof (induction ms arbitrary: b)
  case (Cons m ms)
  have f: "fits b m" using Cons.prems by simp
  have "inv (fill (fst m) (snd m) b)" "count (fill (fst m) (snd m) b) = count b"
    using f Cons.prems(1) by (simp_all add: fits_def fill_inv fill_count)
  moreover have "\<forall>m' \<in> set ms. fits (fill (fst m) (snd m) b) m'"
    using Cons.prems fits_fill [OF Cons.prems(1) f] by simp
  ultimately show ?case using Cons.IH by simp
qed simp

lemma fill_all_other:
  "inv b \<Longrightarrow> \<forall>m \<in> set ms. fits b m \<Longrightarrow> i \<notin> fst ` set ms \<Longrightarrow> i < count b \<Longrightarrow>
    content (fill_all ms b) i = content b i"
proof (induction ms arbitrary: b)
  case (Cons m ms)
  have f: "fits b m" using Cons.prems by simp
  let ?b = "fill (fst m) (snd m) b"
  have b: "inv ?b" "count ?b = count b" "content ?b i = content b i"
    using f Cons.prems by (simp_all add: fits_def fill_inv fill_count fill_content)
  have "\<forall>m' \<in> set ms. fits ?b m'" using Cons.prems fits_fill [OF Cons.prems(1) f] by simp
  then show ?case using Cons.IH [OF b(1)] Cons.prems b by simp
qed simp

text \<open>Every message is copied out as it came in, whatever came in for other buffers.\<close>

lemma receive_each:
  assumes "inv b" and "\<forall>m \<in> set ms. fits b m" and "distinct (map fst ms)" and "(i, xs) \<in> set ms"
  shows "copy i (length xs) (fill_all ms b) = Inr xs"
  using assms
proof (induction ms arbitrary: b)
  case (Cons m ms)
  have f: "fits b m" using Cons.prems by simp
  let ?b = "fill (fst m) (snd m) b"
  have b: "inv ?b" "count ?b = count b" using f Cons.prems by (simp_all add: fits_def fill_inv fill_count)
  have fit: "\<forall>m' \<in> set ms. fits ?b m'" using Cons.prems fits_fill [OF Cons.prems(1) f] by simp
  show ?case
  proof (cases "(i, xs) = m")
    case True
    then have i: "i < count b" "length xs \<le> bsize" and out: "i \<notin> fst ` set ms"
      using f Cons.prems(3) by (auto simp: fits_def image_iff)
    have "content (fill_all ms ?b) i = xs @ drop (length xs) (content b i)"
      using fill_all_other [OF b(1) fit out] i b True Cons.prems(1)
      by (auto simp: fill_content)
    moreover have "inv (fill_all ms ?b)" "count (fill_all ms ?b) = count b"
      using fill_all_inv [OF b(1) fit] b by simp_all
    ultimately show ?thesis using i by (simp add: copy_content)
  next
    case False
    then show ?thesis using Cons.IH [OF b(1) fit] Cons.prems by simp
  qed
qed simp

text \<open>Giving a buffer back does not disturb what has not been copied out yet.\<close>

lemma receive_after_give_back:
  assumes "inv b" and "\<forall>m \<in> set ms. fits b m" and "distinct (map fst ms)" and "(i, xs) \<in> set ms"
    and "j < count b" and "give_back j (fill_all ms b) = Inr b'"
  shows "copy i (length xs) b' = Inr xs"
proof -
  have fi: "inv (fill_all ms b)" "count (fill_all ms b) = count b" using fill_all_inv assms by simp_all
  have i: "i < count b" "length xs \<le> bsize" using assms(2,4) by (auto simp: fits_def)
  have "inv b'" "count b' = count b" "content b' = content (fill_all ms b)"
    using give_back_ok [OF fi(1), of j] fi(2) assms(5,6) by auto
  then have "copy i (length xs) b' = copy i (length xs) (fill_all ms b)"
    using i fi by (simp add: copy_content)
  then show ?thesis using receive_each [OF assms(1-4)] by simp
qed

end

section \<open>The provided buffers of a ring\<close>

definition buf_copy :: "nat \<Rightarrow> nat \<Rightarrow> ring_buffer \<Rightarrow> byte list res" where
  "buf_copy i n b = copy_data [] (int i) (int n) b"

definition buf_repay :: "nat \<Rightarrow> ring_buffer \<Rightarrow> ring_buffer res" where
  "buf_repay i b = repay (int i) b"

lemma buffer_region: "buf_inv b \<Longrightarrow> i < n_buffers b \<Longrightarrow> i * BUFFER_RING_SIZE + BUFFER_RING_SIZE \<le> length (storage b)"
  using mult_le_mono1 [of "Suc i" "n_buffers b" BUFFER_RING_SIZE] by (simp add: buf_inv_def)

lemma n_buffers_kernel_fill [simp]: "n_buffers (kernel_fill i xs b) = n_buffers b"
  by (simp add: n_buffers_def kernel_fill_def)

lemma length_kernel_fill:
  "i * BUFFER_RING_SIZE + length xs \<le> length (storage b) \<Longrightarrow>
   length (storage (kernel_fill i xs b)) = length (storage b)"
  by (simp add: kernel_fill_def)

lemma buffer_at_kernel_fill:
  assumes inv: "buf_inv b" and i: "i < n_buffers b" and xs: "length xs \<le> BUFFER_RING_SIZE"
    and j: "j < n_buffers b"
  shows "buffer_at (kernel_fill i xs b) j =
    (if j = i then xs @ drop (length xs) (buffer_at b i) else buffer_at b j)"
proof -
  let ?n = BUFFER_RING_SIZE and ?s = "storage b"
  have ri: "i * ?n + ?n \<le> length ?s" and rj: "j * ?n + ?n \<le> length ?s"
    using buffer_region [OF inv] i j by simp_all
  have li: "length (take (i * ?n) ?s) = i * ?n" using ri by simp
  have fill: "storage (kernel_fill i xs b) = take (i * ?n) ?s @ xs @ drop (i * ?n + length xs) ?s"
    by (simp add: kernel_fill_def)
  consider "j = i" | "j < i" | "i < j" by linarith
  then show ?thesis
  proof cases
    case 1
    have "drop (i * ?n) (storage (kernel_fill i xs b)) = xs @ drop (i * ?n + length xs) ?s"
      unfolding fill using li by simp
    then have "buffer_at (kernel_fill i xs b) i = xs @ take (?n - length xs) (drop (i * ?n + length xs) ?s)"
      using xs by (simp add: buffer_at_def)
    also have "\<dots> = xs @ drop (length xs) (buffer_at b i)"
      by (simp add: buffer_at_def drop_take add.commute)
    finally show ?thesis using 1 by simp
  next
    case 2
    then have "j * ?n + ?n \<le> i * ?n" using mult_le_mono1 [of "Suc j" i ?n] by simp
    then have "take ?n (drop (j * ?n) (storage (kernel_fill i xs b))) = take ?n (drop (j * ?n) ?s)"
      unfolding fill using ri by (simp add: take_drop min_absorb1)
    then show ?thesis using 2 by (simp add: buffer_at_def)
  next
    case 3
    then have le: "i * ?n + ?n \<le> j * ?n" using mult_le_mono1 [of "Suc i" j ?n] by simp
    then have "drop (j * ?n) (storage (kernel_fill i xs b)) = drop (j * ?n) ?s"
      unfolding fill using ri xs 3 by simp
    then show ?thesis using 3 by (simp add: buffer_at_def)
  qed
qed

interpretation ring_pool: buffer_pool buf_inv n_buffers BUFFER_RING_SIZE buffer_at kernel_fill buf_copy buf_repay
proof unfold_locales
  fix b :: ring_buffer and i xs
  assume b: "buf_inv b" "i < n_buffers b" and xs: "length (xs :: byte list) \<le> BUFFER_RING_SIZE"
  show "buf_inv (kernel_fill i xs b)"
    using b xs buffer_region [OF b] length_kernel_fill [of i xs b]
    by (simp add: buf_inv_def n_buffers_def kernel_fill_def)
next
  fix b :: ring_buffer and i n :: nat
  assume b: "buf_inv b" "i < n_buffers b" and n: "n \<le> BUFFER_RING_SIZE"
  have r: "i * BUFFER_RING_SIZE + n \<le> length (storage b)" using buffer_region [OF b] n by simp
  then have "int i * int BUFFER_RING_SIZE + int n \<le> int (length (storage b))"
    by (metis of_nat_add of_nat_le_iff of_nat_mult)
  then show "buf_copy i n b = Inr (take n (buffer_at b i))"
    using n by (simp add: buf_copy_def copy_data_def buffer_at_def min_absorb1 nat_mult_distrib flip: of_nat_mult)
next
  fix b :: ring_buffer and i
  assume "buf_inv b" "i < n_buffers b"
  then show "\<exists>b'. buf_repay i b = Inr b' \<and> buf_inv b' \<and> n_buffers b' = n_buffers b \<and> buffer_at b' = buffer_at b"
    by (auto simp: buf_repay_def repay_def buf_inv_def n_buffers_def buffer_at_def)
qed (simp_all add: buffer_at_kernel_fill)

end
