(* ===== verification/Net_Properties.thy ===== *)
theory Net_Properties
  imports Buffer_Pool Net_Socket Config
begin

text \<open>
  The properties of the leaf components: durations, provided buffers, addresses and sockets.
\<close>

section \<open>Durations\<close>


section \<open>Provided buffers\<close>

definition sample_buffer :: ring_buffer where
  "sample_buffer =
     \<lparr>buf_count = 1, peer_ring = 0, br_alive = True, br_mask = 16383, br_log = [],
      storage = replicate (16384 * 512) 0\<rparr>"

lemma sample_buffer_inv: "buf_inv sample_buffer"
  by (simp add: buf_inv_def sample_buffer_def n_buffers_def N_BUFFERS_def BUFFER_RING_SIZE_def)

text \<open>
  C29. Extending the buffers, when io_uring_setup_buf_ring accepts the new size: the object counts one
  more block of N_BUFFERS buffers, its storage is exactly that many buffers of BUFFER_RING_SIZE bytes
  and starts with the old contents, the mask is the one for the new size, and the buffers handed to
  the kernel since the new set-up are exactly all of them, each once, in order.
\<close>

theorem extend_buffer_layout:
  assumes "extend_buffer L b = (Inr (), b')" and "length (storage b) = n_buffers b * BUFFER_RING_SIZE"
  shows "buf_count b' = buf_count b + 1 \<and> buf_inv b' \<and> br_mask b' = lu_mask L (n_buffers b') \<and>
    provided_bids b' = map int [0..<n_buffers b'] \<and> take (length (storage b)) (storage b') = storage b"
proof -
  note e = extend_buffer_Inr [OF assms(1)]
  have "length (storage b) \<le> n_buffers b' * BUFFER_RING_SIZE"
    unfolding assms(2) n_buffers_def e(1) by simp
  then show ?thesis using e by (simp add: take_resize)
qed

lemma extend_buffer_layout_witness:
  "\<exists>b'. extend_buffer (documented_liburing 128) sample_buffer = (Inr (), b') \<and> buf_count b' = 2 \<and>
     provided_bids b' = map int [0..<32768]"
proof -
  have "N_BUFFERS * (buf_count sample_buffer + 1) = N_BUFFERS * 2" by (simp add: sample_buffer_def)
  then have "fst (extend_buffer (documented_liburing 128) sample_buffer) = Inr ()"
    using valid_extension_size [of 2] unfolding fst_extend_buffer by (simp only: documented_liburing_def liburing.simps if_True, simp)
  then obtain b' where b': "extend_buffer (documented_liburing 128) sample_buffer = (Inr (), b')"
    by (cases "extend_buffer (documented_liburing 128) sample_buffer") simp
  have "length (storage sample_buffer) = n_buffers sample_buffer * BUFFER_RING_SIZE"
    using sample_buffer_inv by (simp add: buf_inv_def)
  from extend_buffer_layout [OF b' this] show ?thesis
    using b' by (simp add: n_buffers_def N_BUFFERS_def sample_buffer_def)
qed

text \<open>
  C30. The buffers can be extended at most once. With a kernel that accepts a buffer ring exactly when
  its number of entries is a power of two up to 32768, as documented, setting the buffers up and the
  first extension succeed, and every later extension throws: the size 16384 * k is acceptable only
  for k = 1 and k = 2. A failed extension has already freed the old buffer ring and leaves no buffer
  ring to give buffers back to.
\<close>

theorem extend_buffer_limit:
  assumes "documented_buf_ring L"
  shows "(fst (extend_buffer L b) = Inr () \<longleftrightarrow> buf_count b = 0 \<or> buf_count b = 1) \<and>
    (fst (extend_buffer L b) \<noteq> Inr () \<longrightarrow>
       fst (extend_buffer L b) = Inl (RuntimeError ''Buffer extend error.'') \<and>
       \<not> br_alive (snd (extend_buffer L b)) \<and> repay bid (snd (extend_buffer L b)) = Inl NullBufferRing)"
proof -
  have "lu_setup L (N_BUFFERS * (buf_count b + 1)) < 0 \<longleftrightarrow> \<not> (buf_count b = 0 \<or> buf_count b = 1)"
    using assms valid_extension_size [of "buf_count b + 1"] by (auto simp: documented_buf_ring_def)
  then show ?thesis
    using extend_buffer_failed [of L b] by (auto simp: fst_extend_buffer repay_def)
qed

lemma extend_buffer_limit_witness:
  "fst (extend_buffer (documented_liburing 128) (sample_buffer\<lparr>buf_count := 2\<rparr>)) \<noteq> Inr ()"
  using extend_buffer_limit [OF documented_liburing(4), of 128 "sample_buffer\<lparr>buf_count := 2\<rparr>" 0] by simp

text \<open>
  C28. Data received through provided buffers arrives intact. Whatever messages the kernel writes into
  distinct buffers, copying the given number of bytes out of a message's buffer yields exactly that
  message, also after any other buffer has been given back; copying and giving back never fail.
\<close>

theorem received_data_intact:
  assumes "buf_inv b" and "\<forall>m \<in> set ms. fst m < n_buffers b \<and> length (snd m) \<le> BUFFER_RING_SIZE"
    and "distinct (map fst ms)" and "(i, xs) \<in> set ms" and "j < n_buffers b"
    and "b1 = fold (\<lambda>m. kernel_fill (fst m) (snd m)) ms b"
  shows "copy_data [] (int i) (int (length xs)) b1 = Inr xs \<and>
    (\<exists>b2. repay (int j) b1 = Inr b2 \<and> copy_data [] (int i) (int (length xs)) b2 = Inr xs)"
proof -
  have fits: "\<forall>m \<in> set ms. ring_pool.fits b m" using assms(2) by (simp add: ring_pool.fits_def)
  have b1: "b1 = ring_pool.fill_all ms b" unfolding assms(6) by (induction ms arbitrary: b) simp_all
  have "buf_inv b1" "j < n_buffers b1"
    using ring_pool.fill_all_inv [OF assms(1) fits] assms(5) b1 by simp_all
  then obtain b' where b': "buf_repay j b1 = Inr b'" using ring_pool.give_back_ok by blast
  then show ?thesis
    using ring_pool.receive_each [OF assms(1) fits assms(3,4)]
      ring_pool.receive_after_give_back [OF assms(1) fits assms(3-5), of b'] b1
    by (simp add: buf_copy_def buf_repay_def)
qed

lemma received_data_intact_witness:
  "copy_data [] 7 2 (kernel_fill 7 [8, 9] (kernel_fill 3 [1, 2, 3] sample_buffer)) = Inr [8, 9]"
proof -
  have "\<forall>m \<in> set [(3, [1, 2, 3 :: byte]), (7, [8, 9])].
      fst m < n_buffers sample_buffer \<and> length (snd m) \<le> BUFFER_RING_SIZE" "3 < n_buffers sample_buffer"
    by (simp_all add: sample_buffer_def n_buffers_def N_BUFFERS_def BUFFER_RING_SIZE_def)
  from received_data_intact [OF sample_buffer_inv this(1) _ _ this(2), of 7 "[8, 9]"] show ?thesis by simp
qed

section \<open>Addresses\<close>

text \<open>
  C38. An IPv4 address and a port survive the way into a socket address and back. With conversions
  that behave as documented, for a text that is an address make_addr_v4 succeeds, the result is an
  IPv4 address whose accessible union member is the one that was constructed, with the length of
  sockaddr_in, port gives back the port, and to_string prints the address and the port.
\<close>

theorem make_addr_v4_roundtrip:
  assumes "documented_inet I" and "ntop4 I a = Some s"
  shows "\<exists>sa. make_addr_v4 I junk s p = Inr sa \<and> is_ipv4 sa \<and> \<not> is_ipv6 sa \<and>
    (\<exists>m. sockaddr_v4 sa = Inr m \<and> sin_addr m = a \<and> sin_family m = AF_INET) \<and>
    addr_len sa = Some sizeof_sockaddr_in \<and> port I sa = Inr p \<and> nport sa = Inr (htons I p) \<and>
    SocketAddr_to_string I sa = Inr (s @ '':'' @ decimal (unat p))"
proof -
  have "pton4 I s = (1, Some a)" and "ntohs I (htons I p) = p"
    using assms by (auto simp: documented_inet_def) (metis option.inject)
  then show ?thesis
    using assms(2) by (simp add: make_addr_v4_def Ipv4_parse_def Ipv4_ctor_def socket_addr_defs
        SocketAddr_to_string_def)
qed

lemma make_addr_v4_roundtrip_witness:
  "\<exists>sa. make_addr_v4 little_endian_inet 0 (decimal 16777343) 8080 = Inr sa \<and>
     port little_endian_inet sa = Inr 8080"
  using make_addr_v4_roundtrip [OF documented_little_endian_inet, of 16777343 "decimal 16777343" 0 8080]
  by (auto simp: little_endian_inet_def)

text \<open>
  C40. A text that is not an IPv4 address is accepted. inet_pton reports it with 0, the code throws only
  on -1, so with conversions that behave as documented make_addr_v4 never fails, and for a text that is
  not an address the result holds the value that happened to be in the uninitialised variable.
\<close>

theorem make_addr_v4_malformed:
  assumes "documented_inet I" and "pton4 I s = (0, None)"
  shows "\<exists>sa m. make_addr_v4 I junk s p = Inr sa \<and> sockaddr_v4 sa = Inr m \<and> sin_addr m = junk"
  using assms(2) by (simp add: make_addr_v4_def Ipv4_parse_def Ipv4_ctor_def socket_addr_defs)

lemma make_addr_v4_malformed_witness:
  "\<exists>sa m. make_addr_v4 little_endian_inet 99 ''localhost'' 8080 = Inr sa \<and>
     sockaddr_v4 sa = Inr m \<and> sin_addr m = 99"
proof -
  have "decimal (unat w) \<noteq> ''localhost''" for w :: in_addr
    using decimal_digit [of "CHR ''l''" "unat w"] by auto
  then have "pton4 little_endian_inet ''localhost'' = (0, None)"
    by (simp add: little_endian_inet_def read_word_def Let_def)
  from make_addr_v4_malformed [OF documented_little_endian_inet this] show ?thesis by blast
qed

section \<open>Sockets\<close>


end
