(* ===== verification/Prep.thy ===== *)
theory Prep
  imports Ring_Batch
begin

text \<open>
  The coroutines of \<open>io/prep\<close>: each awaits one operation of a ring and checks its result. A
  coroutine is given by two definitions, what it does when it starts and what it does with the result
  it is resumed with; Library_Code ties them together. A label is a point at which a coroutine of the
  library is suspended, with the locals that are live there; \<open>User l\<close> is a point of the user's code.
\<close>

section \<open>Labels and values\<close>

datatype prep_label =
    Accept int int | Accept_1
  | Accept_direct int | Accept_direct_1
  | Close_socket int | Close_socket_1
  | Close_socket_direct int | Close_socket_direct_1
  | Direct_socket int int int int | Direct_socket_1
  | Normal_socket int int int int | Normal_socket_1
  | Multishot_accept_direct int | Multishot_accept_direct_1
  | Read int nat | Read_1
  | Recv_in_ring_buf int | Recv_in_ring_buf_1
  | Sleep_for timespec int i32 | Sleep_for_1
  | Write int "byte list" | Write_len int "byte list" nat | Write_1

datatype conn_label =
    Read_some address nat | Read_some_1 nat | Read_some_2
  | Write_some address "byte list" nat | Write_some_1 "byte list" nat
  | Write_all address "byte list" | Write_all_1 "byte list" | Write_2
  | Conn_sleep timespec | Conn_sleep_1
  | Ring_buf_receive address | Ring_buf_receive_1 address | Ring_buf_receive_2 address
  | Ring_buf_receive_3 address | Ring_buf_receive_4 int

datatype 'f net_label =
    Create_tcp_socket SocketAddr | Create_tcp_socket_1 SocketAddr | Create_tcp_socket_2
  | Create_udp_socket SocketAddr | Create_udp_socket_1 | Create_udp_socket_2
  | Listener_accept Socket | Listener_accept_1 Socket
  | Listen_on SocketAddr int | Listen_on_1 int | Listen_on_2
  | Multishot_accept_then Socket 'f | Multishot_accept_then_1 'f | Multishot_accept_then_2 'f

datatype ('u, 'f) label = User 'u | P prep_label | C conn_label | N "'f net_label"

datatype lib_value =
    VUnit
  | VInt int
  | VPair int i32
  | VSocket Socket
  | VListener Socket
  | VConnection tcp_connection

type_synonym ('u, 'f) lib_action = "(('u, 'f) label, lib_value, 'f, sys_env) action"

section \<open>The awaiters\<close>

datatype which_ring = SysRing | LocalRing

definition ring_index :: "which_ring \<Rightarrow> nat \<Rightarrow> nat" where
  "ring_index w t = (case w of SysRing \<Rightarrow> main_thread | LocalRing \<Rightarrow> t)"

text \<open>
  The constructor of an awaiter: \<open>get_sqe\<close> on the ring, the \<open>io_uring_prep_*\<close> call, the token
  as user data, and what the constructor of the derived class does with the entry.
\<close>

definition prepare :: "liburing \<Rightarrow> which_ring \<Rightarrow> request \<Rightarrow> (sqe \<Rightarrow> sqe) \<Rightarrow> nat \<Rightarrow> address \<Rightarrow> sys_env \<Rightarrow> sys_env res" where
  "prepare L w r post t a s =
     upd_ring (ring_index w t) (\<lambda>u.
       let (i, u1) = get_sqe L u in
       bind_res (at_sqe i (prep L r) u1) (\<lambda>u2.
       bind_res (at_sqe i (set_data a) u2) (\<lambda>u3.
       at_sqe i post u3))) s"

definition AcceptAwaiter :: "liburing \<Rightarrow> which_ring \<Rightarrow> request \<Rightarrow> ('u, 'f) label \<Rightarrow> ('u, 'f) lib_action" where
  "AcceptAwaiter L w r k = CoAwaitUring Op_Accept (prepare L w r (\<lambda>s. s)) k"

definition DirectAcceptAwaiter :: "liburing \<Rightarrow> which_ring \<Rightarrow> request \<Rightarrow> ('u, 'f) label \<Rightarrow> ('u, 'f) lib_action" where
  "DirectAcceptAwaiter L w r k = CoAwaitUring Op_Accept (prepare L w r (\<lambda>s. s)) k"

definition CloseAwaiter :: "liburing \<Rightarrow> which_ring \<Rightarrow> request \<Rightarrow> ('u, 'f) label \<Rightarrow> ('u, 'f) lib_action" where
  "CloseAwaiter L w r k = CoAwaitUring Op_Close (prepare L w r (\<lambda>s. s)) k"

definition DirectCloseAwaiter :: "liburing \<Rightarrow> which_ring \<Rightarrow> request \<Rightarrow> ('u, 'f) label \<Rightarrow> ('u, 'f) lib_action" where
  "DirectCloseAwaiter L w r k = CoAwaitUring Op_AsyncCloseDirect (prepare L w r (\<lambda>s. s)) k"

definition DirectSocketAwaiter :: "liburing \<Rightarrow> which_ring \<Rightarrow> request \<Rightarrow> ('u, 'f) label \<Rightarrow> ('u, 'f) lib_action" where
  "DirectSocketAwaiter L w r k =
     CoAwaitUring Op_Socket
       (prepare L w r (if URING_DIRECT_FD_TABLE_SIZE \<noteq> 0 then or_flags IOSQE_FIXED_FILE else (\<lambda>s. s))) k"

definition SocketAwaiter :: "liburing \<Rightarrow> which_ring \<Rightarrow> request \<Rightarrow> ('u, 'f) label \<Rightarrow> ('u, 'f) lib_action" where
  "SocketAwaiter L w r k = CoAwaitUring Op_Socket (prepare L w r (\<lambda>s. s)) k"

definition ReadAwaiter :: "liburing \<Rightarrow> which_ring \<Rightarrow> request \<Rightarrow> ('u, 'f) label \<Rightarrow> ('u, 'f) lib_action" where
  "ReadAwaiter L w r k = CoAwaitUring Op_Receive (prepare L w r (or_flags IOSQE_FIXED_FILE)) k"

definition RecvRingBufAwaiter :: "liburing \<Rightarrow> which_ring \<Rightarrow> request \<Rightarrow> ('u, 'f) label \<Rightarrow> ('u, 'f) lib_action" where
  "RecvRingBufAwaiter L w r k =
     CoAwaitUring Op_Receive
       (prepare L w r (\<lambda>s. or_flags IOSQE_FIXED_FILE (or_flags IOSQE_BUFFER_SELECT (s\<lparr>sqe_buf_group := 0\<rparr>)))) k"

definition TimeoutAwaiter :: "liburing \<Rightarrow> which_ring \<Rightarrow> request \<Rightarrow> ('u, 'f) label \<Rightarrow> ('u, 'f) lib_action" where
  "TimeoutAwaiter L w r k = CoAwaitUring Op_Timeout (prepare L w r (\<lambda>s. s)) k"

definition WriteAwaiter :: "liburing \<Rightarrow> which_ring \<Rightarrow> request \<Rightarrow> ('u, 'f) label \<Rightarrow> ('u, 'f) lib_action" where
  "WriteAwaiter L w r k = CoAwaitUring Op_Send (prepare L w r (or_flags IOSQE_FIXED_FILE)) k"

lemmas awaiter_defs = AcceptAwaiter_def DirectAcceptAwaiter_def CloseAwaiter_def DirectCloseAwaiter_def
  DirectSocketAwaiter_def SocketAwaiter_def ReadAwaiter_def RecvRingBufAwaiter_def TimeoutAwaiter_def
  WriteAwaiter_def

section \<open>Checking a result\<close>

text \<open>
  A point at which a coroutine expects a completion. The machine resumes a point after an awaiter of
  the ring with a completion only; an exception passes through.
\<close>

definition on_cqe :: "(int \<Rightarrow> i32 \<Rightarrow> ('u, 'f) lib_action) \<Rightarrow> lib_value resume_in \<Rightarrow> ('u, 'f) lib_action" where
  "on_cqe g inp =
     (case inp of RCqe r fl \<Rightarrow> g r fl | RExn e \<Rightarrow> CoThrow e | _ \<Rightarrow> CoThrow (LogicError ''not a completion''))"

definition prep_accept :: "liburing \<Rightarrow> int \<Rightarrow> int \<Rightarrow> ('u, 'f) lib_action" where
  "prep_accept L socket flags = AcceptAwaiter L SysRing (PrepAccept socket flags) (P Accept_1)"

definition prep_accept_result :: "int \<Rightarrow> i32 \<Rightarrow> ('u, 'f) lib_action" where
  "prep_accept_result res flag =
     (if res < 0 then CoThrow (RuntimeError ''io_uring prep accept failed.'') else CoReturn (VInt res))"

definition prep_accept_direct :: "liburing \<Rightarrow> int \<Rightarrow> ('u, 'f) lib_action" where
  "prep_accept_direct L socket_direct =
     DirectAcceptAwaiter L SysRing (PrepAcceptDirect socket_direct) (P Accept_direct_1)"

definition prep_accept_direct_result :: "int \<Rightarrow> i32 \<Rightarrow> ('u, 'f) lib_action" where
  "prep_accept_direct_result res flag =
     (if res < 0 then CoThrow (RuntimeError ''io_uring prep direct accept failed.'') else CoReturn (VInt res))"

definition prep_close_socket :: "liburing \<Rightarrow> int \<Rightarrow> ('u, 'f) lib_action" where
  "prep_close_socket L socket = CloseAwaiter L LocalRing (PrepClose socket) (P Close_socket_1)"

definition prep_close_socket_result :: "int \<Rightarrow> i32 \<Rightarrow> ('u, 'f) lib_action" where
  "prep_close_socket_result res flag =
     (if res < 0 then CoThrow (RuntimeError ''io_uring close socket failed.'') else CoReturn VUnit)"

definition prep_close_socket_direct :: "liburing \<Rightarrow> int \<Rightarrow> ('u, 'f) lib_action" where
  "prep_close_socket_direct L socket_direct =
     DirectCloseAwaiter L LocalRing (PrepCloseDirect socket_direct) (P Close_socket_direct_1)"

definition prep_close_socket_direct_result :: "int \<Rightarrow> i32 \<Rightarrow> ('u, 'f) lib_action" where
  "prep_close_socket_direct_result res flag =
     (if res < 0 then CoThrow (RuntimeError ''io_uring close direct socket failed.'') else CoReturn VUnit)"

definition prep_direct_socket :: "liburing \<Rightarrow> int \<Rightarrow> int \<Rightarrow> int \<Rightarrow> int \<Rightarrow> ('u, 'f) lib_action" where
  "prep_direct_socket L domain type protocol flags =
     DirectSocketAwaiter L LocalRing (PrepSocketDirectAlloc domain type protocol flags) (P Direct_socket_1)"

definition prep_direct_socket_result :: "int \<Rightarrow> i32 \<Rightarrow> ('u, 'f) lib_action" where
  "prep_direct_socket_result res flag =
     (if res < 0 then CoThrow (RuntimeError ''io_uring direct socket allocation failed.'')
      else CoReturn (VInt res))"

definition prep_normal_socket :: "liburing \<Rightarrow> int \<Rightarrow> int \<Rightarrow> int \<Rightarrow> int \<Rightarrow> ('u, 'f) lib_action" where
  "prep_normal_socket L domain type protocol flags =
     SocketAwaiter L SysRing (PrepSocket domain type protocol flags) (P Normal_socket_1)"

definition prep_normal_socket_result :: "int \<Rightarrow> i32 \<Rightarrow> ('u, 'f) lib_action" where
  "prep_normal_socket_result res flag =
     (if res = - ENFILE then CoThrow (RuntimeError ''io_uring prep normal socket failed.'')
      else CoReturn (VInt res))"

definition prep_multishot_accept_direct :: "liburing \<Rightarrow> int \<Rightarrow> ('u, 'f) lib_action" where
  "prep_multishot_accept_direct L socket =
     CoAwaitMshot (prepare L SysRing (PrepMultishotAcceptDirect socket) (\<lambda>s. s)) (P Multishot_accept_direct_1)"

definition prep_read :: "liburing \<Rightarrow> int \<Rightarrow> nat \<Rightarrow> ('u, 'f) lib_action" where
  "prep_read L socket len = ReadAwaiter L LocalRing (PrepRead socket len) (P Read_1)"

definition prep_read_result :: "int \<Rightarrow> i32 \<Rightarrow> ('u, 'f) lib_action" where
  "prep_read_result res flag =
     (if res < 0 then CoThrow (RuntimeError ''io_uring prep read failed.'') else CoReturn (VInt res))"

definition prep_recv_in_ring_buf :: "liburing \<Rightarrow> int \<Rightarrow> ('u, 'f) lib_action" where
  "prep_recv_in_ring_buf L socket =
     RecvRingBufAwaiter L LocalRing (PrepRecv socket BUFFER_RING_SIZE) (P Recv_in_ring_buf_1)"

definition prep_recv_in_ring_buf_result :: "int \<Rightarrow> i32 \<Rightarrow> ('u, 'f) lib_action" where
  "prep_recv_in_ring_buf_result res flag =
     (if res < 0 \<and> res \<noteq> - ENOBUFS
      then CoThrow (RuntimeError ''io_uring prep receive with ring buffer failed.'')
      else CoReturn (VPair res flag))"

definition async_sleep_for :: "liburing \<Rightarrow> timespec \<Rightarrow> int \<Rightarrow> i32 \<Rightarrow> ('u, 'f) lib_action" where
  "async_sleep_for L ts cnt flags =
     TimeoutAwaiter L LocalRing (PrepTimeout ts cnt (sint flags)) (P Sleep_for_1)"

definition async_sleep_for_result :: "int \<Rightarrow> i32 \<Rightarrow> ('u, 'f) lib_action" where
  "async_sleep_for_result res flag =
     (if res \<noteq> - ETIME \<and> res \<noteq> 0 then CoThrow (RuntimeError ''io_uring preparing timeout error'')
      else CoReturn VUnit)"

definition prep_write :: "liburing \<Rightarrow> int \<Rightarrow> byte list \<Rightarrow> ('u, 'f) lib_action" where
  "prep_write L socket buffer = WriteAwaiter L LocalRing (PrepWrite socket buffer (length buffer)) (P Write_1)"

definition prep_write_len :: "liburing \<Rightarrow> int \<Rightarrow> byte list \<Rightarrow> nat \<Rightarrow> ('u, 'f) lib_action" where
  "prep_write_len L socket buffer len = WriteAwaiter L LocalRing (PrepWrite socket buffer len) (P Write_1)"

definition prep_write_result :: "int \<Rightarrow> i32 \<Rightarrow> ('u, 'f) lib_action" where
  "prep_write_result res flag =
     (if res < 0 then CoThrow (RuntimeError ''io_uring prep write failed.'') else CoReturn (VInt res))"

lemmas prep_defs = prep_accept_def prep_accept_direct_def prep_close_socket_def prep_close_socket_direct_def
  prep_direct_socket_def prep_normal_socket_def prep_multishot_accept_direct_def prep_read_def
  prep_recv_in_ring_buf_def async_sleep_for_def prep_write_def prep_write_len_def

lemmas prep_result_defs = prep_accept_result_def prep_accept_direct_result_def prep_close_socket_result_def
  prep_close_socket_direct_result_def prep_direct_socket_result_def prep_normal_socket_result_def
  prep_read_result_def prep_recv_in_ring_buf_result_def async_sleep_for_result_def prep_write_result_def

section \<open>Lemmas\<close>

text \<open>Preparing an operation fails exactly when the submission queue has no entry left.\<close>

lemma prepare_full:
  "\<not> lu_room L (sq (rings s (ring_index w t))) \<Longrightarrow> prepare L w r post t a s = Inl NullSqe"
  by (simp add: prepare_def upd_ring_def get_sqe_full)

lemma prepare_room:
  assumes "lu_room L (sq (rings s (ring_index w t)))" and "fills_entry L"
  shows "prepare L w r post t a s = Inr (s\<lparr>rings := (rings s)(ring_index w t :=
      (rings s (ring_index w t))\<lparr>sq := sq (rings s (ring_index w t)) @ [post (entry r 0 (Some a))]\<rparr>)\<rparr>)"
  using assms by (simp add: prepare_def upd_ring_def get_sqe_room)

lemma prepare_fault: "prepare L w r post t a s = Inl e \<Longrightarrow> e = NullSqe"
  by (cases "lu_room L (sq (rings s (ring_index w t)))")
    (auto simp: prepare_def upd_ring_def get_sqe_room get_sqe_full)

lemma safe_prepare [simp]: "safe_prep (prepare L w r post)"
  by (auto simp: safe_prep_def machine_fault_def dest: prepare_fault)

lemma safe_prep_actions [simp]:
  "safe_action (prep_accept L s fl)" "safe_action (prep_accept_direct L s)" "safe_action (prep_close_socket L s)"
  "safe_action (prep_close_socket_direct L s)" "safe_action (prep_direct_socket L d ty pr fl)"
  "safe_action (prep_normal_socket L d ty pr fl)" "safe_action (prep_multishot_accept_direct L s)"
  "safe_action (prep_read L s n)" "safe_action (prep_recv_in_ring_buf L s)" "safe_action (async_sleep_for L ts c f)"
  "safe_action (prep_write L s buf)" "safe_action (prep_write_len L s buf n)"
  by (simp_all add: prep_defs awaiter_defs safe_action_def default_op_def)

lemma safe_results [simp]:
  "safe_action (prep_accept_result r fl)" "safe_action (prep_accept_direct_result r fl)"
  "safe_action (prep_close_socket_result r fl)" "safe_action (prep_close_socket_direct_result r fl)"
  "safe_action (prep_direct_socket_result r fl)" "safe_action (prep_normal_socket_result r fl)"
  "safe_action (prep_read_result r fl)" "safe_action (prep_recv_in_ring_buf_result r fl)"
  "safe_action (async_sleep_for_result r fl)" "safe_action (prep_write_result r fl)"
  by (simp_all add: prep_result_defs safe_action_def)

lemma safe_on_cqe: "(\<And>r fl. safe_action (g r fl)) \<Longrightarrow> safe_action (on_cqe g inp)"
  by (cases inp) (simp_all add: on_cqe_def safe_action_def)

end
