(* ===== verification/Spawn.thy ===== *)
theory Spawn
  imports Ring_Batch
begin

text \<open>
  Handing work to other threads (\<open>context/context.hpp\<close>): the choice of a worker, the two forms of
  \<open>parallel_spawn\<close>, and the sending of accepted descriptors. \<open>t\<close> is the thread that runs the
  code; the messages go out on the ring of the main thread.
\<close>

section \<open>Choosing a worker\<close>

definition pick_worker :: "sys_env \<Rightarrow> (int \<times> sys_env) res" where
  "pick_worker s =
     (let n = int (length (uring_fds s)) in
      if n = 0 then Inl DivisionByZero
      else
        let idx = (current_worker_uring_idx s + 1) mod n;
            s1 = s\<lparr>current_worker_uring_idx := idx\<rparr>
        in if 0 \<le> idx \<and> nat idx < length (uring_fds s1) then Inr (uring_fds s1 ! nat idx, s1)
           else Inl OutOfRange)"

section \<open>Sending a task\<close>

definition parallel_spawn ::
  "liburing \<Rightarrow> nat \<Rightarrow> 'l \<Rightarrow> ('l, 'v, 'f) world \<Rightarrow> ('l, 'v, 'f) world res" where
  "parallel_spawn L t l p =
     (if sys_ring_fd (env p) \<noteq> ring_fd (ring_at p t)
      then Inl (Throws (LogicError ''You can noly call this function in main thread''))
      else
        let (tk, p1) = create_coroutine l p;
            (task_msg, p2) = alloc_obj (MsgTask \<lparr>msg_task = task_handle tk\<rparr>) p1;
            (token, p3) = alloc_obj (Token (control_token Op_RingTask)) p2;
            (i, u) = get_sqe L (ring_at p3 main_thread)
        in bind_res (pick_worker (env p3)) (\<lambda>(worker, s).
           bind_res (at_sqe i (prep L (PrepMsgRingCqeFlags worker (ring_msg_code RingTask) task_msg
                       NET_IORING_CQE_F_TASK)) u) (\<lambda>u1.
           bind_res (at_sqe i (set_data token) u1) (\<lambda>u2.
           on_ring main_thread (\<lambda>_. Inr (submit_all L u2)) (p3\<lparr>env := s\<rparr>)))))"

section \<open>Sending a connection with a function\<close>

definition conn_at :: "sys_env \<Rightarrow> address \<Rightarrow> tcp_connection res" where
  "conn_at s c = (case conns s c of None \<Rightarrow> Inl DeadObject | Some x \<Rightarrow> Inr x)"

definition set_conn :: "address \<Rightarrow> tcp_connection \<Rightarrow> sys_env \<Rightarrow> sys_env" where
  "set_conn c x s = s\<lparr>conns := (conns s)(c \<mapsto> x)\<rparr>"

definition parallel_spawn_conn ::
  "liburing \<Rightarrow> nat \<Rightarrow> 'f \<Rightarrow> address \<Rightarrow> ('l, 'v, 'f) world \<Rightarrow> ('l, 'v, 'f) world res" where
  "parallel_spawn_conn L t g c p =
     (if sys_ring_fd (env p) \<noteq> ring_fd (ring_at p t)
      then Inl (Throws (LogicError ''You can only call this function in main thread''))
      else
        bind_res (conn_at (env p) c) (\<lambda>x.
        bind_res (TcpConnection_release x) (\<lambda>x1.
        let fd = connection_fd x1 in
        bind_res (pick_worker (set_conn c x1 (env p))) (\<lambda>(worker, s).
        let p1 = p\<lparr>env := s\<rparr>;
            (send_fd, u1) = get_sqe L (ring_at p1 main_thread);
            (send_task, u2) = get_sqe L u1;
            (helper, p2) = alloc_obj (ConnHelper (RingMsgConnTaskHelper (Some g) fd)) p1;
            (sender, p3) = alloc_obj (Token (control_token Op_RingFdSender)) p2;
            (receiver, p4) = alloc_obj (Token ((control_token Op_RingFdReceiver)\<lparr>cqe_res := fd\<rparr>)) p3
        in bind_res (at_sqe send_fd (prep L (PrepMsgRingFdAlloc worker fd receiver)) u2) (\<lambda>u3.
           bind_res (at_sqe send_fd (set_data sender) u3) (\<lambda>u4.
           bind_res (at_sqe send_fd (or_flags IOSQE_IO_LINK) u4) (\<lambda>u5.
           bind_res (at_sqe send_task (prep L (PrepMsgRingCqeFlags worker (ring_msg_code RingFuncTask) helper
                       NET_IORING_CQE_F_TASK)) u5) (\<lambda>u6.
           bind_res (at_sqe send_task (or_flags IOSQE_CQE_SKIP_SUCCESS) u6) (\<lambda>u7.
           on_ring main_thread (\<lambda>_. Inr (submit_all L u7)) p4)))))))))"

section \<open>Sending accepted descriptors\<close>

text \<open>
  The body of the loop of \<open>mshot_accept_send_awaiting_fd_and_process\<close>. It moves \<open>func_task\<close>
  into the token it makes, so the next iteration finds it empty.
\<close>

fun send_awaiting ::
  "liburing \<Rightarrow> 'f option \<Rightarrow> int list \<Rightarrow> ('l, 'v, 'f) world \<Rightarrow> ('l, 'v, 'f) world res" where
  "send_awaiting L func_task [] p = Inr p"
| "send_awaiting L func_task (fd # fds) p =
     bind_res (pick_worker (env p)) (\<lambda>(worker, s).
     let p1 = p\<lparr>env := s\<rparr>;
         (send_fd, u1) = get_sqe L (ring_at p1 main_thread);
         (send_task, u2) = get_sqe L u1;
         (close_fd, u3) = get_sqe L u2;
         (receiver, p2) = alloc_obj (Token (control_token Op_MultishotAcceptFdReceiver)) p1;
         (task_token, p3) =
           alloc_obj (MAccTask (MultishotAcceptTaskToken Op_MultishotAcceptTaskReceiver func_task)) p2
     in bind_res (at_sqe send_fd (prep L (PrepMsgRingFdAlloc worker fd receiver)) u3) (\<lambda>u4.
        bind_res (at_sqe send_task (prep L (PrepMsgRingCqeFlags worker (ring_msg_code MultiAccTask) task_token
                    NET_IORING_CQE_F_TASK)) u4) (\<lambda>u5.
        bind_res (at_sqe close_fd (prep L (PrepCloseDirect fd)) u5) (\<lambda>u6.
        bind_res (at_sqe send_fd (or_flags (IOSQE_CQE_SKIP_SUCCESS OR IOSQE_IO_LINK)) u6) (\<lambda>u7.
        bind_res (at_sqe send_task (or_flags (IOSQE_CQE_SKIP_SUCCESS OR IOSQE_IO_LINK)) u7) (\<lambda>u8.
        bind_res (at_sqe close_fd (or_flags IOSQE_CQE_SKIP_SUCCESS) u8) (\<lambda>u9.
        bind_res (on_ring main_thread (\<lambda>_. Inr u9) p3) (\<lambda>p4.
        send_awaiting L None fds p4))))))))"

definition mshot_accept_send_awaiting_fd_and_process ::
  "liburing \<Rightarrow> 'f \<Rightarrow> ('l, 'v, 'f) world \<Rightarrow> ('l, 'v, 'f) world res" where
  "mshot_accept_send_awaiting_fd_and_process L func_task p =
     bind_res (send_awaiting L (Some func_task) (awaiting_direct_fd (ring_at p main_thread)) p) (\<lambda>p1.
     on_ring main_thread (\<lambda>u. Inr (submit_all L (u\<lparr>awaiting_direct_fd := []\<rparr>))) p1)"

section \<open>Plain code of a coroutine\<close>

text \<open>
  A call of one of these from a coroutine body: an exception is thrown into the body, and the calls
  throw before they have changed anything.
\<close>

definition as_step ::
  "'v \<Rightarrow> (('l, 'v, 'f) world \<Rightarrow> ('l, 'v, 'f) world res) \<Rightarrow> ('l, 'v, 'f) world
   \<Rightarrow> ('v resume_in \<times> ('l, 'v, 'f) world) res" where
  "as_step v f p =
     (case f p of
        Inl (Throws e) \<Rightarrow> Inr (RExn e, p)
      | Inl x \<Rightarrow> Inl x
      | Inr p' \<Rightarrow> Inr (RVal v, p'))"

section \<open>Lemmas: the worker choice\<close>

definition workers_inv :: "sys_env \<Rightarrow> bool" where
  "workers_inv s \<longleftrightarrow> uring_fds s \<noteq> [] \<and> - 1 \<le> current_worker_uring_idx s \<and>
     current_worker_uring_idx s < int (length (uring_fds s))"

lemma pick_worker_ok:
  assumes "uring_fds s \<noteq> []"
  shows "pick_worker s = (let i = (current_worker_uring_idx s + 1) mod int (length (uring_fds s))
    in Inr (uring_fds s ! nat i, s\<lparr>current_worker_uring_idx := i\<rparr>))"
proof -
  let ?n = "int (length (uring_fds s))"
  have n: "0 < ?n" using assms by simp
  have "0 \<le> (current_worker_uring_idx s + 1) mod ?n" "(current_worker_uring_idx s + 1) mod ?n < ?n"
    using n by simp_all
  then show ?thesis using n by (simp add: pick_worker_def Let_def nat_less_iff)
qed

text \<open>The workers that \<open>k\<close> calls in a row choose.\<close>

fun picks :: "nat \<Rightarrow> sys_env \<Rightarrow> (int list \<times> sys_env) res" where
  "picks 0 s = Inr ([], s)"
| "picks (Suc k) s =
     bind_res (pick_worker s) (\<lambda>(w, s1). bind_res (picks k s1) (\<lambda>(ws, s2). Inr (w # ws, s2)))"

lemma picks_eq:
  assumes "uring_fds s \<noteq> []"
  shows "picks k s = Inr (map (\<lambda>j. uring_fds s ! nat ((current_worker_uring_idx s + 1 + int j) mod int (length (uring_fds s)))) [0..<k],
      if k = 0 then s
      else s\<lparr>current_worker_uring_idx := (current_worker_uring_idx s + int k) mod int (length (uring_fds s))\<rparr>)"
  using assms
proof (induction k arbitrary: s)
  case (Suc k)
  let ?n = "int (length (uring_fds s))" and ?i = "current_worker_uring_idx s"
  let ?s1 = "s\<lparr>current_worker_uring_idx := (?i + 1) mod ?n\<rparr>"
  have m: "((?i + 1) mod ?n + 1 + int j) mod ?n = (?i + 1 + int (Suc j)) mod ?n" for j
    using mod_add_left_eq [of "?i + 1" ?n "1 + int j"] by (simp add: algebra_simps)
  have m2: "((?i + 1) mod ?n + int k) mod ?n = (?i + int (Suc k)) mod ?n"
    using mod_add_left_eq [of "?i + 1" ?n "int k"] by (simp add: algebra_simps)
  have l: "map g [0..<Suc k] = g 0 # map (\<lambda>j. g (Suc j)) [0..<k]" for g :: "nat \<Rightarrow> int"
    by (simp add: map_upt_Suc del: upt_Suc)
  have one: "int (Suc 0) = 1" by simp
  show ?case
    using Suc.IH [of ?s1] Suc.prems
    by (simp add: pick_worker_ok Let_def m m2 l one del: upt_Suc of_nat_Suc)
qed simp

end
