(* ===== verification/Library_Code.thy ===== *)
theory Library_Code
  imports Prep Spawn Buffer_Pool
begin

text \<open>
  The member coroutines of connections (\<open>net/tcp/connection.hpp\<close>), of listeners
  (\<open>net/tcp/listener.hpp\<close>) and the creation of sockets (\<open>net/socket.hpp\<close>), and the code of all
  library coroutines as one function from the point where a coroutine is suspended. The user's code
  is the parameter \<open>user\<close>.
\<close>

section \<open>What a point of a coroutine goes on with\<close>

definition on_value :: "(lib_value \<Rightarrow> ('u, 'f) lib_action) \<Rightarrow> lib_value resume_in \<Rightarrow> ('u, 'f) lib_action" where
  "on_value g inp =
     (case inp of RVal v \<Rightarrow> g v | RExn e \<Rightarrow> CoThrow e | _ \<Rightarrow> CoThrow (LogicError ''not a value''))"

definition on_int :: "(int \<Rightarrow> ('u, 'f) lib_action) \<Rightarrow> lib_value resume_in \<Rightarrow> ('u, 'f) lib_action" where
  "on_int g = on_value (\<lambda>v. case v of VInt n \<Rightarrow> g n | _ \<Rightarrow> CoThrow (LogicError ''not a number''))"

definition on_unit :: "('u, 'f) lib_action \<Rightarrow> lib_value resume_in \<Rightarrow> ('u, 'f) lib_action" where
  "on_unit a inp =
     (case inp of RExn e \<Rightarrow> CoThrow e | _ \<Rightarrow> a)"

section \<open>Connections\<close>

text \<open>Reading the socket of the connection that \<open>this\<close> points to, as a step of its own.\<close>

definition load_socket :: "address \<Rightarrow> nat \<Rightarrow> ('u, lib_value, 'f, sys_env) proc
    \<Rightarrow> (lib_value resume_in \<times> ('u, lib_value, 'f, sys_env) proc) res" where
  "load_socket c t p = bind_res (conn_at (env p) c) (\<lambda>x. Inr (RVal (VInt (conn_socket x)), p))"

definition read_some :: "address \<Rightarrow> nat \<Rightarrow> ('u, 'f) lib_action" where
  "read_some c n = CoStep (load_socket c) (C (Read_some_1 n))"

definition read_some_1 :: "nat \<Rightarrow> lib_value resume_in \<Rightarrow> ('u, 'f) lib_action" where
  "read_some_1 n = on_int (\<lambda>fd. CoAwaitTask (P (Read fd n)) (C Read_some_2))"

definition write_some :: "address \<Rightarrow> byte list \<Rightarrow> nat \<Rightarrow> ('u, 'f) lib_action" where
  "write_some c buf len = CoStep (load_socket c) (C (Write_some_1 buf len))"

definition write_some_1 :: "byte list \<Rightarrow> nat \<Rightarrow> lib_value resume_in \<Rightarrow> ('u, 'f) lib_action" where
  "write_some_1 buf len = on_int (\<lambda>fd. CoAwaitTask (P (Write_len fd buf len)) (C Write_2))"

definition write_all :: "address \<Rightarrow> byte list \<Rightarrow> ('u, 'f) lib_action" where
  "write_all c buf = CoStep (load_socket c) (C (Write_all_1 buf))"

definition write_all_1 :: "byte list \<Rightarrow> lib_value resume_in \<Rightarrow> ('u, 'f) lib_action" where
  "write_all_1 buf = on_int (\<lambda>fd. CoAwaitTask (P (Write fd buf)) (C Write_2))"

text \<open>\<open>co_return co_await\<close> of a transfer.\<close>

definition return_count :: "lib_value resume_in \<Rightarrow> ('u, 'f) lib_action" where
  "return_count = on_int (\<lambda>n. CoReturn (VInt n))"

text \<open>\<open>IORING_TIMEOUT_REALTIME | IORING_TIMEOUT_ETIME_SUCCESS\<close>\<close>

definition default_timeout_flags :: i32 where
  "default_timeout_flags = push_bit 3 1 OR push_bit 5 1"

definition conn_sleep :: "timespec \<Rightarrow> ('u, 'f) lib_action" where
  "conn_sleep tm = CoAwaitTask (P (Sleep_for tm 1 default_timeout_flags)) (C Conn_sleep_1)"

text \<open>
  \<open>ring_buf_receive\<close>: the socket is read again for every attempt; without a free buffer the
  buffers of the running thread are extended, or the coroutine sleeps, as configured; an exception of
  \<open>extend_buffer\<close> leaves the coroutine.
\<close>

definition ring_buf_receive :: "address \<Rightarrow> ('u, 'f) lib_action" where
  "ring_buf_receive c = CoStep (load_socket c) (C (Ring_buf_receive_1 c))"

definition ring_buf_receive_1 :: "address \<Rightarrow> lib_value resume_in \<Rightarrow> ('u, 'f) lib_action" where
  "ring_buf_receive_1 c = on_int (\<lambda>fd. CoAwaitTask (P (Recv_in_ring_buf fd)) (C (Ring_buf_receive_2 c)))"

definition extend_step :: "liburing \<Rightarrow> nat \<Rightarrow> ('u, lib_value, 'f, sys_env) proc
    \<Rightarrow> (lib_value resume_in \<times> ('u, lib_value, 'f, sys_env) proc) res" where
  "extend_step L t p =
     (let (r, b) = extend_buffer L (buffers (env p) t);
          p1 = p\<lparr>env := (env p)\<lparr>buffers := (buffers (env p))(t := b)\<rparr>\<rparr>
      in Inr (case r of Inl e \<Rightarrow> RExn e | Inr u \<Rightarrow> RVal VUnit, p1))"

text \<open>The id of the buffer that the kernel chose.\<close>

definition buffer_id :: "i32 \<Rightarrow> int" where
  "buffer_id flag = sint flag div 2 ^ IORING_CQE_BUFFER_SHIFT"

definition take_received :: "address \<Rightarrow> int \<Rightarrow> i32 \<Rightarrow> nat \<Rightarrow> sys_env \<Rightarrow> sys_env res" where
  "take_received c res flag t s =
     (let bid = buffer_id flag in
      bind_res (conn_at s c) (\<lambda>x.
      bind_res (copy_data [] bid res (buffers s t)) (\<lambda>data.
      bind_res (repay bid (buffers s t)) (\<lambda>b.
      Inr (set_conn c (x\<lparr>receive_buffer := data\<rparr>) (s\<lparr>buffers := (buffers s)(t := b)\<rparr>))))))"

definition received_step :: "address \<Rightarrow> int \<Rightarrow> i32 \<Rightarrow> nat \<Rightarrow> ('u, lib_value, 'f, sys_env) proc
    \<Rightarrow> (lib_value resume_in \<times> ('u, lib_value, 'f, sys_env) proc) res" where
  "received_step c res flag t p =
     bind_res (take_received c res flag t (env p)) (\<lambda>s. Inr (RVal VUnit, p\<lparr>env := s\<rparr>))"

definition ring_buf_receive_2 :: "liburing \<Rightarrow> address \<Rightarrow> lib_value resume_in \<Rightarrow> ('u, 'f) lib_action" where
  "ring_buf_receive_2 L c =
     on_value (\<lambda>v. case v of
       VPair res flag \<Rightarrow>
         if res = - ENOBUFS
         then (if \<not> AUTO_EXTEND_WHEN_NOBUFS
               then CoAwaitTask (C (Conn_sleep NOBUFS_SLEEP_FOR)) (C (Ring_buf_receive_3 c))
               else CoStep (extend_step L) (C (Ring_buf_receive_3 c)))
         else CoStep (received_step c res flag) (C (Ring_buf_receive_4 res))
     | _ \<Rightarrow> CoThrow (LogicError ''not a pair''))"

definition ring_buf_receive_3 :: "address \<Rightarrow> lib_value resume_in \<Rightarrow> ('u, 'f) lib_action" where
  "ring_buf_receive_3 c = on_unit (ring_buf_receive c)"

definition ring_buf_receive_4 :: "int \<Rightarrow> lib_value resume_in \<Rightarrow> ('u, 'f) lib_action" where
  "ring_buf_receive_4 res = on_unit (CoReturn (VInt res))"

section \<open>Sockets and listeners\<close>

definition AF_INET_int :: int where "AF_INET_int = int AF_INET"
definition SOCK_STREAM :: int where "SOCK_STREAM = 1"
definition SOCK_DGRAM :: int where "SOCK_DGRAM = 2"

definition create_tcp_socket :: "SocketAddr \<Rightarrow> ('u, 'f) lib_action" where
  "create_tcp_socket addr =
     (let socktype = (if is_ipv4 addr then AF_INET else AF_INET6)
      in CoAwaitTask (P (Normal_socket (int socktype) SOCK_STREAM 0 0)) (N (Create_tcp_socket_1 addr)))"

text \<open>The constructor of the socket; an exception it throws leaves the coroutine.\<close>

definition socket_step :: "libc \<Rightarrow> int \<Rightarrow> SocketAddr \<Rightarrow> nat \<Rightarrow> ('u, lib_value, 'f, sys_env) proc
    \<Rightarrow> (lib_value resume_in \<times> ('u, lib_value, 'f, sys_env) proc) res" where
  "socket_step K fd addr t p =
     (case Socket_ctor K fd addr (posix (env p)) of
        Inl (Throws e) \<Rightarrow> Inr (RExn e, p)
      | Inl x \<Rightarrow> Inl x
      | Inr (s, lg) \<Rightarrow> Inr (RVal (VSocket s), p\<lparr>env := (env p)\<lparr>posix := lg\<rparr>\<rparr>))"

definition create_tcp_socket_1 :: "libc \<Rightarrow> SocketAddr \<Rightarrow> lib_value resume_in \<Rightarrow> ('u, 'f) lib_action" where
  "create_tcp_socket_1 K addr = on_int (\<lambda>fd. CoStep (socket_step K fd addr) (N Create_tcp_socket_2))"

definition create_tcp_socket_2 :: "lib_value resume_in \<Rightarrow> ('u, 'f) lib_action" where
  "create_tcp_socket_2 = on_value CoReturn"

text \<open>\<open>create_udp_socket\<close> flows off its end without a \<open>co_return\<close>.\<close>

definition create_udp_socket :: "SocketAddr \<Rightarrow> ('u, 'f) lib_action" where
  "create_udp_socket addr =
     CoAwaitTask (P (Normal_socket (int AF_INET) SOCK_DGRAM 0 0)) (N Create_udp_socket_1)"

definition create_udp_socket_1 :: "lib_value resume_in \<Rightarrow> ('u, 'f) lib_action" where
  "create_udp_socket_1 = on_int (\<lambda>fd. CoStep (\<lambda>t p. Inl MissingReturn) (N Create_udp_socket_2))"

definition listener_accept :: "Socket \<Rightarrow> ('u, 'f) lib_action" where
  "listener_accept sock = CoAwaitTask (P (Accept_direct (listen_fd sock))) (N (Listener_accept_1 sock))"

definition listener_accept_1 :: "Socket \<Rightarrow> lib_value resume_in \<Rightarrow> ('u, 'f) lib_action" where
  "listener_accept_1 sock = on_int (\<lambda>client_sock.
     if Socket_is_ipv4 sock then CoReturn (VConnection (TcpConnection_ctor client_sock))
     else CoReturn (VConnection (TcpConnection_ctor client_sock)))"

definition listen_on :: "SocketAddr \<Rightarrow> int \<Rightarrow> ('u, 'f) lib_action" where
  "listen_on addr backlog = CoAwaitTask (N (Create_tcp_socket addr)) (N (Listen_on_1 backlog))"

text \<open>Moving the socket into the listener, binding and listening; the moved-from socket is dropped.\<close>

definition listen_step :: "int \<Rightarrow> Socket \<Rightarrow> nat \<Rightarrow> ('u, lib_value, 'f, sys_env) proc
    \<Rightarrow> (lib_value resume_in \<times> ('u, lib_value, 'f, sys_env) proc) res" where
  "listen_step backlog sock t p =
     (let (lsock, moved) = TcpListener_ctor sock in
      bind_res (listener_bind lsock (posix (env p))) (\<lambda>lg.
      Inr (RVal (VListener lsock),
           p\<lparr>env := (env p)\<lparr>posix := Socket_dtor moved (listener_listen backlog lsock lg)\<rparr>\<rparr>)))"

definition listen_on_1 :: "int \<Rightarrow> lib_value resume_in \<Rightarrow> ('u, 'f) lib_action" where
  "listen_on_1 backlog = on_value (\<lambda>v. case v of
       VSocket sock \<Rightarrow> CoStep (listen_step backlog sock) (N Listen_on_2)
     | _ \<Rightarrow> CoThrow (LogicError ''not a socket''))"

definition listen_on_2 :: "lib_value resume_in \<Rightarrow> ('u, 'f) lib_action" where
  "listen_on_2 = on_value CoReturn"

definition multishot_accept_then :: "Socket \<Rightarrow> 'f \<Rightarrow> ('u, 'f) lib_action" where
  "multishot_accept_then sock f =
     CoAwaitTask (P (Multishot_accept_direct (Socket_fd sock))) (N (Multishot_accept_then_1 f))"

text \<open>The endless loop: send what has been accepted, then wait to be woken.\<close>

definition multishot_accept_then_1 :: "liburing \<Rightarrow> 'f \<Rightarrow> lib_value resume_in \<Rightarrow> ('u, 'f) lib_action" where
  "multishot_accept_then_1 L f = on_unit
     (CoStep (\<lambda>t. as_step VUnit (mshot_accept_send_awaiting_fd_and_process L f)) (N (Multishot_accept_then_2 f)))"

definition multishot_accept_then_2 :: "'f \<Rightarrow> lib_value resume_in \<Rightarrow> ('u, 'f) lib_action" where
  "multishot_accept_then_2 f = on_unit (CoAwaitPending (N (Multishot_accept_then_1 f)))"

section \<open>All coroutines of the library\<close>

fun prep_code :: "liburing \<Rightarrow> prep_label \<Rightarrow> lib_value resume_in \<Rightarrow> ('u, 'f) lib_action" where
  "prep_code L (Accept s fl) inp = prep_accept L s fl"
| "prep_code L Accept_1 inp = on_cqe prep_accept_result inp"
| "prep_code L (Accept_direct s) inp = prep_accept_direct L s"
| "prep_code L Accept_direct_1 inp = on_cqe prep_accept_direct_result inp"
| "prep_code L (Close_socket s) inp = prep_close_socket L s"
| "prep_code L Close_socket_1 inp = on_cqe prep_close_socket_result inp"
| "prep_code L (Close_socket_direct s) inp = prep_close_socket_direct L s"
| "prep_code L Close_socket_direct_1 inp = on_cqe prep_close_socket_direct_result inp"
| "prep_code L (Direct_socket d ty pr fl) inp = prep_direct_socket L d ty pr fl"
| "prep_code L Direct_socket_1 inp = on_cqe prep_direct_socket_result inp"
| "prep_code L (Normal_socket d ty pr fl) inp = prep_normal_socket L d ty pr fl"
| "prep_code L Normal_socket_1 inp = on_cqe prep_normal_socket_result inp"
| "prep_code L (Multishot_accept_direct s) inp = prep_multishot_accept_direct L s"
| "prep_code L Multishot_accept_direct_1 inp = on_unit (CoReturn VUnit) inp"
| "prep_code L (Read s n) inp = prep_read L s n"
| "prep_code L Read_1 inp = on_cqe prep_read_result inp"
| "prep_code L (Recv_in_ring_buf s) inp = prep_recv_in_ring_buf L s"
| "prep_code L Recv_in_ring_buf_1 inp = on_cqe prep_recv_in_ring_buf_result inp"
| "prep_code L (Sleep_for ts n fl) inp = async_sleep_for L ts n fl"
| "prep_code L Sleep_for_1 inp = on_cqe async_sleep_for_result inp"
| "prep_code L (Write s buf) inp = prep_write L s buf"
| "prep_code L (Write_len s buf n) inp = prep_write_len L s buf n"
| "prep_code L Write_1 inp = on_cqe prep_write_result inp"

fun conn_code :: "liburing \<Rightarrow> conn_label \<Rightarrow> lib_value resume_in \<Rightarrow> ('u, 'f) lib_action" where
  "conn_code L (Read_some c n) inp = read_some c n"
| "conn_code L (Read_some_1 n) inp = read_some_1 n inp"
| "conn_code L Read_some_2 inp = return_count inp"
| "conn_code L (Write_some c buf n) inp = write_some c buf n"
| "conn_code L (Write_some_1 buf n) inp = write_some_1 buf n inp"
| "conn_code L (Write_all c buf) inp = write_all c buf"
| "conn_code L (Write_all_1 buf) inp = write_all_1 buf inp"
| "conn_code L Write_2 inp = return_count inp"
| "conn_code L (Conn_sleep tm) inp = conn_sleep tm"
| "conn_code L Conn_sleep_1 inp = on_unit (CoReturn VUnit) inp"
| "conn_code L (Ring_buf_receive c) inp = ring_buf_receive c"
| "conn_code L (Ring_buf_receive_1 c) inp = ring_buf_receive_1 c inp"
| "conn_code L (Ring_buf_receive_2 c) inp = ring_buf_receive_2 L c inp"
| "conn_code L (Ring_buf_receive_3 c) inp = ring_buf_receive_3 c inp"
| "conn_code L (Ring_buf_receive_4 r) inp = ring_buf_receive_4 r inp"

fun net_code :: "liburing \<Rightarrow> libc \<Rightarrow> 'f net_label \<Rightarrow> lib_value resume_in \<Rightarrow> ('u, 'f) lib_action" where
  "net_code L K (Create_tcp_socket a) inp = create_tcp_socket a"
| "net_code L K (Create_tcp_socket_1 a) inp = create_tcp_socket_1 K a inp"
| "net_code L K Create_tcp_socket_2 inp = create_tcp_socket_2 inp"
| "net_code L K (Create_udp_socket a) inp = create_udp_socket a"
| "net_code L K Create_udp_socket_1 inp = create_udp_socket_1 inp"
| "net_code L K Create_udp_socket_2 inp = on_value CoReturn inp"
| "net_code L K (Listener_accept s) inp = listener_accept s"
| "net_code L K (Listener_accept_1 s) inp = listener_accept_1 s inp"
| "net_code L K (Listen_on a n) inp = listen_on a n"
| "net_code L K (Listen_on_1 n) inp = listen_on_1 n inp"
| "net_code L K Listen_on_2 inp = listen_on_2 inp"
| "net_code L K (Multishot_accept_then s f) inp = multishot_accept_then s f"
| "net_code L K (Multishot_accept_then_1 f) inp = multishot_accept_then_1 L f inp"
| "net_code L K (Multishot_accept_then_2 f) inp = multishot_accept_then_2 f inp"

fun lib_code ::
  "liburing \<Rightarrow> libc \<Rightarrow> ('u \<Rightarrow> lib_value resume_in \<Rightarrow> ('u, 'f) lib_action) \<Rightarrow> ('u, 'f) label
   \<Rightarrow> lib_value resume_in \<Rightarrow> ('u, 'f) lib_action" where
  "lib_code L K user (User l) inp = user l inp"
| "lib_code L K user (P l) inp = prep_code L l inp"
| "lib_code L K user (C l) inp = conn_code L l inp"
| "lib_code L K user (N l) inp = net_code L K l inp"

end
