(* ===== verification/Library_Safety.thy ===== *)
theory Library_Safety
  imports Library_Code
begin

text \<open>
  The library's own coroutines keep to the interface that the coroutine layer relies on: what they do
  between two suspension points only extends the process, and what can go wrong in them is never the
  undefined behaviour of the coroutine layer. Together with the user's code they are the \<open>code\<close>
  that the theorems about the task loop are applied to.
\<close>

section \<open>Steps that only change the environment\<close>

lemma grow_alloc_token: "grow p q \<Longrightarrow> alloc_obj (Token tk) q = (a, q') \<Longrightarrow> grow p q'"
  by (erule grow_obj) auto

lemma grow_alloc_other:
  "grow p q \<Longrightarrow> alloc_obj (ConnHelper m) q = (a, q') \<Longrightarrow> grow p q'"
  "grow p q \<Longrightarrow> alloc_obj (MAccTask m') q = (a, q') \<Longrightarrow> grow p q'"
  by (erule grow_obj; auto)+

lemma grow_on_ring: "grow p q \<Longrightarrow> on_ring t f q = Inr q' \<Longrightarrow> grow p q'"
  by (drule on_ring_env) (auto intro: grow_env)

lemma grow_snd_alloc:
  "grow p q \<Longrightarrow> grow p (snd (alloc_obj (Token tk) q))"
  "grow p q \<Longrightarrow> grow p (snd (alloc_obj (ConnHelper m) q))"
  "grow p q \<Longrightarrow> grow p (snd (alloc_obj (MAccTask m') q))"
  by (auto intro: grow_alloc_token grow_alloc_other prod.collapse [symmetric])

lemmas grow_rules = grow_snd_alloc grow_refl grow_env grow_alloc_token grow_alloc_other grow_on_ring

section \<open>Faults of the operations\<close>

definition send_fault :: "fault \<Rightarrow> bool" where
  "send_fault e \<longleftrightarrow> e \<in> {NullSqe, DivisionByZero, OutOfRange, DeadObject} \<or> (\<exists>x. e = Throws x)"

lemma send_fault_not_machine: "send_fault e \<Longrightarrow> \<not> machine_fault e"
  by (auto simp: send_fault_def machine_fault_def)

lemma at_sqe_fault: "at_sqe i f u = Inl e \<Longrightarrow> e = NullSqe"
  by (cases i) simp_all

lemma pick_worker_fault: "pick_worker s = Inl e \<Longrightarrow> send_fault e"
  by (auto simp: pick_worker_def Let_def send_fault_def split: if_splits)

lemma conn_at_fault: "conn_at s c = Inl e \<Longrightarrow> e = DeadObject"
  by (auto simp: conn_at_def split: option.splits)

lemma release_fault: "TcpConnection_release x = Inl e \<Longrightarrow> send_fault e"
  by (auto simp: TcpConnection_release_def send_fault_def split: if_splits)

lemmas send_faults = at_sqe_fault pick_worker_fault conn_at_fault release_fault

section \<open>Sending to other threads\<close>

lemma parallel_spawn_grow:
  "parallel_spawn L t l p = Inr p' \<Longrightarrow> grow p p'"
  "parallel_spawn L t l p = Inl e \<Longrightarrow> send_fault e"
proof -
  obtain tk p1 where c: "create_coroutine l p = (tk, p1)" by fastforce
  obtain m p2 where m: "alloc_obj (MsgTask \<lparr>msg_task = task_handle tk\<rparr>) p1 = (m, p2)" by fastforce
  obtain a p3 where a: "alloc_obj (Token (control_token Op_RingTask)) p2 = (a, p3)" by fastforce
  have "grow p p2" by (rule grow_msg [OF grow_refl c m])
  then have g: "grow p p3" by (rule grow_alloc_token [OF _ a])
  show "grow p p'" if "parallel_spawn L t l p = Inr p'"
    using that c m a g by (auto simp: parallel_spawn_def bind_res_eq_Inr split_beta split: if_splits
        intro!: grow_env)
  show "send_fault e" if "parallel_spawn L t l p = Inl e"
    using that c m a by (auto simp: parallel_spawn_def bind_res_eq_Inl split_beta send_fault_def [of NullSqe]
        send_fault_def [of "Throws _"] split: if_splits dest: send_faults)
qed

lemma parallel_spawn_conn_grow:
  "parallel_spawn_conn L t g c p = Inr p' \<Longrightarrow> grow p p'"
  "parallel_spawn_conn L t g c p = Inl e \<Longrightarrow> send_fault e"
proof -
  show "grow p p'" if "parallel_spawn_conn L t g c p = Inr p'"
    using that
    by (auto simp: parallel_spawn_conn_def bind_res_eq_Inr Let_def split_beta split: if_splits
        intro!: grow_env grow_rules)
  show "send_fault e" if "parallel_spawn_conn L t g c p = Inl e"
    using that
    by (auto simp: parallel_spawn_conn_def bind_res_eq_Inl Let_def send_fault_def [of NullSqe]
        send_fault_def [of DeadObject] send_fault_def [of "Throws _"] split_beta split: if_splits dest: send_faults)
qed

lemma send_awaiting_grow:
  "send_awaiting L f fds p = Inr p' \<Longrightarrow> grow p p'"
  "send_awaiting L f fds p = Inl e \<Longrightarrow> send_fault e"
proof (induction fds arbitrary: f p)
  case (Cons fd fds)
  {
    case 1
    then show ?case
      by (auto simp: bind_res_eq_Inr Let_def split_beta dest!: Cons.IH(1)
          elim!: grow_trans [rotated] intro!: grow_env grow_rules)
  next
    case 2
    then show ?case
      by (auto simp: bind_res_eq_Inl Let_def send_fault_def [of NullSqe] split_beta
          dest: send_faults Cons.IH(2))
  }
qed (auto intro: grow_refl)

lemma mshot_send_grow:
  "mshot_accept_send_awaiting_fd_and_process L f p = Inr p' \<Longrightarrow> grow p p'"
  "mshot_accept_send_awaiting_fd_and_process L f p = Inl e \<Longrightarrow> send_fault e"
  by (auto simp: mshot_accept_send_awaiting_fd_and_process_def bind_res_eq_Inr bind_res_eq_Inl
      dest!: send_awaiting_grow intro: grow_env)

lemma safe_as_step:
  assumes "\<And>t p p'. f t p = Inr p' \<Longrightarrow> grow p p'" and "\<And>t p e. f t p = Inl e \<Longrightarrow> send_fault e"
  shows "safe_step (\<lambda>t. as_step v (f t))"
  unfolding safe_step_def
proof (intro allI conjI impI)
  fix t p e assume "as_step v (f t) p = Inl e"
  then have "f t p = Inl e" by (auto simp: as_step_def split: sum.splits fault.splits)
  then show "\<not> machine_fault e" using assms(2) send_fault_not_machine by blast
next
  fix t p r p' assume "as_step v (f t) p = Inr (r, p')"
  then show "grow p p'" using assms(1) [of t p p']
    by (auto simp: as_step_def intro: grow_refl split: sum.splits fault.splits)
qed

lemma safe_spawn_steps:
  "safe_step (\<lambda>t. as_step v (parallel_spawn L t l))"
  "safe_step (\<lambda>t. as_step v (parallel_spawn_conn L t g c))"
  "safe_step (\<lambda>t. as_step v (mshot_accept_send_awaiting_fd_and_process L f))"
  by (rule safe_as_step; auto dest: parallel_spawn_grow parallel_spawn_conn_grow mshot_send_grow)+


section \<open>The coroutines of the library\<close>

lemma safe_envI:
  fixes f :: "nat \<Rightarrow> ('l, 'v, 'f, 's) proc \<Rightarrow> ('v resume_in \<times> ('l, 'v, 'f, 's) proc) res"
  assumes "\<And>t p e. f t p = Inl e \<Longrightarrow> \<not> machine_fault e"
    and "\<And>t p x p'. f t p = Inr (x, p') \<Longrightarrow> \<exists>s. p' = p\<lparr>env := s\<rparr>"
  shows "safe_step f"
proof -
  have "grow p p'" if "f t p = Inr (x, p')" for t p x p'
  proof -
    obtain s where "p' = p\<lparr>env := s\<rparr>" using assms(2) \<open>f t p = Inr (x, p')\<close> by blast
    then show ?thesis using grow_env [OF grow_refl, of p s] by simp
  qed
  then show ?thesis using assms(1) unfolding safe_step_def by blast
qed

lemma env_self: "\<exists>s. (p :: ('l, 'v, 'f, 's) proc) = p\<lparr>env := s\<rparr>"
  by (rule exI [of _ "env p"]) simp

lemma safe_load_socket: "safe_step (load_socket c)"
  by (rule safe_envI)
    (auto simp: load_socket_def bind_res_eq_Inl bind_res_eq_Inr machine_fault_def conn_at_def env_self
      split: option.splits)

lemma safe_extend_step: "safe_step (extend_step L)"
  by (rule safe_envI) (auto simp: extend_step_def split_beta)

lemma take_received_fault: "take_received c r fl t s = Inl e \<Longrightarrow> \<not> machine_fault e"
  by (auto simp: take_received_def bind_res_eq_Inl conn_at_def copy_data_def repay_def machine_fault_def Let_def
      split: option.splits if_splits)

lemma safe_received_step: "safe_step (received_step c r fl)"
  by (rule safe_envI) (auto simp: received_step_def bind_res_eq_Inl bind_res_eq_Inr dest: take_received_fault)

lemma Socket_ctor_fault: "Socket_ctor K fd a lg = Inl e \<Longrightarrow> \<exists>x. e = Throws x"
  by (auto simp: Socket_ctor_def set_reuse_def bind_res_eq_Inl Let_def split: if_splits)

lemma safe_socket_step: "safe_step (socket_step K fd a)"
  by (rule safe_envI)
    (auto simp: socket_step_def env_self dest: Socket_ctor_fault split: sum.splits fault.splits)

lemma listener_bind_fault: "listener_bind s lg = Inl e \<Longrightarrow> \<not> machine_fault e"
  by (auto simp: listener_bind_def socket_address_def bind_res_eq_Inl machine_fault_def sockaddr_v4_def
      sockaddr_v6_def split: if_splits addr_union.splits)

lemma safe_listen_step: "safe_step (listen_step n s)"
  by (rule safe_envI)
    (auto simp: listen_step_def split_beta bind_res_eq_Inl bind_res_eq_Inr dest: listener_bind_fault)

lemma safe_missing_return: "safe_step (\<lambda>t p. Inl MissingReturn)"
  by (simp add: safe_step_def machine_fault_def)

lemmas safe_library_steps [simp] = safe_load_socket safe_extend_step safe_received_step safe_socket_step
  safe_listen_step safe_missing_return safe_spawn_steps

lemma safe_action_simps [simp]:
  "safe_action (CoReturn v)" "safe_action (CoThrow e)" "safe_action (CoAwaitTask g k)"
  "safe_action (CoAwaitPending k)" "safe_action (CoStep f k) = safe_step f"
  by (simp_all add: safe_action_def)

lemma safe_on_value: "(\<And>v. safe_action (g v)) \<Longrightarrow> safe_action (on_value g inp)"
  by (cases inp) (simp_all add: on_value_def)

lemma safe_on_int: "(\<And>n. safe_action (g n)) \<Longrightarrow> safe_action (on_int g inp)"
  unfolding on_int_def by (rule safe_on_value) (simp split: lib_value.splits)

lemma safe_on_unit: "safe_action a \<Longrightarrow> safe_action (on_unit a inp)"
  by (cases inp) (simp_all add: on_unit_def)

lemma safe_prep_code: "safe_action (prep_code L l inp)"
  by (cases "(L, l, inp)" rule: prep_code.cases) (simp_all add: safe_on_cqe safe_on_unit)

lemma safe_conn_code: "safe_action (conn_code L l inp)"
  by (cases "(L, l, inp)" rule: conn_code.cases)
    (auto simp: read_some_def read_some_1_def write_some_def write_some_1_def write_all_def write_all_1_def
      return_count_def conn_sleep_def ring_buf_receive_def ring_buf_receive_1_def ring_buf_receive_2_def
      ring_buf_receive_3_def ring_buf_receive_4_def split: lib_value.splits
      intro!: safe_on_value safe_on_int safe_on_unit)

lemma safe_net_code: "safe_action (net_code L K l inp)"
  by (cases "(L, K, l, inp)" rule: net_code.cases)
    (auto simp: create_tcp_socket_def create_tcp_socket_1_def create_tcp_socket_2_def create_udp_socket_def
      create_udp_socket_1_def listener_accept_def listener_accept_1_def listen_on_def listen_on_1_def
      listen_on_2_def multishot_accept_then_def multishot_accept_then_1_def multishot_accept_then_2_def
      Let_def split: lib_value.splits intro!: safe_on_value safe_on_int safe_on_unit)

theorem lib_code_safe:
  assumes "\<And>l inp. safe_action (user l inp)"
  shows "safe_code (lib_code L K user)"
  unfolding safe_code_def
proof (intro allI)
  fix l inp
  show "safe_action (lib_code L K user l inp)"
    by (cases l) (simp_all add: assms safe_prep_code safe_conn_code safe_net_code)
qed

end
