(* ===== verification/Loop_Termination.thy ===== *)
theory Loop_Termination
  imports Task_Loop Direct_Style
begin

text \<open>
  When a pass of the task loop ends. A resume of a task follows transfers of control through as many
  coroutines as do not suspend, and a pass visits the tasks that are spawned during it, so neither
  returns in general. Both do for coroutines whose points can be ranked: a transfer that does not lead
  to a suspension lowers the rank, and so does a spawn, by the rank of what it spawns. A coroutine
  may loop for ever as long as it suspends in every round, because awaiting a coroutine that blocks
  costs nothing.
\<close>

declare split_paired_All [simp del] split_paired_Ex [simp del]

section \<open>Runs of transfers keep the invariant\<close>

lemma csteps_ok:
  assumes "csteps code t c p c' p'" and "safe_code code" and "run_inv S ptr c p"
  shows "\<exists>S'. run_inv S' ptr c' p' \<and> untouched S S' ptr p p'"
  using assms
proof (induction arbitrary: S rule: csteps.induct)
  case (csteps_step c p c1 p1 c2 p2)
  then obtain S1 where "run_inv S1 ptr c1 p1" "untouched S S1 ptr p p1"
    using cstep_ok [OF csteps_step.prems(2,1), of t] by (auto simp: step_ok_def)
  then show ?case using csteps_step.IH csteps_step.prems(1) untouched_trans by blast
qed auto

text \<open>The chain of a task is determined by what its coroutines await.\<close>

fun path :: "('l, 'v) frames \<Rightarrow> handle list \<Rightarrow> bool" where
  "path F [] = True"
| "path F [h] = True"
| "path F (h # h' # hs) = ((\<exists>f l. F h = Some f \<and> costate f = Suspended l (AwTask h')) \<and> path F (h' # hs))"

definition stops_at :: "('l, 'v) frames \<Rightarrow> handle \<Rightarrow> bool" where
  "stops_at F h \<longleftrightarrow> (\<forall>f l h'. F h = Some f \<longrightarrow> costate f \<noteq> Suspended l (AwTask h'))"

lemma linked_path: "linked F ptr c hs \<Longrightarrow> path F hs"
  by (induction F hs arbitrary: c rule: path.induct) auto

lemma path_unique:
  assumes "path F xs" and "path F ys" and "xs \<noteq> []" and "ys \<noteq> []" and "hd xs = hd ys"
    and "stops_at F (last xs)" and "stops_at F (last ys)"
  shows "xs = ys"
  using assms
proof (induction xs arbitrary: ys)
  case (Cons x xs)
  then obtain zs where ys: "ys = x # zs" by (cases ys) auto
  show ?case
  proof (cases xs)
    case Nil
    then show ?thesis using Cons.prems ys by (cases zs) (auto simp: stops_at_def)
  next
    case (Cons x' xs')
    then obtain z zs' where zs: "zs = z # zs'"
      using Cons.prems ys by (cases zs) (auto simp: stops_at_def)
    then have "x' = z" using Cons.prems ys Cons by auto
    then show ?thesis using Cons.IH [of zs] Cons.prems ys Cons zs by auto
  qed
qed simp

lemma path_snoc:
  "path F (hs @ [a, b]) \<longleftrightarrow> path F (hs @ [a]) \<and> (\<exists>f l. F a = Some f \<and> costate f = Suspended l (AwTask b))"
proof (induction hs)
  case (Cons h hs)
  then show ?case by (cases hs) auto
qed simp

lemma path_cong: "(\<And>h. h \<in> set (butlast hs) \<Longrightarrow> F' h = F h) \<Longrightarrow> path F' hs = path F hs"
  by (induction F hs rule: path.induct) auto

lemma exec_chain:
  assumes I: "run_inv S ptr (Exec h l inp) p" and hs: "path (frames p) hs" "hs \<noteq> []" "last hs = h"
    and r: "hd hs = hd (S ptr)"
  shows "S ptr = hs"
proof -
  obtain ys f where S: "S ptr = ys @ [h]" and f: "frames p h = Some f" "costate f = Running"
    and L: "linked (frames p) ptr None (ys @ [h])"
    using exec_facts [OF I] by metis
  have "stops_at (frames p) h" using f by (auto simp: stops_at_def)
  then show ?thesis
    using path_unique [of "frames p" "S ptr" hs] linked_path [OF L] S hs r by auto
qed

lemma run_inv_root:
  "run_inv S ptr c p \<Longrightarrow> run_inv S' ptr c' p' \<Longrightarrow> untouched S S' ptr p p' \<Longrightarrow> hd (S' ptr) = hd (S ptr)"
  by (auto simp: run_inv_def untouched_def)

section \<open>Coroutines that suspend before they return\<close>

inductive blocks :: "('l, 'v, 'f, 's) code \<Rightarrow> nat \<Rightarrow> 'l \<Rightarrow> 'v resume_in \<Rightarrow> bool" for code t where
  blocks_uring: "code l inp = CoAwaitUring op' prep' k \<Longrightarrow> blocks code t l inp"
| blocks_pending: "code l inp = CoAwaitPending k \<Longrightarrow> blocks code t l inp"
| blocks_mshot: "code l inp = CoAwaitMshot prep' k \<Longrightarrow> blocks code t l inp"
| blocks_task: "code l inp = CoAwaitTask g k \<Longrightarrow> blocks code t g RStart \<Longrightarrow> blocks code t l inp"
| blocks_step: "code l inp = CoStep f k \<Longrightarrow> (\<And>p x p'. f t p = Inr (x, p') \<Longrightarrow> loops p' t = loops p t)
    \<Longrightarrow> (\<And>p x p'. f t p = Inr (x, p') \<Longrightarrow> blocks code t k x) \<Longrightarrow> blocks code t l inp"

lemma upd_task_length: "upd_task q g p = Inr p' \<Longrightarrow> length (loops p' t) = length (loops p t)"
  by (auto simp: upd_task_def Let_def split: if_splits)

lemma set_costate_loops: "set_costate h c p = Inr p' \<Longrightarrow> loops p' = loops p"
  by (auto simp: set_costate_def split: option.splits)

lemma upd_promise_loops: "upd_promise h g p = Inr p' \<Longrightarrow> loops p' = loops p"
  by (auto simp: upd_promise_def split: option.splits)

lemma perform_length:
  assumes "perform t h act p = Inr (c, p')" and "\<And>f k. act \<noteq> CoStep f k"
  shows "length (loops p' s) = length (loops p s)"
  using assms
  by (cases act)
    (auto simp: perform_def finish_def bind_res_eq_Inr Let_def create_coroutine_def TaskAwaier_await_suspend_def
      UringAwaiter_ctor_def alloc_obj_def UringAwaiter_await_suspend_def PendingAwaiter_await_suspend_def
      MultishotAcceptDirectAwaiter_ctor_def MultishotAcceptDirectAwaiter_await_suspend_def
      dest!: upd_task_length [where t = s] set_costate_loops upd_promise_loops)

lemma run_ctl_back: "cstep code t c p = Inr (Back, p') \<Longrightarrow> run_ctl code t c p = Some (Inr p')"
  using run_ctl_csteps [OF csteps_one] by fastforce

lemma run_ctl_fault: "cstep code t c p = Inl e \<Longrightarrow> run_ctl code t c p = Some (Inl e)"
  by (subst run_ctl.simps) (cases c; simp add: cstep_def)


definition suspending :: "('l, 'v, 'f, 's) action \<Rightarrow> bool" where
  "suspending act =
     (case act of CoAwaitUring op' prep' k \<Rightarrow> True | CoAwaitPending k \<Rightarrow> True | CoAwaitMshot prep' k \<Rightarrow> True
      | _ \<Rightarrow> False)"

lemma suspending_runs:
  assumes "suspending (code l inp)"
  shows "\<exists>res. run_ctl code t (Exec h l inp) p = Some res \<and>
    (\<forall>p'. res = Inr p' \<longrightarrow> length (loops p' t) = length (loops p t))"
proof (cases "perform t h (code l inp) p")
  case (Inl e)
  then show ?thesis using run_ctl_fault [of code t "Exec h l inp" p] by (simp add: cstep_def)
next
  case (Inr cp)
  then have "fst cp = Back"
    using assms by (cases "code l inp") (auto simp: suspending_def perform_def bind_res_eq_Inr)
  then obtain p' where p': "perform t h (code l inp) p = Inr (Back, p')" using Inr by (cases cp) auto
  moreover have "code l inp \<noteq> CoStep f k" for f k using assms by (auto simp: suspending_def)
  ultimately have "length (loops p' t) = length (loops p t)" using perform_length by blast
  then show ?thesis using run_ctl_back [of code t "Exec h l inp" p p'] p' by (simp add: cstep_def)
qed

text \<open>Starting an awaited coroutine: the two transfers, and the chain with the callee on top.\<close>

lemma start_callee:
  assumes code: "safe_code code" and I: "run_inv S ptr (Exec h l inp) p" and act: "code l inp = CoAwaitTask g k"
  obtains p1 S1 where "run_ctl code t (Exec h l inp) p = run_ctl code t (Exec (fresh p) g RStart) p1"
    and "run_inv S1 ptr (Exec (fresh p) g RStart) p1" and "untouched S S1 ptr p p1" and "S1 ptr = S ptr @ [fresh p]"
    and "\<And>x. x \<noteq> h \<Longrightarrow> x \<noteq> fresh p \<Longrightarrow> frames p1 x = frames p x"
    and "\<exists>f w. frames p1 h = Some f \<and> costate f = Suspended k w" and "loops p1 = loops p"
proof -
  obtain ys f where S: "S ptr = ys @ [h]" and d: "distinct (ys @ [h])" and f: "frames p h = Some f" "costate f = Running"
    and L: "linked (frames p) ptr None (ys @ [h])" and dom: "set (ys @ [h]) \<subseteq> dom (frames p)" and b: "bounded p"
    using exec_facts [OF I] by metis
  obtain p1 where p1: "csteps code t (Exec h l inp) p (Exec (fresh p) g RStart) p1"
    "frames p1 = (frames p)(h \<mapsto> f\<lparr>costate := Suspended k (AwTask (fresh p))\<rparr>,
           fresh p \<mapsto> \<lparr>promise = set_chain_root (this_chain_task (promise f)) (set_caller (Some h) new_promise),
                       costate = Running\<rparr>)" "loops p1 = loops p"
    using await_call [of p h f code l inp g k t] b f act by metis
  obtain S1 where S1: "run_inv S1 ptr (Exec (fresh p) g RStart) p1" "untouched S S1 ptr p p1"
    using csteps_ok [OF p1(1) code I] by blast
  have fr: "fresh p \<notin> set (ys @ [h])" using dom bounded_frame [OF b] by blast
  have "path (frames p1) (ys @ [h]) = path (frames p) (ys @ [h])"
    by (rule path_cong) (use d fr p1(2) in auto)
  then have "path (frames p1) (ys @ [h])" using linked_path [OF L] by simp
  then have "path (frames p1) (ys @ [h, fresh p])" using fr by (auto simp: path_snoc p1(2))
  then have "S1 ptr = ys @ [h, fresh p]"
    by (rule exec_chain [OF S1(1)]) (use run_inv_root [OF I S1] S in \<open>cases ys; auto\<close>)+
  then show ?thesis
    using that [OF run_ctl_csteps [OF p1(1)] S1] S p1 fr by auto
qed

lemma blocks_runs:
  assumes "blocks code t l inp" and "safe_code code" and "run_inv S ptr (Exec h l inp) p"
  shows "\<exists>res. run_ctl code t (Exec h l inp) p = Some res \<and>
    (\<forall>p'. res = Inr p' \<longrightarrow> length (loops p' t) = length (loops p t))"
  using assms
proof (induction arbitrary: S h p rule: blocks.induct)
  case (blocks_task l inp g k)
  obtain p1 S1 where "run_ctl code t (Exec h l inp) p = run_ctl code t (Exec (fresh p) g RStart) p1"
    "run_inv S1 ptr (Exec (fresh p) g RStart) p1" "loops p1 = loops p"
    using start_callee [OF blocks_task.prems(1,2) blocks_task.hyps(1), of t] by metis
  then show ?case using blocks_task.IH [OF blocks_task.prems(1)] by metis
next
  case (blocks_step l inp f k)
  show ?case
  proof (cases "f t p")
    case (Inl e)
    then show ?thesis using run_ctl_fault [of code t "Exec h l inp" p] blocks_step.hyps(1)
      by (simp add: cstep_def perform_def)
  next
    case (Inr xp)
    obtain x p1 where xp: "xp = (x, p1)" by fastforce
    have st: "cstep code t (Exec h l inp) p = Inr (Exec h k x, p1)"
      using Inr xp blocks_step.hyps(1) by (simp add: cstep_def perform_def)
    obtain S1 where "run_inv S1 ptr (Exec h k x) p1"
      using cstep_ok [OF blocks_step.prems(2,1), of t] st by (auto simp: step_ok_def)
    then have "\<exists>res. run_ctl code t (Exec h k x) p1 = Some res \<and>
        (\<forall>p'. res = Inr p' \<longrightarrow> length (loops p' t) = length (loops p1 t))"
      by (rule blocks_step.IH [OF Inr [unfolded xp] blocks_step.prems(1)])
    then show ?thesis
      using blocks_step.hyps(2) [OF Inr [unfolded xp]] run_ctl_csteps [OF csteps_one [OF st]] by metis
  qed
qed (rule suspending_runs, simp add: suspending_def)+


section \<open>Ranks\<close>

definition label_rank :: "('l \<Rightarrow> nat) \<Rightarrow> ('l, 'v) frames \<Rightarrow> handle \<Rightarrow> nat" where
  "label_rank r F h =
     (case F h of None \<Rightarrow> 0 | Some f \<Rightarrow> (case costate f of Suspended l w \<Rightarrow> r l | _ \<Rightarrow> 0))"

definition chain_rank :: "('l \<Rightarrow> nat) \<Rightarrow> ('l, 'v) frames \<Rightarrow> handle list \<Rightarrow> nat" where
  "chain_rank r F hs = sum_list (map (\<lambda>h. Suc (label_rank r F h)) hs)"

text \<open>The tasks of thread \<open>t\<close> from position \<open>n\<close> on, each with the rank of its root coroutine.\<close>

definition root_rank :: "('l \<Rightarrow> nat) \<Rightarrow> ('l, 'v, 'f, 's) proc \<Rightarrow> task_ptr \<Rightarrow> nat" where
  "root_rank r p q =
     (case task_handle (sched_task (task_at p q)) of None \<Rightarrow> 0 | Some h \<Rightarrow> label_rank r (frames p) h)"

definition spawn_load :: "('l \<Rightarrow> nat) \<Rightarrow> nat \<Rightarrow> nat \<Rightarrow> ('l, 'v, 'f, 's) proc \<Rightarrow> nat" where
  "spawn_load r t n p = (\<Sum>j = n..<length (loops p t). 2 + root_rank r p (t, j))"

text \<open>
  A ranking: a transfer to a coroutine that does not block, and a step of plain code together with
  the tasks it spawns on the running thread, lower the rank.
\<close>

definition ranked :: "('l, 'v, 'f, 's) code \<Rightarrow> nat \<Rightarrow> ('l \<Rightarrow> nat) \<Rightarrow> bool" where
  "ranked code t r \<longleftrightarrow>
     (\<forall>l inp g k. code l inp = CoAwaitTask g k \<longrightarrow> blocks code t g RStart \<or> r g + r k + 1 < r l) \<and>
     (\<forall>l inp f k p x p'. code l inp = CoStep f k \<longrightarrow> f t p = Inr (x, p') \<longrightarrow>
        r k + spawn_load r t (length (loops p t)) p' < r l)"

lemma chain_rank_cong: "(\<And>h. h \<in> set hs \<Longrightarrow> F' h = F h) \<Longrightarrow> chain_rank r F' hs = chain_rank r F hs"
  unfolding chain_rank_def by (intro arg_cong [of _ _ sum_list] map_cong) (auto simp: label_rank_def)

lemma chain_rank_append [simp]: "chain_rank r F (xs @ ys) = chain_rank r F xs + chain_rank r F ys"
  by (simp add: chain_rank_def)

lemma chain_rank_simps [simp]: "chain_rank r F [] = 0" "chain_rank r F (h # hs) = Suc (label_rank r F h) + chain_rank r F hs"
  by (simp_all add: chain_rank_def)

lemma untouched_length:
  assumes "untouched S S' ptr p p'"
  shows "length (loops p t) \<le> length (loops p' t)"
proof (rule ccontr)
  assume "\<not> ?thesis"
  then have "in_range p (t, length (loops p' t))" by (simp add: in_range_def)
  then have "in_range p' (t, length (loops p' t))" using assms unfolding untouched_def by blast
  then show False by (simp add: in_range_def)
qed

text \<open>What a pass still has before it, from position \<open>n\<close> on.\<close>

definition load :: "chains \<Rightarrow> ('l \<Rightarrow> nat) \<Rightarrow> nat \<Rightarrow> nat \<Rightarrow> ('l, 'v, 'f, 's) proc \<Rightarrow> nat" where
  "load S r t n p = (\<Sum>j = n..<length (loops p t). Suc (chain_rank r (frames p) (S (t, j))))"

text \<open>The tasks that a run spawns are left alone until the loop comes to them.\<close>

lemma load_untouched:
  assumes U: "untouched S S' (t, i) p p'" and n: "i < n" "n \<le> length (loops p t)"
  shows "load S' r t n p' = load S r t n p + load S' r t (length (loops p t)) p'"
proof -
  have same: "chain_rank r (frames p') (S' (t, j)) = chain_rank r (frames p) (S (t, j))"
    if j: "n \<le> j" "j < length (loops p t)" for j
  proof -
    have q: "in_range p (t, j)" "(t, j) \<noteq> (t, i)" using j n by (auto simp: in_range_def)
    then have "S' (t, j) = S (t, j)" "\<And>h. h \<in> set (S (t, j)) \<Longrightarrow> frames p' h = frames p h"
      using U by (simp_all add: untouched_def)
    then show ?thesis using chain_rank_cong by metis
  qed
  have "load S' r t n p' = (\<Sum>j = n..<length (loops p t). Suc (chain_rank r (frames p') (S' (t, j)))) +
      load S' r t (length (loops p t)) p'"
    unfolding load_def
    using sum.atLeastLessThan_concat [OF n(2) untouched_length [OF U], of "\<lambda>j. Suc (chain_rank r (frames p') (S' (t, j)))"]
    by simp
  also have "(\<Sum>j = n..<length (loops p t). Suc (chain_rank r (frames p') (S' (t, j)))) = load S r t n p"
    unfolding load_def using same by (intro sum.cong) auto
  finally show ?thesis .
qed

lemma load_same_length: "length (loops p' t) = n \<Longrightarrow> load S r t n p' = 0"
  by (simp add: load_def)

text \<open>A task that plain code has just spawned is a chain of one coroutine, at its start.\<close>

definition fresh_task :: "('l, 'v, 'f, 's) proc \<Rightarrow> task_ptr \<Rightarrow> bool" where
  "fresh_task p q \<longleftrightarrow> (\<exists>h f l. task_handle (sched_task (task_at p q)) = Some h \<and> frames p h = Some f \<and>
     costate f = Suspended l AwInitial)"

lemma fresh_task_extends: "fresh_task p q \<Longrightarrow> in_range p q \<Longrightarrow> extends p p' \<Longrightarrow> fresh_task p' q"
  unfolding fresh_task_def extends_def by metis

lemma emplace_back_fresh:
  assumes "bounded p" and "emplace_back t l p = Inr p'" and "in_range p' q" and "\<not> in_range p q"
  shows "fresh_task p' q"
  using assms
  by (cases q) (auto simp: emplace_back_def create_coroutine_def enqueue_def Let_def upd_promise_def in_range_def
      fresh_task_def task_at_def nth_append split: if_splits)

lemma grow_fresh:
  assumes "grow p p'" and O: "others S o' p" and o': "\<And>ptr. o' = Some ptr \<Longrightarrow> in_range p ptr"
    and "in_range p' q" and "\<not> in_range p q"
  shows "fresh_task p' q"
  using assms(1,4,5)
proof (induction rule: grow.induct)
  case (grow_spawn u t l u')
  obtain S' where S': "others S' o' u" and X: "extends p u" using grow_others [OF grow_spawn.hyps(1) O o'] by blast
  note b = others_bounded [OF S']
  show ?case
  proof (cases "in_range u q")
    case True
    then show ?thesis
      using fresh_task_extends emplace_back_extends [OF b grow_spawn.hyps(2)] grow_spawn.IH grow_spawn.prems(2) by blast
  next
    case False
    then show ?thesis by (rule emplace_back_fresh [OF b grow_spawn.hyps(2) grow_spawn.prems(1)])
  qed
next
  case (grow_obj u ob a u')
  obtain S' where "others S' o' u" using grow_others [OF grow_obj.hyps(1) O o'] by blast
  then have "extends u u'" by (rule alloc_obj_extends [OF others_bounded grow_obj.hyps(3)])
  moreover have "in_range u q" using grow_obj.prems(1) grow_obj.hyps(3) by (auto simp: alloc_obj_def)
  ultimately show ?case using grow_obj.IH grow_obj.prems fresh_task_extends by blast
next
  case (grow_frame u l tk u')
  obtain S' where "others S' o' u" using grow_others [OF grow_frame.hyps(1) O o'] by blast
  then have "extends u u'" by (rule create_coroutine_extends [OF others_bounded grow_frame.hyps(2)])
  moreover have "in_range u q" using grow_frame.prems(1) grow_frame.hyps(2) by (auto simp: create_coroutine_def)
  ultimately show ?case using grow_frame.IH grow_frame.prems fresh_task_extends by blast
next
  case (grow_msg u l tk u1 a u')
  obtain S' where S': "others S' o' u" using grow_others [OF grow_msg.hyps(1) O o'] by blast
  have "extends u u1" by (rule create_coroutine_extends [OF others_bounded [OF S'] grow_msg.hyps(2)])
  moreover have "extends u1 u'"
    by (rule alloc_obj_extends [OF others_bounded [OF others_create_coroutine [OF S' grow_msg.hyps(2)]] grow_msg.hyps(3)])
  ultimately have "extends u u'" by (rule extends_trans)
  moreover have "in_range u q"
    using grow_msg.prems(1) grow_msg.hyps(2,3) by (auto simp: create_coroutine_def alloc_obj_def)
  ultimately show ?case using grow_msg.IH grow_msg.prems fresh_task_extends by blast
qed (auto simp: fresh_task_def)

lemma fresh_chain_rank:
  assumes "at_rest (frames p) (objs p) hs q (task_at p q)" and "fresh_task p q"
  shows "chain_rank r (frames p) hs = Suc (root_rank r p q)"
proof -
  obtain h ys where hs: "hs = h # ys" and th: "task_handle (sched_task (task_at p q)) = Some h"
    using assms(1) by (cases hs) (auto simp: at_rest_def)
  obtain f l where f: "frames p h = Some f" "costate f = Suspended l AwInitial"
    using assms(2) th by (auto simp: fresh_task_def)
  have "ys = []" using assms(1) f hs by (cases ys) (auto simp: at_rest_def split: if_splits)
  then show ?thesis using th hs by (simp add: root_rank_def)
qed

section \<open>A resume returns\<close>

definition returns_within ::
  "chains \<Rightarrow> task_ptr \<Rightarrow> ('l \<Rightarrow> nat) \<Rightarrow> nat \<Rightarrow> ('l, 'v, 'f, 's) proc \<Rightarrow> nat \<Rightarrow> ('l, 'v, 'f, 's) proc res option \<Rightarrow> bool" where
  "returns_within S ptr r n p m ret \<longleftrightarrow>
     (\<exists>res. ret = Some res \<and> (\<forall>p'. res = Inr p' \<longrightarrow> (\<exists>S'. run_inv S' ptr Back p' \<and> untouched S S' ptr p p' \<and>
        load S' r (fst ptr) n p' \<le> load S r (fst ptr) n p + m)))"

lemma returns_withinI:
  assumes "returns_within S1 ptr r n p1 m1 ret" and "untouched S S1 ptr p p1"
    and "load S1 r (fst ptr) n p1 + m1 \<le> load S r (fst ptr) n p + m"
  shows "returns_within S ptr r n p m ret"
  using assms untouched_trans unfolding returns_within_def by fastforce

lemma returns_fault: "ret = Some (Inl e) \<Longrightarrow> returns_within S ptr r n p m ret"
  by (simp add: returns_within_def)

lemma quiet_run_returns:
  assumes I: "run_inv S (t, i) c p" and n: "i < n" "n \<le> length (loops p t)" and code: "safe_code code"
    and run: "\<exists>res. run_ctl code t c p = Some res \<and> (\<forall>p'. res = Inr p' \<longrightarrow> length (loops p' t) = length (loops p t))"
  shows "returns_within S (t, i) r n p m (run_ctl code t c p)"
proof -
  obtain res where res: "run_ctl code t c p = Some res"
    and len: "\<And>p'. res = Inr p' \<Longrightarrow> length (loops p' t) = length (loops p t)" using run by blast
  have "\<exists>S'. run_inv S' (t, i) Back p' \<and> untouched S S' (t, i) p p' \<and> load S' r t n p' \<le> load S r t n p + m"
    if p': "res = Inr p'" for p'
  proof -
    obtain S' where S': "run_inv S' (t, i) Back p'" "untouched S S' (t, i) p p'"
      using run_ctl_ok [OF code res I] p' by (auto simp: run_ok_def)
    then show ?thesis using load_untouched [OF S'(2) n] load_same_length [OF len [OF p']] by auto
  qed
  then show ?thesis using res by (simp add: returns_within_def)
qed

text \<open>The transfers from the end of a callee to the point where its caller goes on.\<close>

lemma return_to_caller:
  assumes code: "safe_code code" and I: "run_inv S ptr (Exec h l inp) p" and act: "code l inp = outcome rr"
    and S: "S ptr = zs @ [c, h]"
  obtains k p1 S1 where "run_ctl code t (Exec h l inp) p = run_ctl code t (Exec c k (deliver rr)) p1"
    and "run_inv S1 ptr (Exec c k (deliver rr)) p1" and "untouched S S1 ptr p p1" and "S1 ptr = zs @ [c]"
    and "\<And>x. x \<in> set zs \<Longrightarrow> frames p1 x = frames p x"
    and "label_rank r (frames p) c = r k" and "loops p1 = loops p"
proof -
  obtain ys fh where S': "S ptr = ys @ [h]" and d': "distinct (ys @ [h])" and fh: "frames p h = Some fh" "costate fh = Running"
    and L': "linked (frames p) ptr None (ys @ [h])"
    and pr': "pr_ok ptr (if ys = [] then None else Some (last ys)) (promise fh)"
    using exec_facts [OF I] by metis
  have ys: "ys = zs @ [c]" using S S' by simp
  have d: "distinct (zs @ [c, h])" and L: "linked (frames p) ptr None ((zs @ [c]) @ [h])"
    and pr: "pr_ok ptr (Some c) (promise fh)" using d' L' pr' ys by simp_all
  obtain f k where f: "frames p c = Some f" "costate f = Suspended k (AwTask h)"
    using L unfolding linked_snoc [of _ _ _ "zs @ [c]" h] by auto
  obtain p1 where p1: "csteps code t (Exec h l inp) p (Exec c k (deliver rr)) p1"
    "frames p1 = (frames p)(h := None, c \<mapsto> f\<lparr>costate := Running\<rparr>)" "loops p1 = loops p"
    using await_return [of p c f k h fh code l inp rr t] f d fh pr act by (auto simp: pr_ok_def)
  obtain S1 where S1: "run_inv S1 ptr (Exec c k (deliver rr)) p1" "untouched S S1 ptr p p1"
    using csteps_ok [OF p1(1) code I] by blast
  have "path (frames p1) (zs @ [c]) = path (frames p) (zs @ [c])"
    by (rule path_cong) (use d p1(2) in auto)
  moreover have "path (frames p) (zs @ [c])" using linked_path [OF L] path_snoc [of "frames p" zs c h] by simp
  ultimately have "S1 ptr = zs @ [c]"
    by (intro exec_chain [OF S1(1)]) (use run_inv_root [OF I S1] S in \<open>cases zs; auto\<close>)+
  moreover have "label_rank r (frames p) c = r k" using f by (simp add: label_rank_def)
  moreover have "frames p1 x = frames p x" if "x \<in> set zs" for x
    using that d p1(2) by auto
  ultimately show ?thesis
    using that [OF run_ctl_csteps [OF p1(1)] S1] p1(3) by blast
qed

lemma last_return:
  assumes code: "safe_code code" and I: "run_inv S ptr (Exec h l inp) p" and act: "code l inp = outcome rr"
    and S: "S ptr = [h]"
  shows "\<exists>res. run_ctl code t (Exec h l inp) p = Some res \<and> (\<forall>p'. res = Inr p' \<longrightarrow> length (loops p' t) = length (loops p t))"
proof -
  obtain ys fh where "S ptr = ys @ [h]" "frames p h = Some fh"
    "pr_ok ptr (if ys = [] then None else Some (last ys)) (promise fh)"
    using exec_facts [OF I] by metis
  then show ?thesis
    using finish_root [of p h fh code l inp rr t] act S by (cases rr) (auto simp: pr_ok_def)
qed


lemma spawned_load:
  assumes G: "grow p p1" and I: "run_inv S (t, i) c p" and I1: "run_inv S1 (t, i) c1 p1"
  shows "load S1 r t (length (loops p t)) p1 = spawn_load r t (length (loops p t)) p1"
  unfolding load_def spawn_load_def
proof (rule sum.cong [OF refl])
  fix j assume j: "j \<in> {length (loops p t)..<length (loops p1 t)}"
  then have q: "in_range p1 (t, j)" "\<not> in_range p (t, j)" by (auto simp: in_range_def)
  have O: "others S (Some (t, i)) p" "in_range p (t, i)" and O1: "others S1 (Some (t, i)) p1"
    using I I1 by (simp_all add: run_inv_def)
  have "fresh_task p1 (t, j)" by (rule grow_fresh [OF G O(1) _ q]) (use O(2) in auto)
  moreover have "at_rest (frames p1) (objs p1) (S1 (t, j)) (t, j) (task_at p1 (t, j))"
    by (rule others_at_rest [OF O1 q(1)]) (use q(2) O(2) in auto)
  ultimately show "Suc (chain_rank r (frames p1) (S1 (t, j))) = 2 + root_rank r p1 (t, j)"
    using fresh_chain_rank by fastforce
qed

text \<open>What a step that neither calls nor returns leaves of the chain.\<close>

lemma same_chain:
  assumes I: "run_inv S ptr c p" and L: "linked (frames p) ptr None (ys @ [h])" and S: "S ptr = ys @ [h]"
    and 1: "run_inv S1 ptr (Exec h l inp) p1" "untouched S S1 ptr p p1"
    and F: "\<And>x. x \<in> set ys \<Longrightarrow> frames p1 x = frames p x"
  shows "S1 ptr = ys @ [h]" and "chain_rank r (frames p1) ys = chain_rank r (frames p) ys"
proof -
  have "path (frames p1) (ys @ [h]) = path (frames p) (ys @ [h])"
    by (rule path_cong) (use F in \<open>auto simp: butlast_append\<close>)
  then show "S1 ptr = ys @ [h]"
    using linked_path [OF L] run_inv_root [OF I 1] S by (intro exec_chain [OF 1(1)]) (cases ys; auto)+
  show "chain_rank r (frames p1) ys = chain_rank r (frames p) ys" by (rule chain_rank_cong [OF F])
qed

text \<open>
  The induction hypothesis: executions of lower rank return. Each kind of action then comes back,
  or leads to such an execution.
\<close>

definition returns_below ::
  "('l, 'v, 'f, 's) code \<Rightarrow> nat \<Rightarrow> ('l \<Rightarrow> nat) \<Rightarrow> nat \<Rightarrow> nat \<Rightarrow> nat \<Rightarrow> bool" where
  "returns_below code t r i n m \<longleftrightarrow>
     (\<forall>S h l inp p m'. run_inv S (t, i) (Exec h l inp) p \<longrightarrow> n \<le> length (loops p t) \<longrightarrow>
        m' = r l + chain_rank r (frames p) (butlast (S (t, i))) \<longrightarrow> m' < m \<longrightarrow>
        returns_within S (t, i) r n p m' (run_ctl code t (Exec h l inp) p))"

lemma returns_belowD:
  assumes "returns_below code t r i n m" and "run_inv S (t, i) (Exec h l inp) p" and "n \<le> length (loops p t)"
    and "m' = r l + chain_rank r (frames p) (butlast (S (t, i)))" and "m' < m"
  shows "returns_within S (t, i) r n p m' (run_ctl code t (Exec h l inp) p)"
  using assms unfolding returns_below_def by blast

lemma load_same_loops:
  "untouched S S1 (t, i) p p1 \<Longrightarrow> i < n \<Longrightarrow> n \<le> length (loops p t) \<Longrightarrow> loops p1 = loops p \<Longrightarrow> load S1 r t n p1 = load S r t n p"
  using load_untouched [of S S1 t i p p1 n r] load_same_length [of p1 t] by simp

lemma outcome_returns:
  assumes code: "safe_code code" and B: "returns_below code t r i n (r l + chain_rank r (frames p) (butlast (S (t, i))))"
    and I: "run_inv S (t, i) (Exec h l inp) p" and n: "i < n" "n \<le> length (loops p t)" and act: "code l inp = outcome rr"
  shows "returns_within S (t, i) r n p (r l + chain_rank r (frames p) (butlast (S (t, i)))) (run_ctl code t (Exec h l inp) p)"
proof -
  obtain ys where S: "S (t, i) = ys @ [h]" using exec_facts [OF I] by metis
  show ?thesis
  proof (cases ys rule: rev_cases)
    case Nil
    then show ?thesis using quiet_run_returns [OF I n code last_return [OF code I act]] S by simp
  next
    case (snoc zs c)
    then have S': "S (t, i) = zs @ [c, h]" using S by simp
    obtain k p1 S1 where 1: "run_ctl code t (Exec h l inp) p = run_ctl code t (Exec c k (deliver rr)) p1"
      "run_inv S1 (t, i) (Exec c k (deliver rr)) p1" "untouched S S1 (t, i) p p1" "S1 (t, i) = zs @ [c]"
      and F: "\<And>x. x \<in> set zs \<Longrightarrow> frames p1 x = frames p x" and k: "label_rank r (frames p) c = r k"
      and lp: "loops p1 = loops p"
      using return_to_caller [OF code I act S', of t r] by metis
    have cr: "chain_rank r (frames p1) zs = chain_rank r (frames p) zs" using F by (rule chain_rank_cong)
    have "returns_within S1 (t, i) r n p1 (r k + chain_rank r (frames p) zs) (run_ctl code t (Exec c k (deliver rr)) p1)"
      by (rule returns_belowD [OF B 1(2)]) (use n lp cr k S' 1(4) in \<open>auto simp: butlast_append\<close>)
    then show ?thesis unfolding 1(1)
      by (rule returns_withinI [OF _ 1(3)]) (simp add: load_same_loops [OF 1(3) n lp] S' butlast_append k)
  qed
qed

lemma await_returns:
  assumes code: "safe_code code" and rk: "ranked code t r"
    and B: "returns_below code t r i n (r l + chain_rank r (frames p) (butlast (S (t, i))))"
    and I: "run_inv S (t, i) (Exec h l inp) p" and n: "i < n" "n \<le> length (loops p t)" and act: "code l inp = CoAwaitTask g k"
  shows "returns_within S (t, i) r n p (r l + chain_rank r (frames p) (butlast (S (t, i)))) (run_ctl code t (Exec h l inp) p)"
proof -
  obtain ys where S: "S (t, i) = ys @ [h]" and d: "distinct (ys @ [h])" and dom: "set (ys @ [h]) \<subseteq> dom (frames p)" and b: "bounded p"
    using exec_facts [OF I] by metis
  obtain p1 S1 where 1: "run_ctl code t (Exec h l inp) p = run_ctl code t (Exec (fresh p) g RStart) p1"
    "run_inv S1 (t, i) (Exec (fresh p) g RStart) p1" "untouched S S1 (t, i) p p1" "S1 (t, i) = S (t, i) @ [fresh p]"
    and F: "\<And>x. x \<noteq> h \<Longrightarrow> x \<noteq> fresh p \<Longrightarrow> frames p1 x = frames p x"
    and k: "\<exists>f w. frames p1 h = Some f \<and> costate f = Suspended k w" and lp: "loops p1 = loops p"
    using start_callee [OF code I act, of t] by metis
  have n1: "i < n" "n \<le> length (loops p1 t)" using n lp by simp_all
  note ld = load_same_loops [OF 1(3) n lp, of r]
  show ?thesis
  proof (cases "blocks code t g RStart")
    case True
    show ?thesis unfolding 1(1)
      by (rule returns_withinI [OF quiet_run_returns [where m = 0, OF 1(2) n1 code blocks_runs [OF True code 1(2)]] 1(3)]) (simp add: ld)
  next
    case False
    then have lt: "r g + r k + 1 < r l" using rk act by (auto simp: ranked_def)
    have "chain_rank r (frames p1) ys = chain_rank r (frames p) ys"
      by (rule chain_rank_cong) (use F d dom bounded_frame [OF b] in fastforce)
    then have cr: "chain_rank r (frames p1) (butlast (S1 (t, i))) = chain_rank r (frames p) ys + Suc (r k)"
      using k 1(4) S by (auto simp: label_rank_def butlast_append)
    have "returns_within S1 (t, i) r n p1 (r g + (chain_rank r (frames p) ys + Suc (r k))) (run_ctl code t (Exec (fresh p) g RStart) p1)"
      by (rule returns_belowD [OF B 1(2) n1(2)]) (use lt S cr in auto)
    then show ?thesis unfolding 1(1) by (rule returns_withinI [OF _ 1(3)]) (use lt S in \<open>simp add: ld\<close>)
  qed
qed

lemma plain_step_returns:
  assumes code: "safe_code code" and rk: "ranked code t r"
    and B: "returns_below code t r i n (r l + chain_rank r (frames p) (butlast (S (t, i))))"
    and I: "run_inv S (t, i) (Exec h l inp) p" and n: "i < n" "n \<le> length (loops p t)" and act: "code l inp = CoStep g k"
  shows "returns_within S (t, i) r n p (r l + chain_rank r (frames p) (butlast (S (t, i)))) (run_ctl code t (Exec h l inp) p)"
proof (cases "g t p")
  case (Inl e)
  then show ?thesis using run_ctl_fault [of code t "Exec h l inp" p] act
    by (simp add: cstep_def perform_def returns_within_def)
next
  case (Inr xp)
  then obtain x p1 where xp: "g t p = Inr (x, p1)" by (cases xp) auto
  have st: "cstep code t (Exec h l inp) p = Inr (Exec h k x, p1)" using xp act by (simp add: cstep_def perform_def)
  obtain S1 where 1: "run_inv S1 (t, i) (Exec h k x) p1" "untouched S S1 (t, i) p p1"
    using cstep_ok [OF I code, of t] st by (auto simp: step_ok_def)
  have "safe_action (code l inp)" using code by (simp add: safe_code_def)
  then have G: "grow p p1" using act xp by (auto simp: safe_action_def safe_step_def)
  then have X: "extends p p1" using grow_others [of p p1 S "Some (t, i)"] I by (auto simp: run_inv_def)
  obtain ys where S: "S (t, i) = ys @ [h]" and dom: "set (ys @ [h]) \<subseteq> dom (frames p)"
    and L: "linked (frames p) (t, i) None (ys @ [h])" using exec_facts [OF I] by metis
  have F: "frames p1 x = frames p x" if "x \<in> set ys" for x using X dom that by (auto simp: extends_def)
  note chain = same_chain [OF I L S 1 F]
  have lt: "r k + spawn_load r t (length (loops p t)) p1 < r l" using rk act xp by (auto simp: ranked_def)
  have n1: "n \<le> length (loops p1 t)" using n untouched_length [OF 1(2), of t] by simp
  have "returns_within S1 (t, i) r n p1 (r k + chain_rank r (frames p) ys) (run_ctl code t (Exec h k x) p1)"
    by (rule returns_belowD [OF B 1(1) n1]) (use lt S chain in auto)
  then show ?thesis unfolding run_ctl_csteps [OF csteps_one [OF st]]
    by (rule returns_withinI [OF _ 1(2)])
      (use lt S load_untouched [OF 1(2) n, of r] spawned_load [OF G I 1(1), of r] in simp)
qed

lemma exec_returns:
  assumes code: "safe_code code" and rk: "ranked code t r"
  shows "run_inv S (t, i) (Exec h l inp) p \<Longrightarrow> i < n \<Longrightarrow> n \<le> length (loops p t) \<Longrightarrow>
    m = r l + chain_rank r (frames p) (butlast (S (t, i))) \<Longrightarrow>
    returns_within S (t, i) r n p m (run_ctl code t (Exec h l inp) p)"
proof (induction m arbitrary: S h l inp p rule: less_induct)
  case (less m)
  note I = less.prems(1) and n = less.prems(2,3)
  have B: "returns_below code t r i n (r l + chain_rank r (frames p) (butlast (S (t, i))))"
    unfolding returns_below_def using less.IH n(1) less.prems(4) by blast
  show ?case
    unfolding less.prems(4)
  proof (cases "code l inp")
    case (CoReturn v)
    then show "returns_within S (t, i) r n p (r l + chain_rank r (frames p) (butlast (S (t, i)))) (run_ctl code t (Exec h l inp) p)"
      using outcome_returns [OF code B I n, of "Inr v"] by (simp add: outcome_def)
  next
    case (CoThrow e)
    then show "returns_within S (t, i) r n p (r l + chain_rank r (frames p) (butlast (S (t, i)))) (run_ctl code t (Exec h l inp) p)"
      using outcome_returns [OF code B I n, of "Inl e"] by (simp add: outcome_def)
  qed (rule await_returns [OF code rk B I n] plain_step_returns [OF code rk B I n], assumption
    | rule quiet_run_returns [OF I n code suspending_runs], simp add: suspending_def)+
qed

lemma after_resume_length: "after_resume ptr p = Inr p' \<Longrightarrow> length (loops p' t) = length (loops p t)"
  by (auto simp: after_resume_def bind_res_eq_Inr split: if_splits dest!: upd_task_length [where t = t])

text \<open>The coroutine that a suspended task goes on with: its first action is that of an execution.\<close>

lemma enter_returns:
  assumes code: "safe_code code" and rk: "ranked code t r" and W: "well_formed S p"
    and q: "in_range p (t, i)" "valid (task_at p (t, i))"
  shows "\<exists>h m. awaiting_handle (task_at p (t, i)) = Some h \<and> m < chain_rank r (frames p) (S (t, i)) \<and>
    returns_within S (t, i) r (length (loops p t)) p m (run_ctl code t (Enter h) p)"
proof -
  let ?n = "length (loops p t)"
  have n: "i < ?n" using q by (simp add: in_range_def)
  obtain h where h: "awaiting_handle (task_at p (t, i)) = Some h" and I: "run_inv S (t, i) (Enter h) p"
    by (rule wf_run_inv [OF W q])
  have rest: "at_rest (frames p) (objs p) (S (t, i)) (t, i) (task_at p (t, i))" by (rule wf_task [OF W q(1)])
  then have ne: "S (t, i) \<noteq> []" and lh: "last (S (t, i)) = h" and top: "top_ok (frames p) (objs p) (t, i) h"
    and L: "linked (frames p) (t, i) None (S (t, i))" and d: "distinct (S (t, i))"
    using q(2) h by (auto simp: at_rest_def)
  obtain f l w where f: "frames p h = Some f" "costate f = Suspended l w" and w': "aw_ok (objs p) (t, i) w"
    using top by (auto simp: top_ok_def)
  have w: "w \<noteq> AwTask c" for c using w' by (auto simp: aw_ok_def)
  define ys where "ys = butlast (S (t, i))"
  have S: "S (t, i) = ys @ [h]" using ne lh ys_def by (metis append_butlast_last_id)
  have cr: "chain_rank r (frames p) (S (t, i)) = chain_rank r (frames p) ys + Suc (r l)"
    using f S by (simp add: label_rank_def)
  have "returns_within S (t, i) r ?n p (r l + chain_rank r (frames p) ys) (run_ctl code t (Enter h) p)"
  proof (cases "cstep code t (Enter h) p")
    case (Inl e)
    then show ?thesis using run_ctl_fault [OF Inl] by (intro returns_fault) auto
  next
    case (Inr cp)
    then obtain inp p1 where cp: "cp = (Exec h l inp, p1)" and F1: "\<And>x. x \<noteq> h \<Longrightarrow> frames p1 x = frames p x"
      and lp: "loops p1 = loops p" and st: "cstep code t (Enter h) p = Inr (Exec h l inp, p1)"
      using f w
      by (cases w) (auto simp: cstep_def enter_def set_costate_def bind_res_eq_Inr await_resume_def
          UringAwaiter_await_resume_def delete_obj_def)
    obtain S1 where 1: "run_inv S1 (t, i) (Exec h l inp) p1" "untouched S S1 (t, i) p p1"
      using cstep_ok [OF I code, of t] st by (auto simp: step_ok_def)
    have F: "frames p1 x = frames p x" if "x \<in> set ys" for x using F1 [of x] d S that by auto
    note chain = same_chain [OF I L [unfolded S] S 1 F]
    have n1: "?n \<le> length (loops p1 t)" by (simp add: lp)
    have "returns_within S1 (t, i) r ?n p1 (r l + chain_rank r (frames p) ys) (run_ctl code t (Exec h l inp) p1)"
      by (rule exec_returns [OF code rk 1(1) n n1]) (use chain S in auto)
    then show ?thesis unfolding run_ctl_csteps [OF csteps_one [OF st]]
      by (rule returns_withinI [OF _ 1(2)]) (simp add: lp load_same_length)
  qed
  then show ?thesis using h cr by (intro exI [of _ h] exI [of _ "r l + chain_rank r (frames p) ys"]) auto
qed

text \<open>
  Resuming a task of a well-formed process returns, and what it has spawned counts no more than the
  chain that was resumed.
\<close>

theorem resume_returns:
  assumes code: "safe_code code" and rk: "ranked code t r" and W: "well_formed S p"
    and q: "in_range p (t, i)" "valid (task_at p (t, i))"
  shows "\<exists>res. ScheduledTask_resume code (t, i) p = Some res \<and>
    (\<forall>p'. res = Inr p' \<longrightarrow> (\<exists>S'. well_formed S' p' \<and> untouched S S' (t, i) p p' \<and>
       load S' r t (length (loops p t)) p' < chain_rank r (frames p) (S (t, i))))"
proof -
  let ?n = "length (loops p t)"
  have n: "i < ?n" using q by (simp add: in_range_def)
  obtain h m where h: "awaiting_handle (task_at p (t, i)) = Some h" and m: "m < chain_rank r (frames p) (S (t, i))"
    and "returns_within S (t, i) r ?n p m (run_ctl code t (Enter h) p)"
    using enter_returns [OF code rk W q] by blast
  then obtain r1 where r1: "run_ctl code t (Enter h) p = Some r1"
    and ld: "\<And>p1. r1 = Inr p1 \<Longrightarrow> \<exists>S1. run_inv S1 (t, i) Back p1 \<and> untouched S S1 (t, i) p p1 \<and>
      load S1 r t ?n p1 \<le> m"
    by (auto simp: returns_within_def load_same_length)
  show ?thesis
  proof (cases r1)
    case (Inl e)
    then show ?thesis using r1 h by (simp add: ScheduledTask_resume_def task_at_def)
  next
    case (Inr p1)
    obtain S1 where 1: "run_inv S1 (t, i) Back p1" "untouched S S1 (t, i) p p1"
      and ld1: "load S1 r t ?n p1 \<le> m" using ld [OF Inr] by blast
    obtain p2 where p2: "after_resume (t, i) p1 = Inr p2" "well_formed S1 p2" "untouched S1 S1 (t, i) p1 p2"
      using after_resume_ok [OF 1(1)] by metis
    have "load S1 r t ?n p2 = load S1 r t ?n p1"
      using load_untouched [OF p2(3) n untouched_length [OF 1(2)], of r]
        load_same_length [OF after_resume_length [OF p2(1)]] by simp
    then have "load S1 r t ?n p2 < chain_rank r (frames p) (S (t, i))" using ld1 m by simp
    then show ?thesis using r1 h Inr p2 untouched_trans [OF 1(2) p2(3)]
      by (auto simp: ScheduledTask_resume_def task_at_def)
  qed
qed

section \<open>A pass returns\<close>

lemma pass_returns:
  assumes code: "safe_code code" and rk: "ranked code t r"
  shows "well_formed S p \<Longrightarrow> m = load S r t i p \<Longrightarrow> \<exists>res. TaskLoop_run_from code t i p = Some res"
proof (induction m arbitrary: S i p rule: less_induct)
  case (less m)
  note W = less.prems(1)
  show ?case
  proof (cases "i < length (loops p t)")
    case False
    then show ?thesis by (simp add: TaskLoop_run_from.simps [of code t i])
  next
    case True
    let ?st = "loops p t ! i"
    have st: "?st = task_at p (t, i)" by (simp add: task_at_def)
    have q: "in_range p (t, i)" using True by (simp add: in_range_def)
    have split: "load S r t i p = Suc (chain_rank r (frames p) (S (t, i))) + load S r t (Suc i) p"
      using True by (simp add: load_def sum.atLeast_Suc_lessThan)
    show ?thesis
    proof (cases "runnable ?st")
      case False
      have "\<exists>res. TaskLoop_run_from code t (Suc i) p = Some res"
        by (rule less.IH [OF _ W refl]) (use split less.prems(2) in simp)
      then show ?thesis using True False by (simp add: TaskLoop_run_from.simps [of code t i])
    next
      case runs: True
      obtain res where res: "ScheduledTask_resume code (t, i) p = Some res"
        and ok: "\<And>p'. res = Inr p' \<Longrightarrow> \<exists>S'. well_formed S' p' \<and> untouched S S' (t, i) p p' \<and>
          load S' r t (length (loops p t)) p' < chain_rank r (frames p) (S (t, i))"
        using resume_returns [OF code rk W q] runs st by (auto simp: runnable_def)
      show ?thesis
      proof (cases res)
        case (Inl e)
        then show ?thesis using True runs res by (simp add: TaskLoop_run_from.simps [of code t i])
      next
        case (Inr p')
        obtain S' where S': "well_formed S' p'" "untouched S S' (t, i) p p'"
          "load S' r t (length (loops p t)) p' < chain_rank r (frames p) (S (t, i))" using ok [OF Inr] by blast
        have "load S' r t (Suc i) p' = load S r t (Suc i) p + load S' r t (length (loops p t)) p'"
          using load_untouched [OF S'(2), of "Suc i"] True by simp
        then have "\<exists>res. TaskLoop_run_from code t (Suc i) p' = Some res"
          by (intro less.IH [OF _ S'(1) refl]) (use split S'(3) less.prems(2) in simp)
        then show ?thesis using True runs res Inr by (simp add: TaskLoop_run_from.simps [of code t i])
      qed
    qed
  qed
qed

end
