(* ===== verification/Library_Rank.thy ===== *)
theory Library_Rank
  imports Library_Safety Loop_Termination
begin

text \<open>
  The coroutines of the library suspend before they return, and what they do between two suspensions is
  bounded. So a pass of the task loop over library code and ranked user code returns.
\<close>

section \<open>Steps that leave the task lists alone\<close>

lemma on_ring_loops: "on_ring t f p = Inr p' \<Longrightarrow> loops p' = loops p"
  by (drule on_ring_env) auto

lemma snd_alloc_loops [simp]: "loops (snd (alloc_obj ob p)) = loops p"
  by (simp add: alloc_obj_def)

lemma send_awaiting_loops: "send_awaiting L f fds p = Inr p' \<Longrightarrow> loops p' = loops p"
proof (induction fds arbitrary: f p)
  case (Cons fd fds)
  then show ?case by (fastforce simp: bind_res_eq_Inr Let_def split_beta)
qed simp

lemma mshot_send_loops: "mshot_accept_send_awaiting_fd_and_process L f p = Inr p' \<Longrightarrow> loops p' = loops p"
  by (auto simp: mshot_accept_send_awaiting_fd_and_process_def bind_res_eq_Inr dest: send_awaiting_loops)

lemma snd_create_loops [simp]: "loops (snd (create_coroutine l p)) = loops p"
  by (simp add: create_coroutine_def)

lemma parallel_spawn_loops: "parallel_spawn L t l p = Inr p' \<Longrightarrow> loops p' = loops p"
  by (auto simp: parallel_spawn_def bind_res_eq_Inr Let_def split_beta split: if_splits)

lemma parallel_spawn_conn_loops: "parallel_spawn_conn L t g c p = Inr p' \<Longrightarrow> loops p' = loops p"
  by (auto simp: parallel_spawn_conn_def bind_res_eq_Inr Let_def split_beta split: if_splits)

lemma as_step_loops:
  assumes "as_step v f p = Inr (x, p')" and "\<And>p'. f p = Inr p' \<Longrightarrow> loops p' = loops p"
  shows "loops p' = loops p"
  using assms by (auto simp: as_step_def split: sum.splits fault.splits)

lemma load_socket_value: "load_socket c t p = Inr (x, p') \<Longrightarrow> p' = p \<and> (\<exists>n. x = RVal (VInt n))"
  by (auto simp: load_socket_def bind_res_eq_Inr)

lemma library_step_loops:
  "load_socket c t p = Inr (x, p') \<Longrightarrow> loops p' = loops p"
  "extend_step L t p = Inr (x, p') \<Longrightarrow> loops p' = loops p"
  "received_step c r fl t p = Inr (x, p') \<Longrightarrow> loops p' = loops p"
  "socket_step K fd a t p = Inr (x, p') \<Longrightarrow> loops p' = loops p"
  "listen_step n s t p = Inr (x, p') \<Longrightarrow> loops p' = loops p"
  by (auto simp: load_socket_def extend_step_def received_step_def socket_step_def listen_step_def split_beta
      bind_res_eq_Inr split: sum.splits fault.splits)

lemma spawn_load_none: "loops p' t = loops p t \<Longrightarrow> spawn_load r t (length (loops p t)) p' = 0"
  by (simp add: spawn_load_def)

text \<open>\<open>co_spawn\<close> costs the rank of the coroutine it spawns.\<close>

lemma co_spawn_load:
  assumes "co_spawn l u t p = Inr (x, p')"
  shows "spawn_load r t (length (loops p t)) p' = 2 + r l"
  using assms
  by (auto simp: co_spawn_def bind_res_eq_Inr emplace_back_def create_coroutine_def enqueue_def Let_def
      upd_promise_def spawn_load_def root_rank_def task_at_def label_rank_def)

section \<open>The library blocks\<close>

lemma suspending_blocks: "suspending (code l inp) \<Longrightarrow> blocks code t l inp"
  by (cases "code l inp") (auto simp: suspending_def intro: blocks_uring blocks_pending blocks_mshot)

fun starts_prep :: "prep_label \<Rightarrow> bool" where
  "starts_prep l \<longleftrightarrow>
     l \<notin> {Accept_1, Accept_direct_1, Close_socket_1, Close_socket_direct_1, Direct_socket_1, Normal_socket_1,
          Multishot_accept_direct_1, Read_1, Recv_in_ring_buf_1, Sleep_for_1, Write_1}"

lemma prep_blocks: "starts_prep l \<Longrightarrow> blocks (lib_code L K user) t (P l) RStart"
  by (rule suspending_blocks) (cases l; simp add: suspending_def prep_defs awaiter_defs)

text \<open>The first step of a member coroutine of a connection reads the socket.\<close>

lemma load_socket_blocks:
  assumes "lib_code L K user l inp = CoStep (load_socket c) k"
    and "\<And>n. blocks (lib_code L K user) t k (RVal (VInt n))"
  shows "blocks (lib_code L K user) t l inp"
  by (rule blocks_step [of "lib_code L K user" l inp "load_socket c" k t, OF assms(1)])
    (use assms(2) in \<open>auto dest: library_step_loops load_socket_value\<close>)

lemma await_blocks:
  "lib_code L K user l inp = CoAwaitTask (P g) k \<Longrightarrow> starts_prep g \<Longrightarrow> blocks (lib_code L K user) t l inp"
  by (blast intro: blocks_task prep_blocks)

fun starts_conn :: "conn_label \<Rightarrow> bool" where
  "starts_conn (Read_some c n) = True"
| "starts_conn (Write_some c b n) = True"
| "starts_conn (Write_all c b) = True"
| "starts_conn (Conn_sleep tm) = True"
| "starts_conn (Ring_buf_receive c) = True"
| "starts_conn _ = False"

lemma conn_blocks: "starts_conn l \<Longrightarrow> blocks (lib_code L K user) t (C l) RStart"
proof (cases l)
  case (Conn_sleep tm)
  show ?thesis unfolding Conn_sleep by (rule await_blocks, simp add: conn_sleep_def, simp)
next
  case (Read_some c n)
  show ?thesis unfolding Read_some
    by (rule load_socket_blocks, simp add: read_some_def, rule await_blocks,
        simp add: read_some_1_def on_int_def on_value_def, simp)
next
  case (Write_some c b n)
  show ?thesis unfolding Write_some
    by (rule load_socket_blocks, simp add: write_some_def, rule await_blocks,
        simp add: write_some_1_def on_int_def on_value_def, simp)
next
  case (Write_all c b)
  show ?thesis unfolding Write_all
    by (rule load_socket_blocks, simp add: write_all_def, rule await_blocks,
        simp add: write_all_1_def on_int_def on_value_def, simp)
next
  case (Ring_buf_receive c)
  show ?thesis unfolding Ring_buf_receive
    by (rule load_socket_blocks, simp add: ring_buf_receive_def, rule await_blocks,
        simp add: ring_buf_receive_1_def on_int_def on_value_def, simp)
qed simp_all

fun starts_net :: "'f net_label \<Rightarrow> bool" where
  "starts_net (Create_tcp_socket a) = True"
| "starts_net (Create_udp_socket a) = True"
| "starts_net (Listener_accept s) = True"
| "starts_net (Listen_on a n) = True"
| "starts_net (Multishot_accept_then s f) = True"
| "starts_net _ = False"

lemma net_blocks: "starts_net l \<Longrightarrow> blocks (lib_code L K user) t (N l) RStart"
proof -
  have tcp: "blocks (lib_code L K user) t (N (Create_tcp_socket a)) RStart" for a
    by (rule await_blocks, simp add: create_tcp_socket_def Let_def, simp)
  show "starts_net l \<Longrightarrow> blocks (lib_code L K user) t (N l) RStart"
    by (cases l) (auto simp: create_udp_socket_def listener_accept_def listen_on_def
        multishot_accept_then_def intro: await_blocks blocks_task tcp)
qed

section \<open>Ranks\<close>

text \<open>The ranks of the points of the library; a user's points have the ranks \<open>ur\<close>.\<close>

fun conn_rank :: "conn_label \<Rightarrow> nat" where
  "conn_rank (Ring_buf_receive_2 c) = 2"
| "conn_rank (Ring_buf_receive_3 c) = 1"
| "conn_rank l = (if starts_conn l then 1 else 0)"

fun net_rank :: "'f net_label \<Rightarrow> nat" where
  "net_rank (Create_tcp_socket_1 a) = 1"
| "net_rank (Create_udp_socket_1) = 1"
| "net_rank (Listen_on_1 n) = 1"
| "net_rank (Multishot_accept_then_1 f) = 1"
| "net_rank l = 0"

fun lib_rank :: "('u \<Rightarrow> nat) \<Rightarrow> ('u, 'f) label \<Rightarrow> nat" where
  "lib_rank ur (User l) = ur l"
| "lib_rank ur (P l) = 0"
| "lib_rank ur (C l) = conn_rank l"
| "lib_rank ur (N l) = net_rank l"

definition user_ranked ::
  "liburing \<Rightarrow> libc \<Rightarrow> ('u \<Rightarrow> lib_value resume_in \<Rightarrow> ('u, 'f) lib_action) \<Rightarrow> nat \<Rightarrow> ('u \<Rightarrow> nat) \<Rightarrow> bool" where
  "user_ranked L K user t ur \<longleftrightarrow>
     (\<forall>l inp g k. user l inp = CoAwaitTask g k \<longrightarrow>
        blocks (lib_code L K user) t g RStart \<or> lib_rank ur g + lib_rank ur k + 1 < ur l) \<and>
     (\<forall>l inp f k p x p'. user l inp = CoStep f k \<longrightarrow> f t p = Inr (x, p') \<longrightarrow>
        lib_rank ur k + spawn_load (lib_rank ur) t (length (loops p t)) p' < ur l)"

definition point_ranked ::
  "('u, 'f) lib_action \<Rightarrow> liburing \<Rightarrow> libc \<Rightarrow> ('u \<Rightarrow> lib_value resume_in \<Rightarrow> ('u, 'f) lib_action) \<Rightarrow> nat
   \<Rightarrow> ('u \<Rightarrow> nat) \<Rightarrow> nat \<Rightarrow> bool" where
  "point_ranked act L K user t ur n \<longleftrightarrow>
     (\<forall>g k. act = CoAwaitTask g k \<longrightarrow>
        blocks (lib_code L K user) t g RStart \<or> lib_rank ur g + lib_rank ur k + 1 < n) \<and>
     (\<forall>f k p x p'. act = CoStep f k \<longrightarrow> f t p = Inr (x, p') \<longrightarrow> loops p' = loops p \<and> lib_rank ur k < n)"

lemma point_ranked_simps [simp]:
  "point_ranked (CoReturn v) L K user t ur n" "point_ranked (CoThrow e) L K user t ur n"
  "point_ranked (CoAwaitUring op' pr k) L K user t ur n" "point_ranked (CoAwaitPending k) L K user t ur n"
  "point_ranked (CoAwaitMshot pr k) L K user t ur n"
  "point_ranked (CoAwaitTask g k) L K user t ur n \<longleftrightarrow>
     blocks (lib_code L K user) t g RStart \<or> lib_rank ur g + lib_rank ur k + 1 < n"
  "point_ranked (CoStep f k) L K user t ur n \<longleftrightarrow>
     (\<forall>p x p'. f t p = Inr (x, p') \<longrightarrow> loops p' = loops p \<and> lib_rank ur k < n)"
  by (auto simp: point_ranked_def)

lemma point_ranked_on_value:
  "(\<And>v. point_ranked (g v) L K user t ur n) \<Longrightarrow> point_ranked (on_value g inp) L K user t ur n"
  by (cases inp) (simp_all add: on_value_def)

lemma point_ranked_on_int:
  "(\<And>v. point_ranked (g v) L K user t ur n) \<Longrightarrow> point_ranked (on_int g inp) L K user t ur n"
  unfolding on_int_def by (rule point_ranked_on_value) (simp split: lib_value.splits)

lemma point_ranked_on_unit: "point_ranked a L K user t ur n \<Longrightarrow> point_ranked (on_unit a inp) L K user t ur n"
  by (cases inp) (simp_all add: on_unit_def)

lemma point_ranked_on_cqe:
  "(\<And>r fl. point_ranked (g r fl) L K user t ur n) \<Longrightarrow> point_ranked (on_cqe g inp) L K user t ur n"
  by (cases inp) (simp_all add: on_cqe_def)

lemma point_ranked_prep: "point_ranked (prep_code L l inp) L K user t ur n"
  by (cases "(L, l, inp)" rule: prep_code.cases)
    (auto simp: prep_defs awaiter_defs prep_result_defs intro!: point_ranked_on_cqe point_ranked_on_unit)

lemma point_ranked_conn: "point_ranked (conn_code L l inp) L K user t ur (conn_rank l)"
  by (cases "(L, l, inp)" rule: conn_code.cases)
    (auto simp: read_some_def read_some_1_def write_some_def write_some_1_def write_all_def write_all_1_def
      return_count_def conn_sleep_def ring_buf_receive_def ring_buf_receive_1_def ring_buf_receive_2_def
      ring_buf_receive_3_def ring_buf_receive_4_def prep_blocks conn_blocks split: lib_value.splits
      intro!: point_ranked_on_value point_ranked_on_int point_ranked_on_unit dest: library_step_loops)

lemma mshot_step_loops:
  "as_step v (mshot_accept_send_awaiting_fd_and_process L f) p = Inr (x, p') \<Longrightarrow> loops p' = loops p"
  by (rule as_step_loops) (auto dest: mshot_send_loops)

lemma point_ranked_net: "point_ranked (net_code L K l inp) L K user t ur (net_rank l)"
  by (cases "(L, K, l, inp)" rule: net_code.cases)
    (auto simp: create_tcp_socket_def create_tcp_socket_1_def create_tcp_socket_2_def create_udp_socket_def
      create_udp_socket_1_def listener_accept_def listener_accept_1_def listen_on_def listen_on_1_def
      listen_on_2_def multishot_accept_then_def multishot_accept_then_1_def multishot_accept_then_2_def
      Let_def prep_blocks net_blocks split: lib_value.splits
      intro!: point_ranked_on_value point_ranked_on_int point_ranked_on_unit dest: library_step_loops mshot_step_loops)

lemma point_rankedD:
  assumes "point_ranked act L K user t ur n"
  shows "act = CoAwaitTask g k \<Longrightarrow> blocks (lib_code L K user) t g RStart \<or> lib_rank ur g + lib_rank ur k + 1 < n"
    and "act = CoStep f k \<Longrightarrow> f t p = Inr (x, p') \<Longrightarrow>
      lib_rank ur k + spawn_load (lib_rank ur) t (length (loops p t)) p' < n"
  using assms by (auto simp: spawn_load_none)

theorem lib_code_ranked:
  assumes "user_ranked L K user t ur"
  shows "ranked (lib_code L K user) t (lib_rank ur)"
proof -
  have "(\<forall>g k. lib_code L K user l inp = CoAwaitTask g k \<longrightarrow>
        blocks (lib_code L K user) t g RStart \<or> lib_rank ur g + lib_rank ur k + 1 < lib_rank ur l) \<and>
      (\<forall>f k p x p'. lib_code L K user l inp = CoStep f k \<longrightarrow> f t p = Inr (x, p') \<longrightarrow>
        lib_rank ur k + spawn_load (lib_rank ur) t (length (loops p t)) p' < lib_rank ur l)" for l inp
  proof (cases l)
    case (User u)
    then show ?thesis using assms by (simp add: user_ranked_def)
  next
    case (P pl)
    then show ?thesis using point_ranked_prep [of L pl inp K user t ur 0] by (fastforce simp: point_ranked_def)
  next
    case (C cl)
    then show ?thesis using point_rankedD [OF point_ranked_conn [of L cl inp K user t ur]] by simp
  next
    case (N nl)
    then show ?thesis using point_rankedD [OF point_ranked_net [of L K nl inp user t ur]] by simp
  qed
  then show ?thesis by (simp add: ranked_def)
qed

end
