(* ===== verification/System_Loop.thy ===== *)
theory System_Loop
  imports Spawn
begin

text \<open>
  The loops of the threads (\<open>context/worker.hpp\<close>, \<open>context/context.hpp\<close>): start-up, one
  iteration of the main loop and of a worker's loop, and termination. A wait gets the completions that
  arrive during it as an argument, and its return value; a run of a loop is an explicit sequence of
  iterations with what happened in each of them.
\<close>

section \<open>Workers\<close>

text \<open>
  How many threads the constructor starts: 0 stands for what \<open>hardware_concurrency\<close> returns.
\<close>

definition Workers_how_many :: "nat \<Rightarrow> nat \<Rightarrow> nat" where
  "Workers_how_many how_many hardware_concurrency = (if how_many = 0 then hardware_concurrency else how_many)"

definition Workers_stop :: "sys_env \<Rightarrow> sys_env" where
  "Workers_stop s = s\<lparr>stop_requested := (\<lambda>t. t \<in> {1..length (uring_fds s)} \<or> stop_requested s t)\<rparr>"

definition get_worker_ids :: "sys_env \<Rightarrow> int list" where [simp]: "get_worker_ids s = uring_fds s"

definition get_uring_fd :: "sys_env \<Rightarrow> int \<Rightarrow> int res" where
  "get_uring_fd s idx =
     (if 0 \<le> idx \<and> nat idx < length (uring_fds s) then Inr (uring_fds s ! nat idx) else Inl OutOfRange)"

definition Workers_count :: "sys_env \<Rightarrow> int" where
  "Workers_count s = int (length (uring_fds s))"

text \<open>
  A worker thread up to its loop: its task loop, its ring, attached to the main ring, its buffers, the
  sparse table of direct descriptors, and its entry in the list of ring descriptors.
\<close>

definition worker_init :: "liburing \<Rightarrow> nat \<Rightarrow> ('l, 'v, 'f) world \<Rightarrow> ('l, 'v, 'f) world res" where
  "worker_init L t p =
     bind_res (Uring_worker_ctor L (sys_ring_fd (env p))) (\<lambda>u.
     bind_res (new_ring_buffer L t) (\<lambda>b.
     if lu_register_files L (ring_fd u) URING_DIRECT_FD_TABLE_SIZE < 0
     then Inl (Throws (RuntimeError ''Worker ring register files error''))
     else Inr (p\<lparr>env := (env p)\<lparr>rings := (rings (env p))(t := u), buffers := (buffers (env p))(t := b),
                                 uring_fds := uring_fds (env p) @ [Uring_fd u]\<rparr>,
                 loops := (loops p)(t := [])\<rparr>)))"

text \<open>One iteration of a worker's loop; the flag says whether the thread goes on.\<close>

definition worker_iteration ::
  "liburing \<Rightarrow> ('l, 'f) client \<Rightarrow> ('l, 'v, 'f, sys_env) code \<Rightarrow> nat \<Rightarrow> cqe list \<Rightarrow> cqe list
   \<Rightarrow> ('l, 'v, 'f) world \<Rightarrow> (bool \<times> ('l, 'v, 'f) world) res option" where
  "worker_iteration L cl code t arrived during p =
     (case TaskLoop_run code t p of
        None \<Rightarrow> None
      | Some r \<Rightarrow> Some (
          bind_res r (\<lambda>p1.
          bind_res (on_ring t (\<lambda>u. Inr (arrive arrived (submit_all L u))) p1) (\<lambda>p2.
          bind_res (process_batch L cl t during p2) (\<lambda>p3.
          Inr (\<not> stop_requested (env p3) t, p3))))))"

section \<open>The system loop\<close>

text \<open>
  The constructor up to the point where the workers start, and what it does once they have.
\<close>

definition SystemLoop_rings :: "liburing \<Rightarrow> ('l, 'v, 'f) world \<Rightarrow> ('l, 'v, 'f) world res" where
  "SystemLoop_rings L p =
     bind_res (Uring_main_ctor L) (\<lambda>u.
     bind_res (new_ring_buffer L main_thread) (\<lambda>b.
     Inr (p\<lparr>env := (env p)\<lparr>rings := (rings (env p))(main_thread := u),
                            buffers := (buffers (env p))(main_thread := b),
                            uring_fds := [], current_worker_uring_idx := - 1, sys_stopped := False\<rparr>,
            loops := (loops p)(main_thread := [])\<rparr>)))"

definition SystemLoop_register :: "liburing \<Rightarrow> ('l, 'v, 'f) world \<Rightarrow> ('l, 'v, 'f) world res" where
  "SystemLoop_register L p =
     (if lu_register_files L (sys_ring_fd (env p)) URING_DIRECT_FD_TABLE_SIZE < 0
      then Inl (Throws (RuntimeError ''Context register files error''))
      else Inr p)"

text \<open>
  One iteration of \<open>SystemLoop::run\<close>: \<open>ret\<close> is what the wait returns. The result says whether
  the loop goes on; it ends when the loop has been stopped or the task list is empty.
\<close>

definition run_iteration ::
  "liburing \<Rightarrow> ('l, 'f) client \<Rightarrow> ('l, 'v, 'f, sys_env) code \<Rightarrow> int \<times> cqe list \<times> cqe list
   \<Rightarrow> ('l, 'v, 'f) world \<Rightarrow> (bool \<times> ('l, 'v, 'f) world) res option" where
  "run_iteration L cl code wait p =
     (if sys_stopped (env p) then Some (Inr (False, p))
      else (case TaskLoop_run code main_thread p of
              None \<Rightarrow> None
            | Some r \<Rightarrow> Some (
                bind_res r (\<lambda>p1.
                if TaskLoop_empty main_thread p1 then Inr (False, p1)
                else
                  let (ret, arrived, during) = wait in
                  bind_res (on_ring main_thread (\<lambda>u. Inr (arrive arrived (submit_all L u))) p1) (\<lambda>p2.
                  if ret = 0
                  then bind_res (process_batch L cl main_thread during p2) (\<lambda>p3. Inr (True, p3))
                  else Inr (True, p2))))))"

fun run_loop ::
  "liburing \<Rightarrow> ('l, 'f) client \<Rightarrow> ('l, 'v, 'f, sys_env) code \<Rightarrow> (int \<times> cqe list \<times> cqe list) list
   \<Rightarrow> ('l, 'v, 'f) world \<Rightarrow> (bool \<times> ('l, 'v, 'f) world) res option" where
  "run_loop L cl code [] p = Some (Inr (True, p))"
| "run_loop L cl code (w # ws) p =
     (case run_iteration L cl code w p of
        None \<Rightarrow> None
      | Some (Inl e) \<Rightarrow> Some (Inl e)
      | Some (Inr (go_on, p1)) \<Rightarrow>
          if go_on then run_loop L cl code ws p1 else Some (Inr (False, p1)))"

definition terminate_loop ::
  "liburing \<Rightarrow> ('l, 'f) client \<Rightarrow> cqe list \<Rightarrow> ('l, 'v, 'f) world \<Rightarrow> ('l, 'v, 'f) world res" where
  "terminate_loop L cl arrived p =
     (if sys_stopped (env p) then Inr p
      else
        let p1 = p\<lparr>env := Workers_stop ((env p)\<lparr>sys_stopped := True\<rparr>)\<rparr> in
        bind_res (notify_workers_to_stop L main_thread (get_worker_ids (env p1)) p1) (\<lambda>p2.
        bind_res (notify_self_quit L main_thread p2) (\<lambda>p3.
        bind_res (on_ring main_thread (\<lambda>u. Inr (arrive arrived (submit_all L u))) p3) (\<lambda>p4.
        process_all L cl main_thread p4))))"

text \<open>
  \<open>block_on\<close>, once the workers have started: schedule the root coroutine, run, terminate.
\<close>

definition block_on ::
  "liburing \<Rightarrow> ('l, 'f) client \<Rightarrow> ('l, 'v, 'f, sys_env) code \<Rightarrow> (int \<times> cqe list \<times> cqe list) list \<Rightarrow> cqe list
   \<Rightarrow> 'l \<Rightarrow> ('l, 'v, 'f) world \<Rightarrow> ('l, 'v, 'f) world res option" where
  "block_on L cl code waits last_arrived root p =
     (case emplace_back main_thread root p of
        Inl e \<Rightarrow> Some (Inl e)
      | Inr p1 \<Rightarrow>
          (case run_loop L cl code waits p1 of
             None \<Rightarrow> None
           | Some r \<Rightarrow> Some (bind_res r (\<lambda>(go_on, p2). terminate_loop L cl last_arrived p2))))"

section \<open>Start-up\<close>

text \<open>
  The members of \<open>SystemLoop\<close> are constructed in the order of their declaration, so the worker
  threads start before the latch they count down is constructed. \<open>latch\<close> is \<open>None\<close> until
  then; a count-down of an object that is not there yet is lost when the constructor writes the
  counter. \<open>main_started\<close> counts the threads that the main thread has started.
\<close>

record startup =
  n_workers :: nat
  main_started :: nat
  latch :: "nat option"
  counted_down :: "nat set"
  main_past_wait :: bool

definition startup_init :: "nat \<Rightarrow> startup" where
  "startup_init n =
     \<lparr>n_workers = n, main_started = 0, latch = None, counted_down = {}, main_past_wait = False\<rparr>"

text \<open>The start-up with the configured number of workers.\<close>

definition SystemLoop_startup :: "nat \<Rightarrow> startup" where
  "SystemLoop_startup hardware_concurrency = startup_init (Workers_how_many WORKERS hardware_concurrency)"

inductive startup_step :: "startup \<Rightarrow> startup \<Rightarrow> bool" where
  start_worker: "main_started s < n_workers s \<Longrightarrow> latch s = None \<Longrightarrow>
    startup_step s (s\<lparr>main_started := Suc (main_started s)\<rparr>)"
| construct_latch: "main_started s = n_workers s \<Longrightarrow> latch s = None \<Longrightarrow>
    startup_step s (s\<lparr>latch := Some (n_workers s)\<rparr>)"
| count_down: "i < main_started s \<Longrightarrow> i \<notin> counted_down s \<Longrightarrow>
    startup_step s (s\<lparr>counted_down := insert i (counted_down s),
                      latch := map_option (\<lambda>k. k - 1) (latch s)\<rparr>)"
| pass_wait: "latch s = Some 0 \<Longrightarrow> \<not> main_past_wait s \<Longrightarrow> startup_step s (s\<lparr>main_past_wait := True\<rparr>)"

inductive_cases startup_stepE: "startup_step s s'"

end
