(* ===== verification/Transitions.thy ===== *)
theory Transitions
  imports Main
begin

text \<open>
  Invariants of transition systems, stated once: a predicate that holds initially and is kept by every
  step holds in every state that can be reached, and a step that leads out of it is impossible. The
  start-up of the threads and the interleaving of the loops are instances.
\<close>

locale transition_invariant =
  fixes init :: "'s \<Rightarrow> bool" and step :: "'s \<Rightarrow> 's \<Rightarrow> bool" and inv :: "'s \<Rightarrow> bool"
  assumes init_inv: "init s \<Longrightarrow> inv s"
    and step_inv: "inv s \<Longrightarrow> step s s' \<Longrightarrow> inv s'"
begin

lemma steps_inv: "step\<^sup>*\<^sup>* s s' \<Longrightarrow> inv s \<Longrightarrow> inv s'"
  by (induction rule: rtranclp_induct) (auto intro: step_inv)

lemma reachable_inv: "init s \<Longrightarrow> step\<^sup>*\<^sup>* s s' \<Longrightarrow> inv s'"
  using steps_inv init_inv by blast

end

text \<open>A quantity that no step decreases, in a system with an invariant.\<close>

locale monotone_measure = transition_invariant +
  fixes measure_of :: "'s \<Rightarrow> nat"
  assumes step_mono: "inv s \<Longrightarrow> step s s' \<Longrightarrow> measure_of s \<le> measure_of s'"
begin

lemma steps_mono: "step\<^sup>*\<^sup>* s s' \<Longrightarrow> inv s \<Longrightarrow> measure_of s \<le> measure_of s'"
proof (induction rule: rtranclp_induct)
  case (step y z)
  then show ?case using step_mono [OF steps_inv [OF step.hyps(1) step.prems] step.hyps(2)] by simp
qed simp

end

end
