(* ===== verification/Loop_Properties.thy ===== *)
theory Loop_Properties
  imports Library_Rank System_Loop Transitions Ring_Properties
begin

text \<open>
  The loops of the threads over the library's code: a pass of the task loop returns, an iteration
  keeps the invariant of the coroutine layer, and the task list of the main loop never becomes empty
  again.
\<close>

section \<open>One iteration\<close>

text \<open>
  What the kernel promises about the completions that arrive while thread \<open>t\<close> waits: after the pass
  of the task loop, everything in the completion queue points to a live object of the right kind, and
  every one-shot token completes once.
\<close>

definition arrivals_ok ::
  "('l, 'v, 'f, sys_env) code \<Rightarrow> nat \<Rightarrow> ('l, 'v, 'f) world \<Rightarrow> cqe list \<Rightarrow> bool" where
  "arrivals_ok code t p arrived \<longleftrightarrow>
     (\<forall>p1. TaskLoop_run code t p = Some (Inr p1) \<longrightarrow> events_ok p1 (cq (ring_at p1 t) @ arrived))"

definition kept ::
  "('l, 'v, 'f, 's) proc \<Rightarrow> ('l, 'v, 'f, 's) proc \<Rightarrow> bool" where
  "kept p p' \<longleftrightarrow> (\<exists>S. well_formed S p') \<and>
     (\<forall>q. in_range p q \<longrightarrow> in_range p' q \<and> sched_task (task_at p' q) = sched_task (task_at p q))"

lemma ring_fault_not_machine: "ring_fault e \<Longrightarrow> \<not> machine_fault e"
  by (auto simp: ring_fault_def machine_fault_def)

lemma pass_kept:
  assumes "safe_code code" and "well_formed S p" and "TaskLoop_run code t p = Some r"
  shows "case r of Inl e \<Rightarrow> \<not> machine_fault e | Inr p' \<Rightarrow> kept p p'"
  using TaskLoop_run_from_ok [OF assms(1) assms(3) [unfolded TaskLoop_run_def] assms(2)]
  by (auto simp: loop_ok_def kept_def split: sum.splits)

lemma events_ok_env [simp]: "events_ok (p\<lparr>env := s\<rparr>) cs = events_ok p cs"
  by (simp add: events_ok_def)

lemma batch_kept:
  assumes W: "well_formed S p" and ev: "events_ok p (cq (ring_at p t))"
  shows "case process_batch L cl t during p of Inl e \<Rightarrow> \<not> machine_fault e | Inr p' \<Rightarrow> kept p p'"
proof -
  have b: "batch_ok S p (process_batch L cl t during p)" by (rule process_batch_ok [OF W ev])
  show ?thesis
  proof (cases "process_batch L cl t during p")
    case (Inl e)
    then show ?thesis using b ring_fault_not_machine by (simp add: batch_ok_def)
  next
    case (Inr p')
    then obtain S' where "well_formed S' p'" "undisturbed S S' p p'" using b by (auto simp: batch_ok_def)
    then have "kept p p'" by (fastforce simp: kept_def undisturbed_def)
    then show ?thesis using Inr by simp
  qed
qed

lemma kept_trans: "kept p p' \<Longrightarrow> kept p' p'' \<Longrightarrow> kept p p''"
  by (simp add: kept_def)

lemma kept_env [simp]: "kept p (p'\<lparr>env := s\<rparr>) = kept p p'" "kept (p\<lparr>env := s\<rparr>) p' = kept p p'"
  by (simp_all add: kept_def)

text \<open>The part of an iteration after the pass: submit, wait, handle a batch.\<close>

definition wait_and_handle ::
  "liburing \<Rightarrow> ('l, 'f) client \<Rightarrow> nat \<Rightarrow> cqe list \<Rightarrow> cqe list \<Rightarrow> ('l, 'v, 'f) world \<Rightarrow> ('l, 'v, 'f) world res" where
  "wait_and_handle L cl t arrived during p =
     bind_res (on_ring t (\<lambda>u. Inr (arrive arrived (submit_all L u))) p) (process_batch L cl t during)"

lemma wait_and_handle_kept:
  assumes W: "well_formed S p" and ev: "events_ok p (cq (ring_at p t) @ arrived)"
  shows "case wait_and_handle L cl t arrived during p of Inl e \<Rightarrow> \<not> machine_fault e | Inr p' \<Rightarrow> kept p p'"
proof -
  let ?p = "p\<lparr>env := (env p)\<lparr>rings := (rings (env p))(t := arrive arrived (submit_all L (rings (env p) t)))\<rparr>\<rparr>"
  have "cq (ring_at ?p t) = cq (ring_at p t) @ arrived" by (simp add: ring_at_def arrive_def)
  then have "case process_batch L cl t during ?p of Inl e \<Rightarrow> \<not> machine_fault e | Inr p' \<Rightarrow> kept ?p p'"
    by (intro batch_kept [of S]) (use W ev in auto)
  then show ?thesis by (auto simp: wait_and_handle_def split: sum.splits)
qed

lemma worker_iteration_eq:
  "TaskLoop_run code t p = Some r \<Longrightarrow> worker_iteration L cl code t arrived during p =
     Some (bind_res r (\<lambda>p1. bind_res (wait_and_handle L cl t arrived during p1) (\<lambda>p3. Inr (\<not> stop_requested (env p3) t, p3))))"
  by (simp add: worker_iteration_def wait_and_handle_def bind_res_assoc)

lemma worker_iteration_kept:
  assumes code: "safe_code code" and W: "well_formed S p" and run: "TaskLoop_run code t p = Some r"
    and ar: "arrivals_ok code t p arrived"
  shows "\<exists>res. worker_iteration L cl code t arrived during p = Some res \<and>
    (case res of Inl e \<Rightarrow> \<not> machine_fault e
     | Inr (go_on, p') \<Rightarrow> kept p p' \<and> go_on = (\<not> stop_requested (env p') t))"
proof (cases r)
  case (Inl e)
  then show ?thesis using pass_kept [OF code W run] by (simp add: worker_iteration_eq [OF run])
next
  case (Inr p1)
  then have k1: "kept p p1" using pass_kept [OF code W run] by simp
  then obtain S1 where S1: "well_formed S1 p1" by (auto simp: kept_def)
  have "events_ok p1 (cq (ring_at p1 t) @ arrived)" using ar run Inr by (simp add: arrivals_ok_def)
  from wait_and_handle_kept [OF S1 this, of L cl during]
  show ?thesis using kept_trans [OF k1] Inr
    by (auto simp: worker_iteration_eq [OF run] split: sum.splits)
qed

lemma run_iteration_kept:
  assumes code: "safe_code code" and W: "well_formed S p" and run: "TaskLoop_run code main_thread p = Some r"
    and ar: "arrivals_ok code main_thread p arrived"
  shows "\<exists>res. run_iteration L cl code (ret, arrived, during) p = Some res \<and>
    (case res of Inl e \<Rightarrow> \<not> machine_fault e
     | Inr (go_on, p') \<Rightarrow> kept p p' \<and> (go_on \<longleftrightarrow> \<not> sys_stopped (env p) \<and> \<not> TaskLoop_empty main_thread p'))"
proof (cases "sys_stopped (env p)")
  case True
  then show ?thesis using W by (auto simp: run_iteration_def kept_def)
next
  case False
  show ?thesis
  proof (cases r)
    case (Inl e)
    then show ?thesis using pass_kept [OF code W run] run False by (simp add: run_iteration_def)
  next
    case (Inr p1)
    then have k1: "kept p p1" using pass_kept [OF code W run] by simp
    then obtain S1 where S1: "well_formed S1 p1" by (auto simp: kept_def)
    have ev: "events_ok p1 (cq (ring_at p1 main_thread) @ arrived)" using ar run Inr by (simp add: arrivals_ok_def)
    show ?thesis
    proof (cases "TaskLoop_empty main_thread p1")
      case True
      then show ?thesis using run Inr False k1 by (simp add: run_iteration_def)
    next
      case ne: False
      have keep: "\<not> TaskLoop_empty main_thread p2" if "kept p1 p2" for p2
      proof -
        have "in_range p1 (main_thread, 0)" using ne by (simp add: TaskLoop_empty_def in_range_def)
        then show ?thesis using that by (auto simp: kept_def TaskLoop_empty_def in_range_def)
      qed
      let ?wh = "wait_and_handle L cl main_thread arrived during p1"
      have it: "run_iteration L cl code (ret, arrived, during) p = Some (
          if ret = 0 then bind_res ?wh (\<lambda>p3. Inr (True, p3))
          else Inr (True, p1\<lparr>env := (env p1)\<lparr>rings := (rings (env p1))(main_thread :=
                 arrive arrived (submit_all L (rings (env p1) main_thread)))\<rparr>\<rparr>))"
        using run Inr False ne by (simp add: run_iteration_def wait_and_handle_def)
      show ?thesis
      proof (cases "ret = 0")
        case True
        then have it': "run_iteration L cl code (ret, arrived, during) p = Some (bind_res ?wh (\<lambda>p3. Inr (True, p3)))"
          unfolding it by simp
        from wait_and_handle_kept [OF S1 ev, of L cl during] show ?thesis
          using kept_trans [OF k1] keep \<open>\<not> sys_stopped (env p)\<close> unfolding it' by (cases ?wh) simp_all
      next
        case zero: False
        have "kept p1 p1" using S1 by (auto simp: kept_def)
        then have "\<not> TaskLoop_empty main_thread p1" by (rule keep)
        then show ?thesis using k1 zero False by (simp add: it TaskLoop_empty_def)
      qed
    qed
  qed
qed


section \<open>Termination of the system loop\<close>

text \<open>What \<open>terminate\<close> sends before it waits.\<close>

definition quits_sent :: "liburing \<Rightarrow> ('l, 'v, 'f) world \<Rightarrow> ('l, 'v, 'f) world res" where
  "quits_sent L p =
     (let p1 = p\<lparr>env := Workers_stop ((env p)\<lparr>sys_stopped := True\<rparr>)\<rparr> in
      bind_res (notify_workers_to_stop L main_thread (uring_fds (env p1)) p1) (notify_self_quit L main_thread))"

lemma terminate_eq:
  "\<not> sys_stopped (env p) \<Longrightarrow> terminate_loop L cl arrived p =
     bind_res (quits_sent L p) (\<lambda>p3.
     bind_res (on_ring main_thread (\<lambda>u. Inr (arrive arrived (submit_all L u))) p3) (process_all L cl main_thread))"
  by (simp add: terminate_loop_def quits_sent_def bind_res_assoc Let_def)

lemma send_quit_grow:
  "send_quit L t fd p = Inr p' \<Longrightarrow> grow p p'" "send_quit L t fd p = Inl e \<Longrightarrow> send_fault e"
proof -
  show "grow p p'" if "send_quit L t fd p = Inr p'"
    using that by (auto simp: send_quit_def split_beta Let_def bind_res_eq_Inr intro!: grow_rules elim!: grow_on_ring [rotated])
  show "send_fault e" if "send_quit L t fd p = Inl e"
    using that
    by (auto simp: send_quit_def split_beta Let_def bind_res_eq_Inl on_ring_def on_env_Inl upd_ring_def
        send_fault_def [of NullSqe] dest!: at_sqe_fault)
qed

lemma notify_workers_grow:
  "notify_workers_to_stop L t fds p = Inr p' \<Longrightarrow> grow p p'"
  "notify_workers_to_stop L t fds p = Inl e \<Longrightarrow> send_fault e"
  by (induction fds arbitrary: p)
    (auto simp: bind_res_eq_Inr bind_res_eq_Inl intro: grow_refl grow_trans dest: send_quit_grow)

lemma quits_sent_grow:
  "quits_sent L p = Inr p' \<Longrightarrow> grow p p'" "quits_sent L p = Inl e \<Longrightarrow> send_fault e"
proof -
  let ?p1 = "p\<lparr>env := Workers_stop ((env p)\<lparr>sys_stopped := True\<rparr>)\<rparr>"
  have "grow p ?p1" by (rule grow_env [OF grow_refl])
  then show "grow p p'" if "quits_sent L p = Inr p'"
    using that by (auto simp: quits_sent_def Let_def bind_res_eq_Inr notify_self_quit_def
        dest!: notify_workers_grow send_quit_grow intro: grow_trans)
  show "send_fault e" if "quits_sent L p = Inl e"
    using that by (auto simp: quits_sent_def Let_def bind_res_eq_Inl notify_self_quit_def
        dest: notify_workers_grow send_quit_grow)
qed

lemma grow_kept:
  assumes W: "well_formed S p" and g: "grow p p'"
  shows "kept p p'"
proof -
  obtain S' where "others S' None p'" "extends p p'"
    using grow_others [OF g, of S None] W by (auto simp: well_formed_def)
  then show ?thesis by (auto simp: kept_def well_formed_def extends_def)
qed

lemma terminate_kept:
  assumes W: "well_formed S p" and ns: "\<not> sys_stopped (env p)"
    and ev: "\<And>p3. quits_sent L p = Inr p3 \<Longrightarrow> events_ok p3 (cq (ring_at p3 main_thread) @ arrived)"
  shows "case terminate_loop L cl arrived p of Inl e \<Rightarrow> \<not> machine_fault e | Inr p' \<Rightarrow> kept p p'"
proof (cases "quits_sent L p")
  case (Inl e)
  then show ?thesis using quits_sent_grow(2) [OF Inl] send_fault_not_machine by (simp add: terminate_eq [OF ns])
next
  case (Inr p3)
  have k: "kept p p3" by (rule grow_kept [OF W quits_sent_grow(1) [OF Inr]])
  then obtain S3 where S3: "well_formed S3 p3" by (auto simp: kept_def)
  let ?p = "p3\<lparr>env := (env p3)\<lparr>rings := (rings (env p3))(main_thread := arrive arrived (submit_all L (rings (env p3) main_thread)))\<rparr>\<rparr>"
  have "cq (ring_at ?p main_thread) = cq (ring_at p3 main_thread) @ arrived" by (simp add: ring_at_def arrive_def)
  then have b: "batch_ok S3 ?p (process_all L cl main_thread ?p)"
    by (intro process_all_ok) (use S3 ev [OF Inr] in auto)
  show ?thesis
  proof (cases "process_all L cl main_thread ?p")
    case (Inl e)
    then show ?thesis using b ring_fault_not_machine Inr by (simp add: terminate_eq [OF ns] batch_ok_def)
  next
    case (Inr p')
    then obtain S' where "well_formed S' p'" "undisturbed S3 S' ?p p'" using b by (auto simp: batch_ok_def)
    then have "kept ?p p'" by (fastforce simp: kept_def undisturbed_def)
    then show ?thesis using Inr \<open>quits_sent L p = Inr p3\<close> kept_trans [OF k] by (simp add: terminate_eq [OF ns])
  qed
qed

section \<open>All threads\<close>

text \<open>
  The threads run in turn, one iteration at a time, in any order. A step takes the completions that
  arrive during its wait from outside.
\<close>

inductive system_step ::
  "liburing \<Rightarrow> ('l, 'f) client \<Rightarrow> ('l, 'v, 'f, sys_env) code \<Rightarrow> nat
   \<Rightarrow> ('l, 'v, 'f) world \<Rightarrow> ('l, 'v, 'f) world \<Rightarrow> bool" for L cl code n where
  step_main: "arrivals_ok code main_thread p arrived \<Longrightarrow>
    run_iteration L cl code (ret, arrived, during) p = Some (Inr (go_on, p')) \<Longrightarrow>
    system_step L cl code n p p'"
| step_worker: "t \<in> {1..n} \<Longrightarrow> arrivals_ok code t p arrived \<Longrightarrow>
    worker_iteration L cl code t arrived during p = Some (Inr (go_on, p')) \<Longrightarrow>
    system_step L cl code n p p'"
| step_terminate: "\<not> sys_stopped (env p) \<Longrightarrow>
    (\<And>p3. quits_sent L p = Inr p3 \<Longrightarrow> events_ok p3 (cq (ring_at p3 main_thread) @ arrived)) \<Longrightarrow>
    terminate_loop L cl arrived p = Inr p' \<Longrightarrow> system_step L cl code n p p'"

lemma system_step_kept:
  assumes code: "safe_code code" and W: "well_formed S p" and st: "system_step L cl code n p p'"
  shows "kept p p'"
  using st
proof (cases rule: system_step.cases)
  case (step_main arrived ret during go_on)
  show ?thesis
  proof (cases "TaskLoop_run code main_thread p")
    case None
    then have "sys_stopped (env p)" using step_main by (auto simp: run_iteration_def split: if_splits)
    then have "p' = p" using step_main by (simp add: run_iteration_def)
    then show ?thesis using W by (auto simp: kept_def)
  next
    case (Some r)
    then show ?thesis
      using run_iteration_kept [OF code W Some step_main(1), of L cl ret during] step_main(2) by auto
  qed
next
  case (step_worker t arrived during go_on)
  show ?thesis
  proof (cases "TaskLoop_run code t p")
    case None
    then show ?thesis using step_worker by (simp add: worker_iteration_def)
  next
    case (Some r)
    then show ?thesis
      using worker_iteration_kept [OF code W Some step_worker(2), of L cl during] step_worker(3) by auto
  qed
next
  case (step_terminate arrived)
  have "case terminate_loop L cl arrived p of Inl e \<Rightarrow> \<not> machine_fault e | Inr p' \<Rightarrow> kept p p'"
    by (rule terminate_kept [OF W step_terminate(1)]) (rule step_terminate(2))
  then show ?thesis using step_terminate(3) by simp
qed

text \<open>A system of safe code that starts with one root task.\<close>

definition started :: "'l \<Rightarrow> ('l, 'v, 'f) world \<Rightarrow> bool" where
  "started root p \<longleftrightarrow> (\<exists>s. emplace_back main_thread root (initial_proc s) = Inr p)"

lemma started_well_formed: "started root p \<Longrightarrow> \<exists>S. well_formed S p"
  unfolding started_def well_formed_def by (auto dest!: others_first_task)

definition system_inv :: "('l, 'v, 'f, sys_env) code \<Rightarrow> ('l, 'v, 'f) world \<Rightarrow> bool" where
  "system_inv code p \<longleftrightarrow> safe_code code \<longrightarrow> (\<exists>S. well_formed S p)"

interpretation system: transition_invariant "started root" "system_step L cl code n" "system_inv code"
  for root L cl code n
proof unfold_locales
  show "system_inv code p" if "started root p" for p
    using started_well_formed [OF that] by (auto simp: system_inv_def)
  show "system_inv code p'" if "system_inv code p" "system_step L cl code n p p'" for p p'
    using that system_step_kept [of code _ p L cl n p'] by (auto simp: system_inv_def kept_def)
qed

text \<open>The task lists only grow.\<close>

definition safe_size :: "('l, 'v, 'f, sys_env) code \<Rightarrow> nat \<Rightarrow> ('l, 'v, 'f) world \<Rightarrow> nat" where
  "safe_size code t p = (if safe_code code then TaskLoop_size t p else 0)"

lemma kept_size: "kept p p' \<Longrightarrow> TaskLoop_size t p \<le> TaskLoop_size t p'"
proof (rule ccontr)
  assume k: "kept p p'" and "\<not> ?thesis"
  then have "in_range p (t, length (loops p' t))" by (simp add: in_range_def TaskLoop_size_def)
  then have "in_range p' (t, length (loops p' t))" using k unfolding kept_def by blast
  then show False by (simp add: in_range_def)
qed

interpretation system_size: monotone_measure "started root" "system_step L cl code n" "system_inv code"
    "safe_size code t"
  for root L cl code n t
proof unfold_locales
  show "safe_size code t p \<le> safe_size code t p'"
    if "system_inv code p" "system_step L cl code n p p'" for p p'
    using that system_step_kept [of code _ p L cl n p'] kept_size by (auto simp: safe_size_def system_inv_def)
qed

end
