(* ===== verification/Startup.thy ===== *)
theory Startup
  imports System_Loop Transitions
begin

text \<open>
  The start-up of the threads: the main thread never gets past its wait before every worker has
  counted the latch down, but since the latch is constructed after the workers have been started it
  may wait for ever.
\<close>

lemma SystemLoop_startup_init: "SystemLoop_startup n = startup_init n"
  by (simp add: SystemLoop_startup_def Workers_how_many_def WORKERS_def)

definition startup_inv :: "nat \<Rightarrow> startup \<Rightarrow> bool" where
  "startup_inv n s \<longleftrightarrow>
     n_workers s = n \<and> main_started s \<le> n \<and> counted_down s \<subseteq> {..<main_started s} \<and>
     (\<forall>k. latch s = Some k \<longrightarrow> main_started s = n \<and> n - card (counted_down s) \<le> k) \<and>
     (main_past_wait s \<longrightarrow> counted_down s = {..<n})"

lemma startup_inv_full:
  assumes "startup_inv n s" and "latch s = Some 0"
  shows "counted_down s = {..<n}"
proof -
  have "counted_down s \<subseteq> {..<n}" "n \<le> card (counted_down s)" using assms by (auto simp: startup_inv_def)
  then show ?thesis by (intro card_subset_eq) (auto dest: card_mono [rotated])
qed

lemma startup_step_inv:
  assumes I: "startup_inv n s" and st: "startup_step s s'"
  shows "startup_inv n s'"
  using st
proof (cases rule: startup_step.cases)
  case start_worker
  then show ?thesis using I by (auto simp: startup_inv_def)
next
  case construct_latch
  then show ?thesis using I by (auto simp: startup_inv_def)
next
  case (count_down i)
  have sub: "insert i (counted_down s) \<subseteq> {..<main_started s}" using I count_down by (auto simp: startup_inv_def)
  have fin: "finite (counted_down s)" using sub finite_subset by auto
  have le: "main_started s \<le> n" using I by (simp add: startup_inv_def)
  have past: "\<not> main_past_wait s"
    using I count_down le by (auto simp: startup_inv_def)
  have "n - card (insert i (counted_down s)) \<le> k - 1" if "latch s = Some k" for k
    using I count_down that fin by (auto simp: startup_inv_def)
  then show ?thesis using I count_down sub past by (auto simp: startup_inv_def)
next
  case pass_wait
  then show ?thesis using I startup_inv_full [OF I] by (auto simp: startup_inv_def)
qed

lemma startup_init_inv: "startup_inv n (startup_init n)"
  by (simp add: startup_inv_def startup_init_def)

interpretation startup: transition_invariant "\<lambda>s. s = startup_init n" startup_step "startup_inv n" for n
  by unfold_locales (auto simp: startup_init_inv intro: startup_step_inv)

section \<open>The lost count-down\<close>

text \<open>All workers are started, they count down, and then the latch is constructed.\<close>

lemma start_all: "k \<le> n \<Longrightarrow> startup_step\<^sup>*\<^sup>* (startup_init n) ((startup_init n)\<lparr>main_started := k\<rparr>)"
proof (induction k)
  case (Suc k)
  have "startup_step ((startup_init n)\<lparr>main_started := k\<rparr>) ((startup_init n)\<lparr>main_started := Suc k\<rparr>)"
    using start_worker [of "(startup_init n)\<lparr>main_started := k\<rparr>"] Suc.prems by (simp add: startup_init_def)
  then show ?case using Suc by (meson Suc_leD rtranclp.rtrancl_into_rtrancl)
qed (simp add: startup_init_def)

lemma count_all:
  "k \<le> n \<Longrightarrow> startup_step\<^sup>*\<^sup>* ((startup_init n)\<lparr>main_started := n\<rparr>)
     ((startup_init n)\<lparr>main_started := n, counted_down := {..<k}\<rparr>)"
proof (induction k)
  case (Suc k)
  have "startup_step ((startup_init n)\<lparr>main_started := n, counted_down := {..<k}\<rparr>)
      ((startup_init n)\<lparr>main_started := n, counted_down := {..<Suc k}\<rparr>)"
    using count_down [of k "(startup_init n)\<lparr>main_started := n, counted_down := {..<k}\<rparr>"] Suc.prems
    by (simp add: startup_init_def lessThan_Suc)
  then show ?case using Suc by (meson Suc_leD rtranclp.rtrancl_into_rtrancl)
qed (simp add: startup_init_def)

definition deadlocked :: "nat \<Rightarrow> startup" where
  "deadlocked n =
     \<lparr>n_workers = n, main_started = n, latch = Some n, counted_down = {..<n}, main_past_wait = False\<rparr>"

lemma deadlocked_reachable: "startup_step\<^sup>*\<^sup>* (startup_init n) (deadlocked n)"
proof -
  have "startup_step ((startup_init n)\<lparr>main_started := n, counted_down := {..<n}\<rparr>) (deadlocked n)"
    using construct_latch [of "(startup_init n)\<lparr>main_started := n, counted_down := {..<n}\<rparr>"]
    by (simp add: startup_init_def deadlocked_def)
  then show ?thesis
    using start_all [of n n] count_all [of n n] by (meson order_refl rtranclp.rtrancl_into_rtrancl rtranclp_trans)
qed

lemma deadlocked_stuck: "0 < n \<Longrightarrow> \<not> startup_step (deadlocked n) s'"
  by (auto simp: deadlocked_def elim: startup_stepE)

end
