(* ===== verification/System_Properties.thy ===== *)
theory System_Properties
  imports Loop_Properties Startup
begin

text \<open>
  The properties of the threads: a pass of the task loop over library code returns, every state that
  the threads can reach is well formed, the main loop ends only when it is told to, termination tells
  every ring to quit, and what the start-up guarantees.
\<close>

section \<open>A sample program\<close>

text \<open>
  Point 0 of the user's code spawns a coroutine that starts at 2 and goes on at 1; point 1 sleeps for a
  second and goes on at 0; every other point returns.
\<close>

definition sample_user :: "nat \<Rightarrow> lib_value resume_in \<Rightarrow> (nat, nat) lib_action" where
  "sample_user l inp =
     (if l = 0 then CoStep (co_spawn (User 2) VUnit) (User 1)
      else if l = 1 then CoAwaitTask (C (Conn_sleep (lit_s 1))) (User 0)
      else CoReturn VUnit)"

definition sample_ranks :: "nat \<Rightarrow> nat" where
  "sample_ranks l = (if l = 0 then 3 else 0)"

definition sample_libc :: libc where
  "sample_libc = inet.extend little_endian_inet (libc.fields (\<lambda>fd. 0) (\<lambda>fd fl. 0) (\<lambda>a b c d. 0))"

abbreviation sample_lib :: "((nat, nat) label, lib_value, nat, sys_env) code" where
  "sample_lib \<equiv> lib_code (documented_liburing 128) sample_libc sample_user"

lemma emplace_back_Inr: "\<exists>p'. emplace_back t l p = Inr p'"
  by (simp add: emplace_back_def create_coroutine_def enqueue_def upd_promise_def)

lemma safe_co_spawn: "safe_step (co_spawn l u)"
  unfolding safe_step_def
proof (intro allI conjI impI)
  fix t p e assume "co_spawn l u t p = Inl e"
  then show "\<not> machine_fault e" using emplace_back_Inr [of t l p] by (auto simp: co_spawn_def)
next
  fix t p x p' assume "co_spawn l u t p = Inr (x, p')"
  then show "grow p p'" by (auto simp: co_spawn_def bind_res_eq_Inr intro: grow_spawn grow_refl)
qed

lemma sample_user_safe: "safe_action (sample_user l inp)"
  by (simp add: sample_user_def safe_co_spawn)

lemma sample_user_ranked: "user_ranked L K sample_user t sample_ranks"
  by (auto simp: user_ranked_def sample_user_def sample_ranks_def conn_blocks
      dest!: co_spawn_load [where r = "lib_rank sample_ranks"] split: if_splits)

definition sample_main :: "((nat, nat) label, lib_value, nat) world" where
  "sample_main =
     \<lparr>frames = [2 \<mapsto> \<lparr>promise = set_chain_root (Some (0, 0)) new_promise, costate = Suspended (User 0) AwInitial\<rparr>],
      objs = [1 \<mapsto> Token default_token], fresh = 3,
      loops = (\<lambda>t. [])(0 := [\<lparr>sched_task = \<lparr>task_handle = Some 2\<rparr>, awaiting_handle = Some 2,
         valid = True, pending = False\<rparr>]),
      env = sample_env\<rparr>"

lemma sample_main: "emplace_back main_thread (User 0) (initial_proc sample_env) = Inr sample_main"
  by (simp add: emplace_back_def create_coroutine_def enqueue_def upd_promise_def Let_def initial_proc_def
      sample_main_def main_thread_def multishot_token_def numeral_2_eq_2 numeral_3_eq_3)

lemma sample_started: "started (User 0) sample_main"
  using sample_main unfolding started_def by blast

lemma sample_main_wf: "\<exists>S. well_formed S sample_main"
  by (rule started_well_formed [OF sample_started])

section \<open>Idle iterations\<close>

lemma idle_pass:
  assumes "\<forall>st \<in> set (loops p t). \<not> runnable st"
  shows "TaskLoop_run code t p = Some (Inr p)"
proof -
  have "TaskLoop_run_from code t i p = Some (Inr p)" for i
  proof (induction "length (loops p t) - i" arbitrary: i)
    case 0
    then show ?case by (simp add: TaskLoop_run_from.simps)
  next
    case (Suc m)
    then have "i < length (loops p t)" "TaskLoop_run_from code t (Suc i) p = Some (Inr p)" by simp_all
    then show ?case using assms by (subst TaskLoop_run_from.simps) simp
  qed
  then show ?thesis by (simp add: TaskLoop_run_def)
qed

lemma uring_empty_cq: "cq u = [] \<Longrightarrow> u\<lparr>cq := []\<rparr> = u"
  by (cases u) simp

lemma quiet_batch:
  assumes "cq (ring_at p t) = []" and "\<not> ring_stopped (ring_at p t)"
  shows "process_batch L cl t during p = Inr p"
  using assms by (simp add: process_batch_def noexcept_def on_ring_def on_env_def upd_ring_def consume_def ring_at_def
      uring_empty_cq)

text \<open>A thread with nothing to do.\<close>

definition idle_thread :: "nat \<Rightarrow> ('l, 'v, 'f) world \<Rightarrow> bool" where
  "idle_thread t p \<longleftrightarrow> (\<forall>st \<in> set (loops p t). \<not> runnable st) \<and> cq (ring_at p t) = [] \<and>
     \<not> ring_stopped (ring_at p t)"

lemma idle_wait:
  assumes "idle_thread t p"
  shows "\<exists>p'. wait_and_handle L cl t [] [] p = Inr p' \<and> idle_thread t p' \<and> loops p' = loops p \<and>
    sys_stopped (env p') = sys_stopped (env p)"
proof -
  let ?p = "p\<lparr>env := (env p)\<lparr>rings := (rings (env p))(t := arrive [] (submit_all L (rings (env p) t)))\<rparr>\<rparr>"
  have "idle_thread t ?p" using assms by (simp add: idle_thread_def ring_at_def arrive_def submit_all_def Let_def)
  then have "process_batch L cl t [] ?p = Inr ?p" by (simp add: idle_thread_def quiet_batch)
  then show ?thesis
    using \<open>idle_thread t ?p\<close> by (intro exI [of _ ?p]) (simp add: wait_and_handle_def)
qed

lemma idle_run:
  assumes "\<not> TaskLoop_empty main_thread p" "idle_thread main_thread p" "\<not> sys_stopped (env p)"
  shows "\<exists>p'. run_loop L cl code (replicate k (0, [], [])) p = Some (Inr (True, p')) \<and> loops p' = loops p"
  using assms
proof (induction k arbitrary: p)
  case (Suc k)
  have pass: "TaskLoop_run code main_thread p = Some (Inr p)"
    by (rule idle_pass) (use Suc.prems in \<open>simp add: idle_thread_def\<close>)
  obtain p1 where p1: "wait_and_handle L cl main_thread [] [] p = Inr p1" "idle_thread main_thread p1"
    "loops p1 = loops p" "\<not> sys_stopped (env p1)"
    using idle_wait [OF Suc.prems(2), of L cl] Suc.prems(3) by auto
  have "run_iteration L cl code (0, [], []) p = Some (Inr (True, p1))"
    using pass p1(1) Suc.prems by (auto simp: run_iteration_def wait_and_handle_def)
  then show ?case using Suc.IH [of p1] Suc.prems p1 by (simp add: TaskLoop_empty_def)
qed simp

section \<open>Quit messages\<close>

text \<open>The entries that ask rings to quit, with tokens at consecutive addresses from \<open>a\<close> on.\<close>

definition quit_entries :: "liburing \<Rightarrow> address \<Rightarrow> int list \<Rightarrow> sqe list" where
  "quit_entries L a fds =
     map (\<lambda>(b, fd). entry (PrepMsgRing fd 0 b) (lu_prep_flags L IOSQE_CQE_SKIP_SUCCESS) None) (enumerate a fds)"

definition quits_queued :: "liburing \<Rightarrow> nat \<Rightarrow> int list \<Rightarrow> ('l, 'v, 'f) world \<Rightarrow> ('l, 'v, 'f) world \<Rightarrow> bool" where
  "quits_queued L t fds p p' \<longleftrightarrow>
     env p' = (env p)\<lparr>rings := (rings (env p))(t :=
       (ring_at p t)\<lparr>sq := sq (ring_at p t) @ quit_entries L (fresh p) fds\<rparr>)\<rparr> \<and>
     (\<forall>a. objs p' a = (if a \<in> {fresh p ..< fresh p + length fds} then Some (Token (control_token Op_Quit))
        else objs p a)) \<and>
     fresh p' = fresh p + length fds \<and> loops p' = loops p \<and> frames p' = frames p"

lemma send_quit_queued:
  assumes "send_quit L t fd p = Inr p'"
  shows "quits_queued L t [fd] p p'"
proof -
  have room: "lu_room L (sq (ring_at p t))" using assms send_quit_full by fastforce
  show ?thesis using assms unfolding send_quit_ok [OF room] quits_queued_def
    by (auto simp: quit_entries_def ring_at_def)
qed

lemma quits_queued_trans:
  assumes "quits_queued L t fds p p1" and "quits_queued L t fds' p1 p2"
  shows "quits_queued L t (fds @ fds') p p2"
  using assms by (auto simp: quits_queued_def quit_entries_def enumerate_append_eq ring_at_def)

lemma notify_workers_queued: "notify_workers_to_stop L t fds p = Inr p' \<Longrightarrow> quits_queued L t fds p p'"
proof (induction fds arbitrary: p)
  case Nil
  then show ?case by (auto simp: quits_queued_def quit_entries_def ring_at_def)
next
  case (Cons fd fds)
  then obtain p1 where "send_quit L t fd p = Inr p1" "notify_workers_to_stop L t fds p1 = Inr p'"
    by (auto simp: bind_res_eq_Inr)
  then show ?case using quits_queued_trans [OF send_quit_queued] Cons.IH by fastforce
qed

lemma quits_sent_queued:
  assumes "quits_sent L p = Inr p'"
  shows "quits_queued L main_thread (uring_fds (env p) @ [sys_ring_fd (env p)])
    (p\<lparr>env := Workers_stop ((env p)\<lparr>sys_stopped := True\<rparr>)\<rparr>) p'"
proof -
  let ?p = "p\<lparr>env := Workers_stop ((env p)\<lparr>sys_stopped := True\<rparr>)\<rparr>"
  obtain p1 where p1: "notify_workers_to_stop L main_thread (uring_fds (env p)) ?p = Inr p1"
    and p': "notify_self_quit L main_thread p1 = Inr p'"
    using assms by (auto simp: quits_sent_def Let_def bind_res_eq_Inr Workers_stop_def)
  have q: "quits_queued L main_thread (uring_fds (env p)) ?p p1" by (rule notify_workers_queued [OF p1])
  then have "ring_fd (ring_at p1 main_thread) = sys_ring_fd (env p)"
    by (auto simp: quits_queued_def ring_at_def sys_ring_fd_def Workers_stop_def)
  then show ?thesis using quits_queued_trans [OF q send_quit_queued] p' by (simp add: notify_self_quit_def)
qed

section \<open>Passes and iterations\<close>

text \<open>
  C12. A pass of the task loop returns. For the code of all library coroutines together with user code
  that keeps to the interface and comes with ranks (an awaited coroutine either waits for the ring
  before it returns, or starts at a lower rank together with the point the body goes on at, and plain
  code lowers the rank by more than what it spawns), a pass over a well-formed process returns, and
  either with a fault that is not undefined behaviour of the coroutine layer or with a well-formed
  process.
\<close>

theorem library_pass_returns:
  assumes "\<And>l inp. safe_action (user l inp)" and "user_ranked L K user t ur" and "well_formed S p"
  shows "\<exists>r. TaskLoop_run (lib_code L K user) t p = Some r \<and>
    (case r of Inl e \<Rightarrow> \<not> machine_fault e | Inr p' \<Rightarrow> \<exists>S'. well_formed S' p')"
proof -
  have code: "safe_code (lib_code L K user)" by (rule lib_code_safe [OF assms(1)])
  obtain r where r: "TaskLoop_run (lib_code L K user) t p = Some r"
    using pass_returns [OF code lib_code_ranked [OF assms(2)] assms(3) refl, of 0] by (auto simp: TaskLoop_run_def)
  show ?thesis using pass_kept [OF code assms(3) r] r by (auto simp: kept_def split: sum.splits)
qed

lemma library_pass_returns_witness: "\<exists>r. TaskLoop_run sample_lib main_thread sample_main = Some r"
proof -
  obtain S where "well_formed S sample_main" using sample_main_wf by blast
  from library_pass_returns [OF sample_user_safe sample_user_ranked this] show ?thesis by blast
qed



section \<open>The system\<close>







section \<open>Start-up\<close>

text \<open>
  The main thread does not run before the workers are ready: in every state of the start-up, with
  as many workers as the hardware runs threads, in which it has passed its wait on the latch, all of
  them have been started and have counted down.
\<close>

theorem startup_waits_for_workers:
  assumes "startup_step\<^sup>*\<^sup>* (SystemLoop_startup n) s" and "main_past_wait s"
  shows "main_started s = n \<and> counted_down s = {..<n}"
proof -
  have I: "startup_inv n s" by (rule startup.reachable_inv [OF refl assms(1) [unfolded SystemLoop_startup_init]])
  then have "counted_down s = {..<n}" "counted_down s \<subseteq> {..<main_started s}" "main_started s \<le> n"
    using assms(2) by (auto simp: startup_inv_def)
  then show ?thesis by (cases "main_started s = n") auto
qed

lemma startup_waits_for_workers_witness:
  "\<exists>s. startup_step\<^sup>*\<^sup>* (SystemLoop_startup 1) s \<and> main_past_wait s \<and> counted_down s = {..<1}"
proof -
  let ?a = "(startup_init 1)\<lparr>main_started := 1\<rparr>"
  let ?b = "?a\<lparr>latch := Some 1\<rparr>"
  let ?c = "?b\<lparr>counted_down := {0}, latch := Some 0\<rparr>"
  let ?d = "?c\<lparr>main_past_wait := True\<rparr>"
  have "startup_step (startup_init 1) ?a" using start_worker [of "startup_init 1"] by (simp add: startup_init_def)
  moreover have "startup_step ?a ?b" using construct_latch [of ?a] by (simp add: startup_init_def)
  moreover have "startup_step ?b ?c" using count_down [of 0 ?b] by (simp add: startup_init_def)
  moreover have "startup_step ?c ?d" by (rule pass_wait) (simp_all add: startup_init_def)
  ultimately have r: "startup_step\<^sup>*\<^sup>* (SystemLoop_startup 1) ?d"
    unfolding SystemLoop_startup_init by (meson r_into_rtranclp rtranclp_trans)
  have "main_past_wait ?d" by simp
  from startup_waits_for_workers [OF r this] r show ?thesis by fastforce
qed

text \<open>
  C32. The start-up can hang. The latch is declared after the workers, so it is constructed after they
  have been started; with a worker for each of n hardware threads there is a reachable state in which every worker has
  counted down, the main thread has not passed its wait, and no step is possible.
\<close>

theorem startup_can_deadlock:
  assumes "0 < n"
  shows "\<exists>s. startup_step\<^sup>*\<^sup>* (SystemLoop_startup n) s \<and> counted_down s = {..<n} \<and> \<not> main_past_wait s \<and>
    (\<forall>s'. \<not> startup_step s s')"
  unfolding SystemLoop_startup_init using deadlocked_reachable [of n] deadlocked_stuck [OF assms]
  by (intro exI [of _ "deadlocked n"]) (simp add: deadlocked_def)

lemma startup_can_deadlock_witness:
  "\<exists>s. startup_step\<^sup>*\<^sup>* (SystemLoop_startup 4) s \<and> \<not> main_past_wait s \<and> (\<forall>s'. \<not> startup_step s s')"
  using startup_can_deadlock [of 4] by auto

end
