(* ===== verification/Handover.thy ===== *)
theory Handover
  imports Library_Code Ring_Properties "HOL-Library.Multiset"
begin

text \<open>
  Work that one thread hands to another, from the call on the main thread to the task on the worker:
  what the kernel makes of the messages between rings, and what the handlers do with them.
\<close>

section \<open>Taking turns\<close>

lemma mset_rotate: "mset (rotate m xs) = mset xs"
proof -
  have "mset (drop k xs) + mset (take k xs) = mset xs" for k
    by (metis add.commute append_take_drop_id mset_append)
  then show ?thesis by (simp add: rotate_drop_take)
qed

lemma picks_rotate:
  assumes "uring_fds s \<noteq> []"
  shows "map (\<lambda>j. uring_fds s ! nat ((i + int j) mod int (length (uring_fds s)))) [0..<length (uring_fds s)] =
    rotate (nat (i mod int (length (uring_fds s)))) (uring_fds s)"
proof (rule nth_equalityI)
  let ?n = "length (uring_fds s)"
  fix j assume "j < length (map (\<lambda>j. uring_fds s ! nat ((i + int j) mod int ?n)) [0..<?n])"
  then have j: "j < ?n" by simp
  have n: "0 < int ?n" using assms by simp
  have "(i + int j) mod int ?n = int ((nat (i mod int ?n) + j) mod ?n)"
    using n by (simp add: zmod_int mod_add_left_eq)
  then show "map (\<lambda>j. uring_fds s ! nat ((i + int j) mod int ?n)) [0..<?n] ! j =
      rotate (nat (i mod int ?n)) (uring_fds s) ! j"
    using j by (simp add: nth_rotate)
qed simp



section \<open>Messages between rings\<close>

text \<open>
  What \<open>io_uring\<close> documents about the three forms of a message: the ring it goes to and the
  completion that appears there. \<open>new_fd\<close> is the direct descriptor that the receiving ring
  allocates.
\<close>

fun message_cqe :: "int \<Rightarrow> request \<Rightarrow> (int \<times> cqe) option" where
  "message_cqe new_fd (PrepMsgRing fd n a) = Some (fd, \<lparr>cqe_result = n, cqe_fl = 0, cqe_data = a\<rparr>)"
| "message_cqe new_fd (PrepMsgRingCqeFlags fd n a fl) = Some (fd, \<lparr>cqe_result = n, cqe_fl = fl, cqe_data = a\<rparr>)"
| "message_cqe new_fd (PrepMsgRingFdAlloc fd src a) = Some (fd, \<lparr>cqe_result = new_fd, cqe_fl = 0, cqe_data = a\<rparr>)"
| "message_cqe new_fd _ = None"

text \<open>The completions that entries cause on the ring with descriptor \<open>fd\<close>.\<close>

definition messages_for :: "int \<Rightarrow> int \<Rightarrow> sqe list \<Rightarrow> cqe list" where
  "messages_for fd new_fd es =
     map snd (filter (\<lambda>m. fst m = fd) (List.map_filter (\<lambda>e. Option.bind (sqe_req e) (message_cqe new_fd)) es))"

text \<open>What has been submitted on the ring of thread \<open>t\<close> between two states.\<close>

definition new_entries :: "nat \<Rightarrow> ('l, 'v, 'f) world \<Rightarrow> ('l, 'v, 'f) world \<Rightarrow> sqe list" where
  "new_entries t p p' = drop (length (submitted (ring_at p t))) (submitted (ring_at p' t))"

lemma messages_for_simps [simp]:
  "messages_for fd new_fd [] = []"
  "messages_for fd new_fd (e # es) =
     (case Option.bind (sqe_req e) (message_cqe new_fd) of
        Some (w, c) \<Rightarrow> (if w = fd then [c] else []) | None \<Rightarrow> []) @ messages_for fd new_fd es"
  by (auto simp: messages_for_def List.map_filter_def split: option.splits)

lemma sqe_req_entry [simp]: "sqe_req (entry r fl a) = Some r"
  by (simp add: entry_def)

definition fresh_task_of :: "handle \<Rightarrow> scheduled_task" where
  "fresh_task_of h =
     \<lparr>sched_task = \<lparr>task_handle = Some h\<rparr>, awaiting_handle = Some h, valid = True, pending = False\<rparr>"

text \<open>A coroutine that has been created at \<open>l\<close>, scheduled as task \<open>q\<close>, and has not run.\<close>

definition scheduled_frame :: "task_ptr \<Rightarrow> 'l \<Rightarrow> ('l, 'v) frame" where
  "scheduled_frame q l =
     \<lparr>promise = set_chain_root (Some q) new_promise, costate = Suspended l AwInitial\<rparr>"

lemma enqueue_new:
  "frames p h = Some \<lparr>promise = new_promise, costate = Suspended l AwInitial\<rparr> \<Longrightarrow>
   enqueue t \<lparr>task_handle = Some h\<rparr> p =
     Inr (p\<lparr>frames := (frames p)(h \<mapsto> scheduled_frame (t, length (loops p t)) l),
            loops := (loops p)(t := loops p t @ [fresh_task_of h])\<rparr>)"
  by (simp add: enqueue_def upd_promise_def scheduled_frame_def fresh_task_of_def Let_def)

section \<open>A task for a worker\<close>

lemma task_flag [simp]: "NET_IORING_CQE_F_TASK \<noteq> 0"
  by (simp add: NET_IORING_CQE_F_TASK_def)

lemma is_msg_no_flag [simp]: "\<not> is_msg m \<lparr>cqe_result = r, cqe_fl = 0, cqe_data = a\<rparr>"
  by (simp add: is_msg_def)

lemma is_msg_flag [simp]:
  "is_msg m \<lparr>cqe_result = ring_msg_code m', cqe_fl = NET_IORING_CQE_F_TASK, cqe_data = a\<rparr> \<longleftrightarrow> m = m'"
  using ring_msg_code_inj by (auto simp: is_msg_def inj_def)

lemma parallel_spawn_ok:
  assumes L: "fills_entry L" "submits_all L" and m: "sys_ring_fd (env p) = ring_fd (ring_at p t)"
    and r: "lu_room L (sq (ring_at p main_thread))" and w: "pick_worker (env p) = Inr (w, s)"
  shows "parallel_spawn L t l p = Inr (p\<lparr>
      frames := (frames p)(fresh p \<mapsto> \<lparr>promise = new_promise, costate = Suspended l AwInitial\<rparr>),
      objs := (objs p)(Suc (fresh p) \<mapsto> MsgTask \<lparr>msg_task = Some (fresh p)\<rparr>,
                       Suc (Suc (fresh p)) \<mapsto> Token (control_token Op_RingTask)),
      fresh := Suc (Suc (Suc (fresh p))),
      env := s\<lparr>rings := (rings s)(main_thread := (ring_at p main_thread)\<lparr>sq := [],
        submitted := submitted (ring_at p main_thread) @ sq (ring_at p main_thread) @
          [entry (PrepMsgRingCqeFlags w (ring_msg_code RingTask) (Suc (fresh p)) NET_IORING_CQE_F_TASK) 0
             (Some (Suc (Suc (fresh p))))]\<rparr>)\<rparr>\<rparr>)"
  using assms
  by (simp add: parallel_spawn_def create_coroutine_def alloc_obj_def Let_def ring_at_def get_sqe_room
      on_ring_def on_env_def upd_ring_def submit_all_all)

lemma pick_worker_rings: "pick_worker s = Inr (w, s') \<Longrightarrow> rings s' = rings s \<and> conns s' = conns s \<and> w \<in> set (uring_fds s)"
  by (auto simp: pick_worker_def Let_def split: if_splits)

text \<open>The message for a task, handled by the worker it goes to.\<close>

lemma handle_ring_task:
  assumes "objs p a = Some (MsgTask \<lparr>msg_task = Some h\<rparr>)"
    and "frames p h = Some \<lparr>promise = new_promise, costate = Suspended l AwInitial\<rparr>"
  shows "handle_request L cl t \<lparr>cqe_result = ring_msg_code RingTask, cqe_fl = NET_IORING_CQE_F_TASK, cqe_data = a\<rparr> p =
    Inr (p\<lparr>frames := (frames p)(h \<mapsto> scheduled_frame (t, length (loops p t)) l),
           objs := (objs p)(a := None),
           loops := (loops p)(t := loops p t @ [fresh_task_of h])\<rparr>)"
  using assms
  by (simp add: handle_request_def msg_task_at_def RingMsgTask_move_out_def enqueue_new Let_def delete_obj_def
      del: ring_msg_code.simps)

section \<open>A connection for a worker\<close>

text \<open>The state after a connection whose descriptor is \<open>fd\<close> has been sent.\<close>

lemma parallel_spawn_conn_ok:
  assumes L: "fills_entry L" "submits_all L" and m: "sys_ring_fd (env p) = ring_fd (ring_at p t)"
    and r: "lu_room L (sq (ring_at p main_thread))" "lu_room L (sq (ring_at p main_thread) @ [blank_sqe])"
    and c: "conns (env p) c = Some x" "ownership_in_sys_ring x"
    and w: "pick_worker (set_conn c (x\<lparr>direct_fd_in_sys_ring := - 1, ownership_in_sys_ring := False\<rparr>) (env p)) = Inr (w, s)"
  shows "parallel_spawn_conn L t g c p = Inr (p\<lparr>
      objs := (objs p)(fresh p \<mapsto> ConnHelper (RingMsgConnTaskHelper (Some g) (conn_socket x)),
                       Suc (fresh p) \<mapsto> Token (control_token Op_RingFdSender),
                       Suc (Suc (fresh p)) \<mapsto> Token ((control_token Op_RingFdReceiver)\<lparr>cqe_res := conn_socket x\<rparr>)),
      fresh := Suc (Suc (Suc (fresh p))),
      env := s\<lparr>rings := (rings s)(main_thread := (ring_at p main_thread)\<lparr>sq := [],
        submitted := submitted (ring_at p main_thread) @ sq (ring_at p main_thread) @
          [entry (PrepMsgRingFdAlloc w (conn_socket x) (Suc (Suc (fresh p)))) IOSQE_IO_LINK (Some (Suc (fresh p))),
           entry (PrepMsgRingCqeFlags w (ring_msg_code RingFuncTask) (fresh p) NET_IORING_CQE_F_TASK)
             IOSQE_CQE_SKIP_SUCCESS None]\<rparr>)\<rparr>\<rparr>)"
  using assms pick_worker_rings [OF w]
  by (simp add: parallel_spawn_conn_def conn_at_def TcpConnection_release_def connection_fd_def Let_def
      alloc_obj_def ring_at_def get_sqe_room on_ring_def on_env_def upd_ring_def submit_all_all set_conn_def
      list_update_append nth_append del: ring_msg_code.simps)

text \<open>The two messages, handled by the worker they go to.\<close>

lemma handle_fd_receiver:
  assumes "objs p a = Some (Token ((control_token Op_RingFdReceiver)\<lparr>cqe_res := fd\<rparr>))" and "a \<noteq> nullptr"
  shows "handle_request L cl t \<lparr>cqe_result = new_fd, cqe_fl = 0, cqe_data = a\<rparr> p =
    Inr (p\<lparr>objs := (objs p)(a := None),
           env := (env p)\<lparr>rings := (rings (env p))(t :=
             (ring_at p t)\<lparr>direct_map := (direct_map (ring_at p t))(fd \<mapsto> new_fd)\<rparr>)\<rparr>\<rparr>)"
  using assms
  by (simp add: handle_request_def token_at_def handle_token_def control_token_def on_ring_def on_env_def
      upd_ring_def delete_obj_def ring_at_def)

lemma handle_func_task:
  assumes "objs p a = Some (ConnHelper (RingMsgConnTaskHelper (Some g) fd))"
    and "direct_map (ring_at p t) fd = Some new_fd" and "bounded p"
    and L: "fills_entry L" "submits_all L" and r: "lu_room L (sq (ring_at p t))"
  shows "\<exists>p'. handle_request L cl t
      \<lparr>cqe_result = ring_msg_code RingFuncTask, cqe_fl = NET_IORING_CQE_F_TASK, cqe_data = a\<rparr> p = Inr p' \<and>
    loops p' = (loops p)(t := loops p t @ [fresh_task_of (fresh p)]) \<and>
    frames p' = (frames p)(fresh p \<mapsto> scheduled_frame (t, length (loops p t))
      (call_func cl g (set_subring_socket new_fd (TcpConnection_ctor (- 1))))) \<and>
    objs p' = (objs p)(a := None, Suc (fresh p) \<mapsto> Token (control_token Op_MainRingCloseDirectSocket)) \<and>
    fresh p' = Suc (Suc (fresh p)) \<and>
    env p' = (env p)\<lparr>rings := (rings (env p))(t := (ring_at p t)\<lparr>direct_map := (direct_map (ring_at p t))(fd := None),
      sq := [], submitted := submitted (ring_at p t) @ sq (ring_at p t) @
        [entry (PrepMsgRing (sys_ring_fd (env p)) fd (Suc (fresh p))) IOSQE_CQE_SKIP_SUCCESS None]\<rparr>)\<rparr>"
proof -
  let ?conn = "set_subring_socket new_fd (TcpConnection_ctor (- 1))"
  let ?u = "(ring_at p t)\<lparr>direct_map := (direct_map (ring_at p t))(fd := None)\<rparr>"
  let ?p2 = "p\<lparr>objs := (objs p)(a := None), env := (env p)\<lparr>rings := (rings (env p))(t := ?u)\<rparr>\<rparr>"
  let ?p4 = "?p2\<lparr>frames := (frames p)(fresh p \<mapsto> scheduled_frame (t, length (loops p t)) (call_func cl g ?conn)),
    fresh := Suc (fresh p), loops := (loops p)(t := loops p t @ [fresh_task_of (fresh p)])\<rparr>"
  have inv: "invoke_with_conn L cl t (Some g) ?conn ?p2 =
      Inr (\<lparr>task_handle = Some (fresh p)\<rparr>, snd (TcpConnection_move_ctor ?conn),
           snd (create_coroutine (call_func cl g ?conn) ?p2))"
    by (simp add: invoke_worker_conn create_coroutine_def)
  have enq: "enqueue t \<lparr>task_handle = Some (fresh p)\<rparr> (snd (create_coroutine (call_func cl g ?conn) ?p2)) = Inr ?p4"
    by (subst enqueue_new [where l = "call_func cl g ?conn"]) (simp_all add: create_coroutine_def)
  have fd: "sys_ring_fd (env ?p4) = sys_ring_fd (env p)" by (simp add: sys_ring_fd_def ring_at_def)
  have room: "lu_room L (sq (ring_at ?p4 t))" using r by (simp add: ring_at_def)
  note rel = notify_main_ring_release_fd_ok [OF L room, of fd, unfolded fd]
  have d: "\<exists>c'. TcpConnection_dtor L t (snd (TcpConnection_move_ctor ?conn)) s = Inr (c', s)" for s
    by (rule moved_from_worker_dtor) simp
  have h: "handle_request L cl t
      \<lparr>cqe_result = ring_msg_code RingFuncTask, cqe_fl = NET_IORING_CQE_F_TASK, cqe_data = a\<rparr> p =
    bind_res (notify_main_ring_release_fd L t fd ?p4)
      (on_env (\<lambda>s. bind_res (TcpConnection_dtor L t (snd (TcpConnection_move_ctor ?conn)) s) (\<lambda>(c', s'). Inr s')))"
    using assms(1,2) inv enq
    by (simp add: handle_request_def impl_handle_msg_conn_def conn_helper_at_def ConnTaskHelper_move_out_def
        RingMsgConnTaskHelper_def delete_obj_def direct_map_index_def on_ring_def on_env_def [abs_def] upd_ring_def Let_def
        ring_at_def del: ring_msg_code.simps)
  obtain p5 where p5: "notify_main_ring_release_fd L t fd ?p4 = Inr p5" and eq: "Inr p5 = notify_main_ring_release_fd L t fd ?p4"
    using rel by metis
  obtain c' where "TcpConnection_dtor L t (snd (TcpConnection_move_ctor ?conn)) (env p5) = Inr (c', env p5)"
    using d by blast
  then have "handle_request L cl t
      \<lparr>cqe_result = ring_msg_code RingFuncTask, cqe_fl = NET_IORING_CQE_F_TASK, cqe_data = a\<rparr> p = Inr p5"
    unfolding h p5 by (simp add: on_env_def)
  then show ?thesis
    using eq unfolding rel by (intro exI [of _ p5]) (simp add: ring_at_def)
qed

section \<open>From the call to the task\<close>

text \<open>The completions of the sending ring's own entries that are not suppressed.\<close>

definition own_completions :: "int \<Rightarrow> sqe list \<Rightarrow> cqe list" where
  "own_completions r es =
     List.map_filter (\<lambda>e. if sqe_flags e AND IOSQE_CQE_SKIP_SUCCESS = 0
        then map_option (\<lambda>a. \<lparr>cqe_result = r, cqe_fl = 0, cqe_data = a\<rparr>) (sqe_user_data e) else None) es"

lemma own_completions_simps [simp]:
  "own_completions r [] = []"
  "own_completions r (entry rq fl a # es) =
     (if fl AND IOSQE_CQE_SKIP_SUCCESS = 0
      then (case a of Some b \<Rightarrow> [\<lparr>cqe_result = r, cqe_fl = 0, cqe_data = b\<rparr>] | None \<Rightarrow> []) else []) @
     own_completions r es"
  by (auto simp: own_completions_def List.map_filter_def entry_def split: option.splits)

lemma handle_sent:
  assumes "objs p a = Some (Token (control_token o'))" and "o' \<in> {Op_RingTask, Op_RingFdSender}" and "a \<noteq> nullptr"
  shows "handle_request L cl t \<lparr>cqe_result = r, cqe_fl = 0, cqe_data = a\<rparr> p = Inr (delete_obj a p)"
  using assms by (auto simp: handle_request_def token_at_def handle_token_def control_token_def)

lemma bounded_fresh:
  assumes "bounded p" and "fresh p \<le> a"
  shows "objs p a = None" "frames p a = None" "a \<noteq> nullptr"
  using assms by (auto simp: bounded_def nullptr_def intro: ccontr dest: leD)


lemma sample_waiting_bounded: "bounded sample_waiting"
  using sample_waiting_wf by (simp add: well_formed_def others_def)

lemma sample_pick: "pick_worker sample_env = Inr (4, sample_env\<lparr>current_worker_uring_idx := 0\<rparr>)"
  by (simp add: pick_worker_def sample_env_def)

lemma sample_waiting_env [simp]: "env sample_waiting = sample_env"
  by (simp add: sample_waiting_def)

lemma sample_ring_idle [simp]: "sq (rings sample_env k) = []"
  by (simp add: sample_env_def sample_ring_def new_uring_def)

lemma documented_room [simp]: "lu_room (documented_liburing n) q \<longleftrightarrow> length q < n"
  by (simp add: documented_liburing_def)


lemma pick_worker_set_conn:
  "pick_worker s = Inr (w, s') \<Longrightarrow> pick_worker (set_conn c x s) = Inr (w, set_conn c x s')"
  by (auto simp: pick_worker_def set_conn_def Let_def split: if_splits)

text \<open>What the main ring does when the worker tells it to give up a descriptor.\<close>

lemma handle_release:
  assumes "objs p a = Some (Token (control_token Op_MainRingCloseDirectSocket))" and "a \<noteq> nullptr"
    and L: "fills_entry L" "submits_all L" and r: "lu_room L (sq (ring_at p t))"
  shows "handle_request L cl t \<lparr>cqe_result = fd, cqe_fl = 0, cqe_data = a\<rparr> p =
    Inr (p\<lparr>objs := (objs p)(a := None), env := (env p)\<lparr>rings := (rings (env p))(t := flushed [close_entry fd] (ring_at p t))\<rparr>\<rparr>)"
  using assms
  by (simp add: handle_request_def token_at_def handle_token_def control_token_def on_ring_def on_env_def
      upd_ring_def ring_at_def close_direct_socket_ok flushed_def close_entry_def delete_obj_def)

text \<open>The two messages of a handed-over connection, handled by the worker they go to.\<close>

lemma conn_received:
  assumes a: "objs p a = Some (ConnHelper (RingMsgConnTaskHelper (Some g) fd))"
    and r: "objs p r = Some (Token ((control_token Op_RingFdReceiver)\<lparr>cqe_res := fd\<rparr>))" "message_address r"
    and B: "bounded p" and L: "fills_entry L" "submits_all L" "lu_room L []" and sq: "sq (ring_at p k) = []"
  shows "\<exists>p' u. handle_each L cl k [\<lparr>cqe_result = new_fd, cqe_fl = 0, cqe_data = r\<rparr>,
      \<lparr>cqe_result = ring_msg_code RingFuncTask, cqe_fl = NET_IORING_CQE_F_TASK, cqe_data = a\<rparr>] p = Inr p' \<and>
    loops p' = (loops p)(k := loops p k @ [fresh_task_of (fresh p)]) \<and>
    frames p' = (frames p)(fresh p \<mapsto> scheduled_frame (k, length (loops p k))
      (call_func cl g (set_subring_socket new_fd (TcpConnection_ctor (- 1))))) \<and>
    objs p' = (objs p)(r := None, a := None, Suc (fresh p) \<mapsto> Token (control_token Op_MainRingCloseDirectSocket)) \<and>
    env p' = (env p)\<lparr>rings := (rings (env p))(k := u)\<rparr> \<and>
    submitted u = submitted (ring_at p k) @ [entry (PrepMsgRing (sys_ring_fd (env p)) fd (Suc (fresh p))) IOSQE_CQE_SKIP_SUCCESS None]"
proof -
  let ?u = "(ring_at p k)\<lparr>direct_map := (direct_map (ring_at p k))(fd \<mapsto> new_fd)\<rparr>"
  let ?p1 = "p\<lparr>objs := (objs p)(r := None), env := (env p)\<lparr>rings := (rings (env p))(k := ?u)\<rparr>\<rparr>"
  have ne: "a \<noteq> r" "r \<noteq> nullptr" "r \<noteq> multishot_token" using a r by (auto simp: message_address_def)
  have recv: "handle_request L cl k \<lparr>cqe_result = new_fd, cqe_fl = 0, cqe_data = r\<rparr> p = Inr ?p1"
    by (rule handle_fd_receiver [OF r(1) ne(2)])
  have rk: "ring_at ?p1 k = ?u" and sys: "sys_ring_fd (env ?p1) = sys_ring_fd (env p)"
    by (simp_all add: ring_at_def sys_ring_fd_def)
  have "bounded ?p1" using B ne(3) by (auto simp: bounded_def)
  then obtain p' where "handle_request L cl k
      \<lparr>cqe_result = ring_msg_code RingFuncTask, cqe_fl = NET_IORING_CQE_F_TASK, cqe_data = a\<rparr> ?p1 = Inr p'"
    "loops p' = (loops p)(k := loops p k @ [fresh_task_of (fresh p)])"
    "frames p' = (frames p)(fresh p \<mapsto> scheduled_frame (k, length (loops p k))
      (call_func cl g (set_subring_socket new_fd (TcpConnection_ctor (- 1)))))"
    "objs p' = (objs p)(r := None, a := None, Suc (fresh p) \<mapsto> Token (control_token Op_MainRingCloseDirectSocket))"
    "env p' = (env p)\<lparr>rings := (rings (env p))(k := ?u\<lparr>direct_map := (direct_map ?u)(fd := None), sq := [],
      submitted := submitted ?u @ [entry (PrepMsgRing (sys_ring_fd (env p)) fd (Suc (fresh p))) IOSQE_CQE_SKIP_SUCCESS None]\<rparr>)\<rparr>"
    using handle_func_task [of ?p1 a g fd k new_fd L cl, OF _ _ _ L(1,2)] a ne(1) L(3) sq
    unfolding rk sys by (auto simp del: ring_msg_code.simps)
  then show ?thesis
    by (intro exI [of _ p'] exI [of _ "rings (env p') k"]) (simp add: recv del: ring_msg_code.simps)
qed

text \<open>What comes back to the main thread: the message of the worker, and the completion of its own entry.\<close>

lemma conn_released:
  assumes q: "objs p q = Some (Token (control_token Op_MainRingCloseDirectSocket))" "q \<noteq> nullptr"
    and b: "objs p b = Some (Token (control_token Op_RingFdSender))" "b \<noteq> nullptr" and ne: "b \<noteq> q"
    and L: "fills_entry L" "submits_all L" "lu_room L []" and sq: "sq (ring_at p t) = []"
  shows "\<exists>p'. handle_each L cl t [\<lparr>cqe_result = fd, cqe_fl = 0, cqe_data = q\<rparr>, \<lparr>cqe_result = res, cqe_fl = 0, cqe_data = b\<rparr>] p = Inr p' \<and>
    new_entries t p p' = [close_entry fd] \<and> loops p' = loops p \<and> frames p' = frames p \<and>
    objs p' = (objs p)(q := None, b := None)"
proof -
  let ?p1 = "p\<lparr>objs := (objs p)(q := None), env := (env p)\<lparr>rings := (rings (env p))(t := flushed [close_entry fd] (ring_at p t))\<rparr>\<rparr>"
  have rel: "handle_request L cl t \<lparr>cqe_result = fd, cqe_fl = 0, cqe_data = q\<rparr> p = Inr ?p1"
    by (rule handle_release [OF q L(1,2)]) (use L(3) sq in simp)
  have snt: "handle_request L cl t \<lparr>cqe_result = res, cqe_fl = 0, cqe_data = b\<rparr> ?p1 = Inr (delete_obj b ?p1)"
    by (rule handle_sent [where o' = Op_RingFdSender]) (use b ne in simp_all)
  have "handle_each L cl t [\<lparr>cqe_result = fd, cqe_fl = 0, cqe_data = q\<rparr>, \<lparr>cqe_result = res, cqe_fl = 0, cqe_data = b\<rparr>] p =
      Inr (delete_obj b ?p1)"
    by (simp add: rel snt)
  moreover have "new_entries t p (delete_obj b ?p1) = [close_entry fd]"
    using sq by (simp add: new_entries_def ring_at_def flushed_def delete_obj_def)
  ultimately show ?thesis by (intro exI [of _ "delete_obj b ?p1"]) (simp add: delete_obj_def)
qed

text \<open>What the main thread sends, and what it leaves behind in the process.\<close>

lemma conn_sent:
  assumes L: "fills_entry L" "submits_all L" "lu_room L []" "lu_room L [blank_sqe]" and B: "bounded p"
    and r: "sq (ring_at p main_thread) = []" and k: "k \<noteq> main_thread"
    and c: "conns (env p) c = Some x" "ownership_in_sys_ring x" and w: "pick_worker (env p) = Inr (w, s)"
  obtains p1 where "parallel_spawn_conn L main_thread g c p = Inr p1"
    and "conns (env p1) c = Some (x\<lparr>direct_fd_in_sys_ring := - 1, ownership_in_sys_ring := False\<rparr>)"
    and "loops p1 = loops p" "frames p1 = frames p" "fresh p1 = Suc (Suc (Suc (fresh p)))" "bounded p1"
    and "objs p1 = (objs p)(fresh p \<mapsto> ConnHelper (RingMsgConnTaskHelper (Some g) (conn_socket x)),
      Suc (fresh p) \<mapsto> Token (control_token Op_RingFdSender),
      Suc (Suc (fresh p)) \<mapsto> Token ((control_token Op_RingFdReceiver)\<lparr>cqe_res := conn_socket x\<rparr>))"
    and "new_entries main_thread p p1 =
      [entry (PrepMsgRingFdAlloc w (conn_socket x) (Suc (Suc (fresh p)))) IOSQE_IO_LINK (Some (Suc (fresh p))),
       entry (PrepMsgRingCqeFlags w (ring_msg_code RingFuncTask) (fresh p) NET_IORING_CQE_F_TASK) IOSQE_CQE_SKIP_SUCCESS None]"
    and "sq (ring_at p1 main_thread) = []" "ring_at p1 k = ring_at p k" "sys_ring_fd (env p1) = sys_ring_fd (env p)"
proof -
  let ?fd = "conn_socket x" and ?m = main_thread
  let ?s = "set_conn c (x\<lparr>direct_fd_in_sys_ring := - 1, ownership_in_sys_ring := False\<rparr>) s"
  let ?es = "[entry (PrepMsgRingFdAlloc w ?fd (Suc (Suc (fresh p)))) IOSQE_IO_LINK (Some (Suc (fresh p))),
      entry (PrepMsgRingCqeFlags w (ring_msg_code RingFuncTask) (fresh p) NET_IORING_CQE_F_TASK) IOSQE_CQE_SKIP_SUCCESS None]"
  let ?p1 = "p\<lparr>objs := (objs p)(fresh p \<mapsto> ConnHelper (RingMsgConnTaskHelper (Some g) ?fd),
        Suc (fresh p) \<mapsto> Token (control_token Op_RingFdSender),
        Suc (Suc (fresh p)) \<mapsto> Token ((control_token Op_RingFdReceiver)\<lparr>cqe_res := ?fd\<rparr>)), fresh := Suc (Suc (Suc (fresh p))),
      env := ?s\<lparr>rings := (rings ?s)(?m := (ring_at p ?m)\<lparr>sq := [], submitted := submitted (ring_at p ?m) @ ?es\<rparr>)\<rparr>\<rparr>"
  have m: "sys_ring_fd (env p) = ring_fd (ring_at p ?m)" by (simp add: sys_ring_fd_def ring_at_def)
  have "parallel_spawn_conn L ?m g c p = Inr ?p1"
    using parallel_spawn_conn_ok [OF L(1,2) m _ _ c pick_worker_set_conn [OF w], of g] r L
    by (simp del: ring_msg_code.simps)
  moreover have "bounded ?p1" using B by (auto simp: bounded_def RingMsgConnTaskHelper_def)
  moreover have "ring_at ?p1 k = ring_at p k"
    using k pick_worker_rings [OF w] by (simp add: ring_at_def set_conn_def)
  moreover have "new_entries ?m p ?p1 = ?es" by (simp add: new_entries_def ring_at_def del: ring_msg_code.simps)
  moreover have "conns (env ?p1) c = Some (x\<lparr>direct_fd_in_sys_ring := - 1, ownership_in_sys_ring := False\<rparr>)"
    "sq (ring_at ?p1 ?m) = []" "sys_ring_fd (env ?p1) = sys_ring_fd (env p)"
    by (simp_all add: set_conn_def ring_at_def sys_ring_fd_def)
  ultimately show thesis by (intro that [of ?p1]) simp_all
qed

text \<open>
  C16. A connection that the main thread hands to a worker changes its owner exactly once. With nothing
  queued on the two rings, parallel_spawn of a function with a connection of the main ring leaves the
  caller's object without anything to close; handling the messages on the chosen worker appends one
  task, whose root coroutine is the function called with a connection that holds the descriptor the
  worker's ring allocated; and handling what the worker sends back makes the main ring close exactly
  the descriptor it had, after which every object made for the messages is gone.
\<close>

theorem conn_delivered:
  assumes L: "fills_entry L" "submits_all L" "lu_room L []" "lu_room L [blank_sqe]" and B: "bounded p"
    and r: "sq (ring_at p main_thread) = []" "sq (ring_at p k) = []" and k: "k \<noteq> main_thread"
    and c: "conns (env p) c = Some x" "ownership_in_sys_ring x" "direct_fd_in_this_ring x = - 1"
    and w: "pick_worker (env p) = Inr (w, s)"
  shows "\<exists>p1 p2 p3 x' h. parallel_spawn_conn L main_thread g c p = Inr p1 \<and>
    conns (env p1) c = Some x' \<and> conn_held main_thread x' = [] \<and>
    handle_each L cl k (messages_for w new_fd (new_entries main_thread p p1)) p1 = Inr p2 \<and>
    loops p2 = (loops p)(k := loops p k @ [fresh_task_of h]) \<and>
    frames p2 = (frames p)(h \<mapsto> scheduled_frame (k, length (loops p k))
      (call_func cl g (set_subring_socket new_fd (TcpConnection_ctor (- 1))))) \<and> frames p h = None \<and>
    handle_each L cl main_thread (messages_for (sys_ring_fd (env p)) other_fd (new_entries k p1 p2) @
      own_completions res (new_entries main_thread p p1)) p2 = Inr p3 \<and>
    new_entries main_thread p2 p3 = [close_entry (conn_socket x)] \<and>
    loops p3 = loops p2 \<and> frames p3 = frames p2 \<and> objs p3 = objs p"
proof -
  let ?fd = "conn_socket x" and ?m = main_thread and ?a = "fresh p" and ?b = "Suc (fresh p)"
    and ?r = "Suc (Suc (fresh p))" and ?h = "Suc (Suc (Suc (fresh p)))" and ?q = "Suc (Suc (Suc (Suc (fresh p))))"
  obtain p1 where p1: "parallel_spawn_conn L ?m g c p = Inr p1"
    "conns (env p1) c = Some (x\<lparr>direct_fd_in_sys_ring := - 1, ownership_in_sys_ring := False\<rparr>)"
    "loops p1 = loops p" "frames p1 = frames p" "fresh p1 = ?h" "bounded p1"
    "objs p1 = (objs p)(?a \<mapsto> ConnHelper (RingMsgConnTaskHelper (Some g) ?fd), ?b \<mapsto> Token (control_token Op_RingFdSender),
      ?r \<mapsto> Token ((control_token Op_RingFdReceiver)\<lparr>cqe_res := ?fd\<rparr>))"
    "new_entries ?m p p1 = [entry (PrepMsgRingFdAlloc w ?fd ?r) IOSQE_IO_LINK (Some ?b),
      entry (PrepMsgRingCqeFlags w (ring_msg_code RingFuncTask) ?a NET_IORING_CQE_F_TASK) IOSQE_CQE_SKIP_SUCCESS None]"
    "sq (ring_at p1 ?m) = []" "ring_at p1 k = ring_at p k" "sys_ring_fd (env p1) = sys_ring_fd (env p)"
    by (rule conn_sent [OF L B r(1) k c(1,2) w, of g])
  have mr: "message_address ?r" using bounded_fresh(3) [OF B, of ?r] multishot_lt_fresh [OF B] by (simp add: message_address_def)
  have sqk: "sq (ring_at p1 k) = []" using p1(10) r(2) by simp
  have o1: "objs p1 ?a = Some (ConnHelper (RingMsgConnTaskHelper (Some g) ?fd))"
    "objs p1 ?r = Some (Token ((control_token Op_RingFdReceiver)\<lparr>cqe_res := ?fd\<rparr>))" by (simp_all add: p1(7))
  obtain p2 u where p2: "handle_each L cl k [\<lparr>cqe_result = new_fd, cqe_fl = 0, cqe_data = ?r\<rparr>,
      \<lparr>cqe_result = ring_msg_code RingFuncTask, cqe_fl = NET_IORING_CQE_F_TASK, cqe_data = ?a\<rparr>] p1 = Inr p2"
    "loops p2 = (loops p1)(k := loops p1 k @ [fresh_task_of (fresh p1)])"
    "frames p2 = (frames p1)(fresh p1 \<mapsto> scheduled_frame (k, length (loops p1 k))
      (call_func cl g (set_subring_socket new_fd (TcpConnection_ctor (- 1)))))"
    "objs p2 = (objs p1)(?r := None, ?a := None, Suc (fresh p1) \<mapsto> Token (control_token Op_MainRingCloseDirectSocket))"
    "env p2 = (env p1)\<lparr>rings := (rings (env p1))(k := u)\<rparr>"
    "submitted u = submitted (ring_at p1 k) @ [entry (PrepMsgRing (sys_ring_fd (env p1)) ?fd (Suc (fresh p1))) IOSQE_CQE_SKIP_SUCCESS None]"
    using conn_received [OF o1 mr p1(6) L(1-3) sqk, of cl new_fd] by blast
  have newk: "new_entries k p1 p2 = [entry (PrepMsgRing (sys_ring_fd (env p)) ?fd ?q) IOSQE_CQE_SKIP_SUCCESS None]"
    using p2(5,6) p1(5,11) by (simp add: new_entries_def ring_at_def)
  have rm: "sq (ring_at p2 ?m) = []" using k p2(5) p1(9) by (simp add: ring_at_def)
  obtain p3 where p3: "handle_each L cl ?m [\<lparr>cqe_result = ?fd, cqe_fl = 0, cqe_data = ?q\<rparr>,
      \<lparr>cqe_result = res, cqe_fl = 0, cqe_data = ?b\<rparr>] p2 = Inr p3"
    "new_entries ?m p2 p3 = [close_entry ?fd]" "loops p3 = loops p2" "frames p3 = frames p2" "objs p3 = (objs p2)(?q := None, ?b := None)"
    using conn_released [of p2 ?q ?b L ?m cl ?fd res, OF _ _ _ _ _ L(1-3) rm] p2(4) p1(5,7) by (auto simp: nullptr_def)
  show ?thesis
    by (intro exI [of _ p1] exI [of _ p2] exI [of _ p3] exI [of _ "x\<lparr>direct_fd_in_sys_ring := - 1, ownership_in_sys_ring := False\<rparr>"] exI [of _ ?h],
        unfold newk p1(8))
      (use p1 p2 p3 bounded_fresh [OF B] c(3) in \<open>auto simp: conn_held_def IOSQE_IO_LINK_def IOSQE_CQE_SKIP_SUCCESS_def
        simp del: ring_msg_code.simps handle_each.simps\<close>)
qed

definition sample_holding :: "(nat, nat, nat) world" where
  "sample_holding = sample_waiting\<lparr>env := sample_env\<lparr>conns := [50 \<mapsto> TcpConnection_ctor 9]\<rparr>\<rparr>"

lemma conn_delivered_witness:
  "\<exists>p1 p2 p3. parallel_spawn_conn (documented_liburing 128) main_thread 11 50 sample_holding = Inr p1 \<and>
     handle_each (documented_liburing 128) sample_client 1
       (messages_for 4 6 (new_entries main_thread sample_holding p1)) p1 = Inr p2 \<and>
     new_entries main_thread p2 p3 = [close_entry 9]"
proof -
  have B: "bounded sample_holding" using sample_waiting_bounded by (simp add: sample_holding_def bounded_def)
  have "sq (ring_at sample_holding k) = []" for k by (simp add: sample_holding_def ring_at_def)
  moreover have "conns (env sample_holding) 50 = Some (TcpConnection_ctor 9)" by (simp add: sample_holding_def)
  moreover have "pick_worker (env sample_holding) =
      Inr (4, sample_env\<lparr>conns := [50 \<mapsto> TcpConnection_ctor 9], current_worker_uring_idx := 0\<rparr>)"
    by (simp add: sample_holding_def pick_worker_def sample_env_def)
  ultimately have "\<exists>p1 p2 p3 x' h. parallel_spawn_conn (documented_liburing 128) main_thread 11 50 sample_holding = Inr p1 \<and>
    conns (env p1) 50 = Some x' \<and> conn_held main_thread x' = [] \<and>
    handle_each (documented_liburing 128) sample_client 1 (messages_for 4 6 (new_entries main_thread sample_holding p1)) p1 = Inr p2 \<and>
    loops p2 = (loops sample_holding)(1 := loops sample_holding 1 @ [fresh_task_of h]) \<and>
    frames p2 = (frames sample_holding)(h \<mapsto> scheduled_frame (1, length (loops sample_holding 1))
      (call_func sample_client 11 (set_subring_socket 6 (TcpConnection_ctor (- 1))))) \<and> frames sample_holding h = None \<and>
    handle_each (documented_liburing 128) sample_client main_thread
      (messages_for (sys_ring_fd (env sample_holding)) 0 (new_entries 1 p1 p2) @
      own_completions 0 (new_entries main_thread sample_holding p1)) p2 = Inr p3 \<and>
    new_entries main_thread p2 p3 = [close_entry (conn_socket (TcpConnection_ctor 9))] \<and>
    loops p3 = loops p2 \<and> frames p3 = frames p2 \<and> objs p3 = objs sample_holding"
    by (intro conn_delivered [OF documented_liburing(3,2) _ _ B])
      (simp_all add: TcpConnection_ctor_def main_thread_def)
  then show ?thesis by (auto simp: TcpConnection_ctor_def)
qed

end
