(* ===== verification/Operations.thy ===== *)
theory Operations
  imports System_Properties Net_Properties Handover
begin

text \<open>
  What the operations of the library leave behind: every operation puts one entry of its own into the
  submission queue of its ring and waits for it, and a received message ends up in the connection.
\<close>

section \<open>Waiting for an operation\<close>

text \<open>
  For every operation that waits for one completion: its ring, the call that prepares the entry, the
  flags that are set afterwards, and the point where the coroutine goes on.
\<close>

fun operation_of :: "prep_label \<Rightarrow> (which_ring \<times> request \<times> 8 word \<times> prep_label) option" where
  "operation_of (Accept s fl) = Some (SysRing, PrepAccept s fl, 0, Accept_1)"
| "operation_of (Accept_direct s) = Some (SysRing, PrepAcceptDirect s, 0, Accept_direct_1)"
| "operation_of (Close_socket s) = Some (LocalRing, PrepClose s, 0, Close_socket_1)"
| "operation_of (Close_socket_direct s) = Some (LocalRing, PrepCloseDirect s, 0, Close_socket_direct_1)"
| "operation_of (Direct_socket d ty pr fl) =
     Some (LocalRing, PrepSocketDirectAlloc d ty pr fl, IOSQE_FIXED_FILE, Direct_socket_1)"
| "operation_of (Normal_socket d ty pr fl) = Some (SysRing, PrepSocket d ty pr fl, 0, Normal_socket_1)"
| "operation_of (Read s n) = Some (LocalRing, PrepRead s n, IOSQE_FIXED_FILE, Read_1)"
| "operation_of (Recv_in_ring_buf s) =
     Some (LocalRing, PrepRecv s BUFFER_RING_SIZE, IOSQE_BUFFER_SELECT OR IOSQE_FIXED_FILE, Recv_in_ring_buf_1)"
| "operation_of (Sleep_for ts n fl) = Some (LocalRing, PrepTimeout ts n (sint fl), 0, Sleep_for_1)"
| "operation_of (Write s buf) = Some (LocalRing, PrepWrite s buf (length buf), IOSQE_FIXED_FILE, Write_1)"
| "operation_of (Write_len s buf n) = Some (LocalRing, PrepWrite s buf n, IOSQE_FIXED_FILE, Write_1)"
| "operation_of _ = None"

definition queues_entry :: "('u, 'f) lib_action \<Rightarrow> liburing \<Rightarrow> which_ring \<Rightarrow> request \<Rightarrow> 8 word \<Rightarrow> prep_label \<Rightarrow> bool" where
  "queues_entry act L w r fl k \<longleftrightarrow> (\<exists>op' post. act = CoAwaitUring op' (prepare L w r post) (P k) \<and> default_op op' \<and>
    (\<forall>a. post (entry r 0 (Some a)) = entry r fl (Some a)))"

lemma queues_entryI:
  "default_op op' \<Longrightarrow> (\<And>a. post (entry r 0 (Some a)) = entry r fl (Some a)) \<Longrightarrow>
   queues_entry (CoAwaitUring op' (prepare L w r post) (P k)) L w r fl k"
  unfolding queues_entry_def by blast

lemma entry_group [simp]: "(entry r fl a)\<lparr>sqe_buf_group := 0\<rparr> = entry r fl a"
  by (simp add: entry_def)

lemma operation_code:
  assumes "operation_of l = Some (w, r, fl, k)"
  shows "queues_entry (prep_code L l inp) L w r fl k"
  using assms
  by (cases l) (auto simp: prep_defs awaiter_defs default_op_def URING_DIRECT_FD_TABLE_SIZE_def
      intro!: queues_entryI)

lemma operation_queues:
  assumes "operation_of l = Some (w, r, fl, k)" and "fills_entry L"
    and "frames p h = Some f" and "this_chain_task (promise f) = Some q" and "in_range p q"
  shows "if lu_room L (sq (ring_at p (ring_index w t)))
    then \<exists>p' tk. cstep (lib_code L K user) t (Exec h (P l) inp) p = Inr (Back, p') \<and>
      env p' = (env p)\<lparr>rings := (rings (env p))(ring_index w t := (ring_at p (ring_index w t))\<lparr>
        sq := sq (ring_at p (ring_index w t)) @ [entry r fl (Some (fresh p))]\<rparr>)\<rparr> \<and>
      frames p' = (frames p)(h \<mapsto> f\<lparr>costate := Suspended (P k) (AwToken (fresh p))\<rparr>) \<and>
      objs p' = (objs p)(fresh p \<mapsto> Token tk) \<and> chain_task tk = Some q \<and> default_op (tok_op tk) \<and>
      (\<forall>q'. task_at p' q' = (if q' = q then (task_at p q)\<lparr>awaiting_handle := Some h, pending := True\<rparr>
         else task_at p q'))
    else cstep (lib_code L K user) t (Exec h (P l) inp) p = Inl NullSqe"
proof -
  obtain op' post where act: "prep_code L l inp = (CoAwaitUring op' (prepare L w r post) (P k) :: ('a, 'b) lib_action)"
    and op': "default_op op'" and post: "\<And>a. post (entry r 0 (Some a)) = entry r fl (Some a)"
    using operation_code [OF assms(1), of L inp] unfolding queues_entry_def by blast
  let ?i = "ring_index w t"
  show ?thesis
  proof (cases "lu_room L (sq (ring_at p ?i))")
    case False
    then have "prepare L w r post t (fresh p) (env p) = Inl NullSqe" by (intro prepare_full) (simp add: ring_at_def)
    then show ?thesis using False act by (simp add: cstep_def perform_def UringAwaiter_ctor_def alloc_obj_def)
  next
    case True
    let ?s = "(env p)\<lparr>rings := (rings (env p))(?i := (ring_at p ?i)\<lparr>sq := sq (ring_at p ?i) @ [entry r fl (Some (fresh p))]\<rparr>)\<rparr>"
    have pr: "prepare L w r post t (fresh p) (env p) = Inr ?s"
      using prepare_room [of L "env p" w t r post "fresh p"] True assms(2) by (simp add: post ring_at_def)
    let ?p1 = "p\<lparr>fresh := Suc (fresh p), env := ?s,
      objs := (objs p)(fresh p \<mapsto> Token (default_token\<lparr>tok_op := op'\<rparr>))\<rparr>"
    have ctor: "UringAwaiter_ctor op' (prepare L w r post t) p = Inr (fresh p, ?p1)"
      using pr by (simp add: UringAwaiter_ctor_def alloc_obj_def)
    let ?p2 = "?p1\<lparr>frames := (frames p)(h \<mapsto> f\<lparr>costate := Suspended (P k) (AwToken (fresh p))\<rparr>)\<rparr>"
    have sus: "set_costate h (Suspended (P k) (AwToken (fresh p))) ?p1 = Inr ?p2"
      using assms(3) by (simp add: set_costate_def)
    let ?st = "(task_at p q)\<lparr>awaiting_handle := Some h, pending := True\<rparr>"
    let ?p3 = "?p2\<lparr>objs := (objs p)(fresh p \<mapsto> Token (default_token\<lparr>tok_op := op', chain_task := Some q\<rparr>)),
      loops := (loops p)(fst q := (loops p (fst q))[snd q := ?st])\<rparr>"
    have aw: "UringAwaiter_await_suspend h (fresh p) ?p2 = Inr ?p3"
      using assms(3-5)
      by (simp add: UringAwaiter_await_suspend_def promise_at_def deref_task_def upd_task_def in_range_def
          token_at_def set_awaiting_handle_def set_pending_def Let_def task_at_def)
    have st: "cstep (lib_code L K user) t (Exec h (P l) inp) p = Inr (Back, ?p3)"
      using act ctor sus aw by (simp add: cstep_def perform_def)
    have "task_at ?p3 q' = (if q' = q then ?st else task_at p q')" for q'
      using assms(5) by (cases q, cases q') (auto simp: task_at_def in_range_def nth_list_update)
    then show ?thesis
      using True st op' by (intro iffD2 [OF if_P [OF True]] exI [of _ ?p3] exI [of _ "default_token\<lparr>tok_op := op', chain_task := Some q\<rparr>"]) simp
  qed
qed



section \<open>Receiving into a connection\<close>

lemma sint_of_small:
  assumes "n < 2 ^ 31"
  shows "sint (word_of_nat n :: i32) = int n"
proof -
  have "uint (word_of_nat n :: i32) = int n" using assms by (simp add: unsigned_of_nat take_bit_nat_eq_self)
  then show ?thesis using assms by (subst sint_eq_uint_32) simp_all
qed

lemma buffer_id_decodes:
  assumes "bid < 2 ^ 15" and "low < 2 ^ 16"
  shows "buffer_id (word_of_nat (bid * 2 ^ 16 + low)) = int bid"
proof -
  have "bid * 2 ^ 16 + low < 2 ^ 31" using assms by simp
  then have "sint (word_of_nat (bid * 2 ^ 16 + low) :: i32) = int (bid * 2 ^ 16 + low)" by (rule sint_of_small)
  then show ?thesis using assms(2) unfolding buffer_id_def IORING_CQE_BUFFER_SHIFT_def by simp
qed

text \<open>
  C27. A message received through a provided buffer reaches the connection. If the kernel has written a
  message into buffer bid of the running thread and reports its length and, in the upper half of the
  flags, the buffer, then the step after the completion puts exactly that message into the
  connection's receive buffer, gives exactly that buffer back, and the coroutine returns the number of
  bytes.
\<close>

theorem received_message_taken:
  assumes "buffers (env p) t = kernel_fill bid xs b" and "buf_inv b" and "bid < n_buffers b"
    and "length xs \<le> BUFFER_RING_SIZE" and "bid < 2 ^ 15" and "low < 2 ^ 16" and "conns (env p) c = Some x"
    and "cqe = word_of_nat (bid * 2 ^ 16 + low)"
  shows "\<exists>p' b'. cstep (lib_code L K user) t (Exec h (C (Ring_buf_receive_2 c)) (RVal (VPair (int (length xs)) cqe))) p =
      Inr (Exec h (C (Ring_buf_receive_4 (int (length xs)))) (RVal VUnit), p') \<and>
    conns (env p') c = Some (x\<lparr>receive_buffer := xs\<rparr>) \<and>
    repay (int bid) (kernel_fill bid xs b) = Inr b' \<and> buffers (env p') t = b' \<and>
    lib_code L K user (C (Ring_buf_receive_4 (int (length xs)))) (RVal VUnit) = CoReturn (VInt (int (length xs)))"
proof -
  have id: "buffer_id cqe = int bid" using assms(5,6,8) buffer_id_decodes by simp
  have "ring_pool.fits b (bid, xs)" using assms(3,4) by (simp add: ring_pool.fits_def)
  then have fits: "\<forall>m \<in> set [(bid, xs)]. ring_pool.fits b m" by simp
  have data: "copy_data [] (int bid) (int (length xs)) (kernel_fill bid xs b) = Inr xs"
    using ring_pool.receive_each [OF assms(2) fits, of bid xs] by (simp add: buf_copy_def)
  have "buf_inv (kernel_fill bid xs b)" "bid < n_buffers (kernel_fill bid xs b)"
    using ring_pool.fill_all_inv [OF assms(2) fits] assms(3) by simp_all
  then obtain b' where b': "repay (int bid) (kernel_fill bid xs b) = Inr b'"
    using ring_pool.give_back_ok [of "kernel_fill bid xs b" bid] by (auto simp: buf_repay_def)
  let ?s = "set_conn c (x\<lparr>receive_buffer := xs\<rparr>) ((env p)\<lparr>buffers := (buffers (env p))(t := b')\<rparr>)"
  have "take_received c (int (length xs)) cqe t (env p) = Inr ?s"
    using assms(1,7) data b' id by (simp add: take_received_def conn_at_def)
  moreover have "int (length xs) \<noteq> - ENOBUFS" by (simp add: ENOBUFS_def)
  ultimately have "cstep (lib_code L K user) t (Exec h (C (Ring_buf_receive_2 c)) (RVal (VPair (int (length xs)) cqe))) p =
      Inr (Exec h (C (Ring_buf_receive_4 (int (length xs)))) (RVal VUnit), p\<lparr>env := ?s\<rparr>)"
    by (simp add: cstep_def perform_def ring_buf_receive_2_def on_value_def received_step_def)
  then show ?thesis
    using b' by (intro exI [of _ "p\<lparr>env := ?s\<rparr>"] exI [of _ b']) (simp add: set_conn_def ring_buf_receive_4_def on_unit_def)
qed

definition sample_receiving :: "((nat, nat) label, lib_value, nat) world" where
  "sample_receiving = sample_main\<lparr>env := sample_env\<lparr>conns := [50 \<mapsto> TcpConnection_ctor 9],
     buffers := (\<lambda>t. kernel_fill 7 [8, 9] sample_buffer)\<rparr>\<rparr>"

lemma received_message_taken_witness:
  "\<exists>p'. cstep sample_lib 0 (Exec 2 (C (Ring_buf_receive_2 50)) (RVal (VPair 2 (word_of_nat (7 * 2 ^ 16 + 1))))) sample_receiving =
      Inr (Exec 2 (C (Ring_buf_receive_4 2)) (RVal VUnit), p') \<and>
    conns (env p') 50 = Some ((TcpConnection_ctor 9)\<lparr>receive_buffer := [8, 9]\<rparr>)"
proof -
  have "buffers (env sample_receiving) 0 = kernel_fill 7 [8, 9] sample_buffer"
    and "conns (env sample_receiving) 50 = Some (TcpConnection_ctor 9)"
    and "7 < n_buffers sample_buffer" "length [8, 9 :: byte] \<le> BUFFER_RING_SIZE"
    by (simp_all add: sample_receiving_def sample_buffer_def n_buffers_def N_BUFFERS_def BUFFER_RING_SIZE_def)
  from received_message_taken [OF this(1) sample_buffer_inv this(3,4) _ _ this(2) refl, of 1
      "documented_liburing 128" sample_libc sample_user 2]
  show ?thesis by auto
qed

text \<open>
  C31. The end of a stream gives back a buffer that was not taken. When the peer has closed the
  connection the completion has result 0 and names no buffer; the step after it reads buffer id 0 out
  of the flags and hands buffer 0 to the kernel again, whoever is using it.
\<close>

theorem end_of_stream_repays_buffer:
  assumes "conns (env p) c = Some x" and "br_alive (buffers (env p) t)"
  shows "\<exists>p'. cstep (lib_code L K user) t (Exec h (C (Ring_buf_receive_2 c)) (RVal (VPair 0 0))) p =
      Inr (Exec h (C (Ring_buf_receive_4 0)) (RVal VUnit), p') \<and>
    conns (env p') c = Some (x\<lparr>receive_buffer := []\<rparr>) \<and>
    provided (br_log (buffers (env p') t)) = provided (br_log (buffers (env p) t)) @ [0]"
proof -
  have id: "buffer_id 0 = 0" by (simp add: buffer_id_def)
  obtain b' where b': "repay 0 (buffers (env p) t) = Inr b'"
    "provided (br_log b') = provided (br_log (buffers (env p) t)) @ [0]"
    using assms(2) by (auto simp: repay_def)
  let ?s = "set_conn c (x\<lparr>receive_buffer := []\<rparr>) ((env p)\<lparr>buffers := (buffers (env p))(t := b')\<rparr>)"
  have "take_received c 0 0 t (env p) = Inr ?s"
    using assms b'(1) id by (simp add: take_received_def conn_at_def copy_data_def)
  then have "cstep (lib_code L K user) t (Exec h (C (Ring_buf_receive_2 c)) (RVal (VPair 0 0))) p =
      Inr (Exec h (C (Ring_buf_receive_4 0)) (RVal VUnit), p\<lparr>env := ?s\<rparr>)"
    by (simp add: cstep_def perform_def ring_buf_receive_2_def on_value_def received_step_def ENOBUFS_def)
  then show ?thesis using b'(2) by (intro exI [of _ "p\<lparr>env := ?s\<rparr>"]) (simp add: set_conn_def)
qed

lemma end_of_stream_repays_buffer_witness:
  "\<exists>p'. cstep sample_lib 0 (Exec 2 (C (Ring_buf_receive_2 50)) (RVal (VPair 0 0))) sample_receiving =
      Inr (Exec 2 (C (Ring_buf_receive_4 0)) (RVal VUnit), p') \<and> provided (br_log (buffers (env p') 0)) = [0]"
proof -
  have "conns (env sample_receiving) 50 = Some (TcpConnection_ctor 9)" "br_alive (buffers (env sample_receiving) 0)"
    and log: "br_log (buffers (env sample_receiving) 0) = []"
    by (simp_all add: sample_receiving_def kernel_fill_def sample_buffer_def)
  from end_of_stream_repays_buffer [OF this(1,2), of "documented_liburing 128" sample_libc sample_user 2]
  show ?thesis unfolding log by auto
qed

end
