(* ===== verification/Transfers.thy ===== *)
theory Transfers
  imports Operations
begin

text \<open>
  Reading from and writing to a connection, from the call to its result: each of the three member
  functions of \<open>TcpConnection\<close> that transfer bytes queues one entry, waits for its completion, and
  ends with the number in it.
\<close>

declare split_paired_All [simp del] split_paired_Ex [simp del]

section \<open>The three transfers\<close>

text \<open>
  The connection of a transfer, the operation that it awaits on the connection's socket, and what the
  operation throws when it fails.
\<close>

fun transfer_of :: "conn_label \<Rightarrow> (address \<times> (int \<Rightarrow> prep_label) \<times> string) option" where
  "transfer_of (Read_some c n) = Some (c, \<lambda>fd. Read fd n, ''io_uring prep read failed.'')"
| "transfer_of (Write_some c buf n) = Some (c, \<lambda>fd. Write_len fd buf n, ''io_uring prep write failed.'')"
| "transfer_of (Write_all c buf) = Some (c, \<lambda>fd. Write fd buf, ''io_uring prep write failed.'')"
| "transfer_of _ = None"

text \<open>What the caller is told: the number of the completion, or the exception.\<close>

definition transfer_result :: "string \<Rightarrow> int \<Rightarrow> exn + lib_value" where
  "transfer_result msg r = (if r < 0 then Inl (RuntimeError msg) else Inr (VInt r))"

lemma transfer_steps:
  assumes "transfer_of l = Some (c, g, msg)"
  obtains l1 l2 where "lib_code L K user (C l) RStart = CoStep (load_socket c) (C l1)"
    and "\<forall>fd. lib_code L K user (C l1) (RVal (VInt fd)) = CoAwaitTask (P (g fd)) (C l2)"
    and "\<forall>r. lib_code L K user (C l2) (deliver (transfer_result msg r)) = outcome (transfer_result msg r)"
    and "\<forall>fd w r fl k. operation_of (g fd) = Some (w, r, fl, k) \<longrightarrow> w = LocalRing \<and> (\<forall>x xl.
      lib_code L K user (P k) (RCqe x xl) = outcome (transfer_result msg x))"
proof (cases l)
  case (Read_some c' n)
  show thesis
    by (rule that [of "Read_some_1 n" Read_some_2]; use assms Read_some in
      \<open>auto simp: read_some_def read_some_1_def return_count_def on_int_def on_value_def on_cqe_def
        prep_read_result_def transfer_result_def outcome_def deliver_def\<close>)
next
  case (Write_some c' buf n)
  show thesis
    by (rule that [of "Write_some_1 buf n" Write_2]; use assms Write_some in
      \<open>auto simp: write_some_def write_some_1_def return_count_def on_int_def on_value_def on_cqe_def
        prep_write_result_def transfer_result_def outcome_def deliver_def\<close>)
next
  case (Write_all c' buf)
  show thesis
    by (rule that [of "Write_all_1 buf" Write_2]; use assms Write_all in
      \<open>auto simp: write_all_def write_all_1_def return_count_def on_int_def on_value_def on_cqe_def
        prep_write_result_def transfer_result_def outcome_def deliver_def\<close>)
qed (use assms in auto)

section \<open>From the call to the wait, and from the completion to the result\<close>

text \<open>The frames of a transfer that waits: the member function, and the operation it awaits.\<close>

definition in_transfer ::
  "handle \<Rightarrow> ('u, 'f) label \<Rightarrow> handle \<Rightarrow> ('u, 'f) label \<Rightarrow> address \<Rightarrow> handle \<Rightarrow> (('u, 'f) label, lib_value, 'f) world \<Rightarrow> bool" where
  "in_transfer h l2 hw k a caller_h p \<longleftrightarrow> h \<noteq> hw \<and>
     (\<exists>f. frames p h = Some f \<and> costate f = Suspended l2 (AwTask hw) \<and> caller (promise f) = Some caller_h \<and>
        exn_ptr (promise f) = None) \<and>
     (\<exists>fw. frames p hw = Some fw \<and> costate fw = Suspended k (AwToken a) \<and> caller (promise fw) = Some h \<and>
        exn_ptr (promise fw) = None)"

lemma transfer_starts:
  assumes l: "transfer_of l = Some (c, g, msg)" and x: "conns (env p) c = Some x"
    and o: "operation_of (g (conn_socket x)) = Some (LocalRing, r, fl, k)"
    and room: "lu_room L (sq (ring_at p t))" "fills_entry L"
    and b: "bounded p" and f: "frames p h = Some f" "costate f = Running" "exn_ptr (promise f) = None"
      "caller (promise f) = Some h0" "this_chain_task (promise f) = Some q" and q: "in_range p q"
    and code: "lib_code L K user (C l) RStart = CoStep (load_socket c) (C l1)"
      "\<forall>fd. lib_code L K user (C l1) (RVal (VInt fd)) = CoAwaitTask (P (g fd)) (C l2)"
  shows "\<exists>p1. csteps (lib_code L K user) t (Exec h (C l) RStart) p Back p1 \<and>
    env p1 = (env p)\<lparr>rings := (rings (env p))(t := (ring_at p t)\<lparr>
      sq := sq (ring_at p t) @ [entry r fl (Some (Suc (fresh p)))]\<rparr>)\<rparr> \<and>
    pending (task_at p1 q) \<and> in_transfer h (C l2) (fresh p) (P k) (Suc (fresh p)) h0 p1"
proof -
  let ?code = "lib_code L K user"
  have 1: "csteps ?code t (Exec h (C l) RStart) p (Exec h (C l1) (RVal (VInt (conn_socket x)))) p"
  proof (rule csteps_one)
    have "perform t h (?code (C l) RStart) p = Inr (Exec h (C l1) (RVal (VInt (conn_socket x))), p)"
      unfolding code(1) by (simp add: perform_def load_socket_def conn_at_def x)
    then show "cstep ?code t (Exec h (C l) RStart) p = Inr (Exec h (C l1) (RVal (VInt (conn_socket x))), p)"
      by (simp only: cstep_def ctl.case)
  qed
  have act: "?code (C l1) (RVal (VInt (conn_socket x))) = CoAwaitTask (P (g (conn_socket x))) (C l2)" using code(2) by simp
  obtain p1 where 2: "csteps ?code t (Exec h (C l1) (RVal (VInt (conn_socket x)))) p (Exec (fresh p) (P (g (conn_socket x))) RStart) p1"
    and p1: "frames p1 = (frames p)(h \<mapsto> f\<lparr>costate := Suspended (C l2) (AwTask (fresh p))\<rparr>,
           fresh p \<mapsto> \<lparr>promise = set_chain_root (this_chain_task (promise f)) (set_caller (Some h) new_promise),
                       costate = Running\<rparr>)"
      "objs p1 = objs p" "env p1 = env p" "loops p1 = loops p" "fresh p1 = Suc (fresh p)"
    by (rule await_call [where code = ?code and t = t, OF b f(1,2) act])
  have ne: "h \<noteq> fresh p" using bounded_frame [OF b f(1)] by simp
  let ?fw = "\<lparr>promise = set_chain_root (this_chain_task (promise f)) (set_caller (Some h) new_promise), costate = Running\<rparr>"
  have fw: "frames p1 (fresh p) = Some ?fw" "this_chain_task (promise ?fw) = Some q" "in_range p1 q"
    using p1 f(5) q by (simp_all add: set_chain_root_def in_range_def)
  have "lu_room L (sq (ring_at p1 (ring_index LocalRing t)))" using room p1(3) by (simp add: ring_at_def ring_index_def)
  then obtain p2 where 3: "cstep ?code t (Exec (fresh p) (P (g (conn_socket x))) RStart) p1 = Inr (Back, p2)"
    and p2: "env p2 = (env p1)\<lparr>rings := (rings (env p1))(t := (ring_at p1 t)\<lparr>
        sq := sq (ring_at p1 t) @ [entry r fl (Some (fresh p1))]\<rparr>)\<rparr>"
      "frames p2 = (frames p1)(fresh p \<mapsto> ?fw\<lparr>costate := Suspended (P k) (AwToken (fresh p1))\<rparr>)"
      "task_at p2 q = (task_at p1 q)\<lparr>awaiting_handle := Some (fresh p), pending := True\<rparr>"
    using operation_queues [OF o room(2) fw, of t K user RStart] by (auto simp: ring_index_def)
  have "csteps ?code t (Exec h (C l) RStart) p Back p2"
    by (rule csteps_trans [OF 1 csteps_trans [OF 2 csteps_one [OF 3]]])
  moreover have "in_transfer h (C l2) (fresh p) (P k) (Suc (fresh p)) h0 p2"
    using p1(1,5) p2(2) ne f by (simp add: in_transfer_def set_chain_root_def set_caller_def new_promise_def)
  moreover have "env p2 = (env p)\<lparr>rings := (rings (env p))(t := (ring_at p t)\<lparr>
      sq := sq (ring_at p t) @ [entry r fl (Some (Suc (fresh p)))]\<rparr>)\<rparr>"
    using p2(1) p1(3,5) by (simp add: ring_at_def)
  ultimately show ?thesis using p2(3) by (intro exI [of _ p2]) simp
qed

lemma transfer_ends:
  assumes T: "in_transfer h l2 hw k a h0 p" and tk: "objs p a = Some (Token tk)"
    and code: "\<And>x fl. code k (RCqe x fl) = outcome (transfer_result msg x)"
      "\<And>x. code l2 (deliver (transfer_result msg x)) = outcome (transfer_result msg x)"
  shows "\<exists>p'. csteps code t (Enter hw) p (Enter h0) p' \<and> env p' = env p \<and> frames p' hw = None \<and>
    (\<exists>f'. frames p' h = Some f' \<and> costate f' = AtFinal \<and>
       (case transfer_result msg (cqe_res tk) of
          Inl e \<Rightarrow> exn_ptr (promise f') = Some e
        | Inr v \<Rightarrow> exn_ptr (promise f') = None \<and> slot (promise_res (promise f')) = Some v))"
proof -
  let ?r = "transfer_result msg (cqe_res tk)"
  obtain f fw where ne: "h \<noteq> hw" and f: "frames p h = Some f" "costate f = Suspended l2 (AwTask hw)"
      "caller (promise f) = Some h0" "exn_ptr (promise f) = None"
    and fw: "frames p hw = Some fw" "costate fw = Suspended k (AwToken a)" "caller (promise fw) = Some h"
      "exn_ptr (promise fw) = None"
    using T by (auto simp: in_transfer_def)
  let ?p1 = "delete_obj a (p\<lparr>frames := (frames p)(hw \<mapsto> fw\<lparr>costate := Running\<rparr>)\<rparr>)"
  have 1: "csteps code t (Enter hw) p (Exec hw k (RCqe (cqe_res tk) (cqe_flags tk))) ?p1"
    by (rule csteps_one) (use fw tk in \<open>simp add: cstep_def enter_def set_costate_def await_resume_def
      UringAwaiter_await_resume_def token_at_def\<close>)
  have F: "frames ?p1 h = Some f" "frames ?p1 hw = Some (fw\<lparr>costate := Running\<rparr>)"
    "costate (fw\<lparr>costate := Running\<rparr>) = Running" "caller (promise (fw\<lparr>costate := Running\<rparr>)) = Some h"
    "exn_ptr (promise (fw\<lparr>costate := Running\<rparr>)) = None"
    using f fw ne by (simp_all add: delete_obj_def)
  have now: "code k (RCqe (cqe_res tk) (cqe_flags tk)) = outcome ?r" by (rule code(1))
  obtain p2 where 2: "csteps code t (Exec hw k (RCqe (cqe_res tk) (cqe_flags tk))) ?p1 (Exec h l2 (deliver ?r)) p2"
    and p2: "frames p2 = (frames ?p1)(hw := None, h \<mapsto> f\<lparr>costate := Running\<rparr>)" "env p2 = env ?p1"
    by (rule await_return [where code = code and t = t, OF F(1) f(2) ne F(2-5) now])
  let ?g = "case ?r of Inl e \<Rightarrow> unhandled_exception e | Inr v \<Rightarrow> return_value v"
  let ?p3 = "p2\<lparr>frames := (frames p2)(h \<mapsto> f\<lparr>promise := ?g (promise f), costate := AtFinal\<rparr>)\<rparr>"
  have "caller (?g (promise f)) = Some h0"
    using f(3) by (cases ?r) (simp_all add: unhandled_exception_def return_value_def)
  moreover have "perform t h (outcome ?r) p2 = finish h ?g p2" by (cases ?r) (simp_all add: perform_def outcome_def)
  ultimately have 3: "csteps code t (Exec h l2 (deliver ?r)) p2 (Enter h0) ?p3"
    by (intro csteps_one) (simp add: cstep_def code(2) p2(1) finish_def frame_eqs final_await_suspend_def)
  have "csteps code t (Enter hw) p (Enter h0) ?p3" by (rule csteps_trans [OF 1 csteps_trans [OF 2 3]])
  moreover have "env ?p3 = env p" using p2(2) by (simp add: delete_obj_def)
  ultimately show ?thesis
    using p2(1) ne f(4)
    by (intro exI [of _ ?p3])
      (cases ?r; simp add: unhandled_exception_def return_value_def construct_result_def)
qed

section \<open>Properties\<close>

text \<open>
  C15. A transfer is one operation. When read_some, write_some or write_all is called on a connection by
  a coroutine that awaits it, and the queue has room, exactly one entry with the call on the connection's
  socket is queued, and the task waits. Once the completion's result is in the token, the next resume
  ends the member function without queueing anything else: a negative result is thrown to the caller,
  any other number is returned as it is. So write_all returns after a short write as well, with the rest
  of its bytes not sent.
\<close>

theorem transfer_is_one_operation:
  assumes "transfer_of l = Some (c, g, msg)" and "conns (env p) c = Some x"
    and "operation_of (g (conn_socket x)) = Some (LocalRing, r, fl, k)"
    and "lu_room L (sq (ring_at p t))" and "fills_entry L" and "bounded p"
    and "frames p h = Some f" and "costate f = Running" and "exn_ptr (promise f) = None"
    and "caller (promise f) = Some h0" and "this_chain_task (promise f) = Some q" and "in_range p q"
  shows "\<exists>p1. csteps (lib_code L K user) t (Exec h (C l) RStart) p Back p1 \<and>
    env p1 = (env p)\<lparr>rings := (rings (env p))(t := (ring_at p t)\<lparr>
      sq := sq (ring_at p t) @ [entry r fl (Some (Suc (fresh p)))]\<rparr>)\<rparr> \<and>
    pending (task_at p1 q) \<and>
    (\<forall>p2 tk. frames p2 h = frames p1 h \<longrightarrow> frames p2 (fresh p) = frames p1 (fresh p) \<longrightarrow>
       objs p2 (Suc (fresh p)) = Some (Token tk) \<longrightarrow>
       (\<exists>p3 f'. csteps (lib_code L K user) t (Enter (fresh p)) p2 (Enter h0) p3 \<and> env p3 = env p2 \<and>
          frames p3 h = Some f' \<and> costate f' = AtFinal \<and>
          (if cqe_res tk < 0 then exn_ptr (promise f') = Some (RuntimeError msg)
           else exn_ptr (promise f') = None \<and> slot (promise_res (promise f')) = Some (VInt (cqe_res tk)))))"
proof -
  obtain l1 l2 where code: "lib_code L K user (C l) RStart = CoStep (load_socket c) (C l1)"
      "\<forall>fd. lib_code L K user (C l1) (RVal (VInt fd)) = CoAwaitTask (P (g fd)) (C l2)"
      "\<forall>y. lib_code L K user (C l2) (deliver (transfer_result msg y)) = outcome (transfer_result msg y)"
    and k: "\<forall>fd w r fl k. operation_of (g fd) = Some (w, r, fl, k) \<longrightarrow> w = LocalRing \<and> (\<forall>y yl.
      lib_code L K user (P k) (RCqe y yl) = outcome (transfer_result msg y))"
    by (rule transfer_steps [OF assms(1)])
  obtain p1 where p1: "csteps (lib_code L K user) t (Exec h (C l) RStart) p Back p1"
    "env p1 = (env p)\<lparr>rings := (rings (env p))(t := (ring_at p t)\<lparr>
      sq := sq (ring_at p t) @ [entry r fl (Some (Suc (fresh p)))]\<rparr>)\<rparr>"
    "pending (task_at p1 q)" and T: "in_transfer h (C l2) (fresh p) (P k) (Suc (fresh p)) h0 p1"
    using transfer_starts [OF assms(1-12) code(1,2)] by blast
  have "\<exists>p3 f'. csteps (lib_code L K user) t (Enter (fresh p)) p2 (Enter h0) p3 \<and> env p3 = env p2 \<and>
      frames p3 h = Some f' \<and> costate f' = AtFinal \<and>
      (if cqe_res tk < 0 then exn_ptr (promise f') = Some (RuntimeError msg)
       else exn_ptr (promise f') = None \<and> slot (promise_res (promise f')) = Some (VInt (cqe_res tk)))"
    if F: "frames p2 h = frames p1 h" "frames p2 (fresh p) = frames p1 (fresh p)"
      and tk: "objs p2 (Suc (fresh p)) = Some (Token tk)" for p2 tk
  proof -
    have "in_transfer h (C l2) (fresh p) (P k) (Suc (fresh p)) h0 p2" using T F by (simp add: in_transfer_def)
    from transfer_ends [OF this tk, of "lib_code L K user" msg t]
    show ?thesis using code(3) k assms(3) by (fastforce simp: transfer_result_def split: if_splits)
  qed
  then show ?thesis using p1 by blast
qed

text \<open>A connection with socket 9, and a coroutine in the middle of a task that calls write_all on it.\<close>

definition sample_writing :: "((nat, nat) label, lib_value, nat) world" where
  "sample_writing = sample_main\<lparr>env := sample_env\<lparr>conns := [50 \<mapsto> TcpConnection_ctor 9]\<rparr>,
     frames := [2 \<mapsto> \<lparr>promise = set_chain_root (Some (0, 0)) new_promise, costate = Suspended (User 0) (AwTask 3)\<rparr>,
       3 \<mapsto> \<lparr>promise = set_chain_root (Some (0, 0)) (set_caller (Some 2) new_promise), costate = Running\<rparr>],
     fresh := 4\<rparr>"

lemma transfer_is_one_operation_witness:
  "\<exists>p1. csteps sample_lib 0 (Exec 3 (C (Write_all 50 [1, 2, 3])) RStart) sample_writing Back p1 \<and>
     sq (ring_at p1 0) = [entry (PrepWrite 9 [1, 2, 3] 3) IOSQE_FIXED_FILE (Some 5)] \<and> pending (task_at p1 (0, 0))"
proof -
  have "transfer_of (Write_all 50 [1, 2, 3]) = Some (50, \<lambda>fd. Write fd [1, 2, 3], ''io_uring prep write failed.'')"
    and "operation_of ((\<lambda>fd. Write fd [1, 2, 3]) (conn_socket (TcpConnection_ctor 9))) =
      Some (LocalRing, PrepWrite 9 [1, 2, 3] 3, IOSQE_FIXED_FILE, Write_1)"
    by (simp_all add: TcpConnection_ctor_def)
  moreover have "conns (env sample_writing) 50 = Some (TcpConnection_ctor 9)"
    "lu_room (documented_liburing 128) (sq (ring_at sample_writing 0))" "fills_entry (documented_liburing 128)"
    "frames sample_writing 3 = Some \<lparr>promise = set_chain_root (Some (0, 0)) (set_caller (Some 2) new_promise), costate = Running\<rparr>"
    "in_range sample_writing (0, 0)" "sq (ring_at sample_writing 0) = []" "fresh sample_writing = 4"
    by (simp_all add: sample_writing_def sample_main_def ring_at_def sample_env_def sample_ring_def new_uring_def
        documented_liburing_def fills_entry_def in_range_def)
  moreover have "bounded sample_writing"
    by (auto simp: bounded_def sample_writing_def sample_main_def multishot_token_def split: if_splits)
  ultimately show ?thesis
    using transfer_is_one_operation [of "Write_all 50 [1, 2, 3]" 50 "\<lambda>fd. Write fd [1, 2, 3]" "''io_uring prep write failed.''"
        sample_writing "TcpConnection_ctor 9" "PrepWrite 9 [1, 2, 3] 3" IOSQE_FIXED_FILE Write_1 "documented_liburing 128" 0 3
        "\<lparr>promise = set_chain_root (Some (0, 0)) (set_caller (Some 2) new_promise), costate = Running\<rparr>" 2 "(0, 0)" sample_libc sample_user]
    by (fastforce simp: set_chain_root_def set_caller_def new_promise_def ring_at_def)
qed

end
