(* ===== verification/Ledger.thy ===== *)
theory Ledger
  imports Library_Safety "HOL-Library.Multiset"
begin

text \<open>
  The addresses that the program has handed to the kernel. Every submission entry that carries user
  data, and every message to another ring, will come back as a completion that the handler follows to
  an object. A reference is such an address together with the kind of object the handler will take it
  for; the ledger of the program is the multiset of the references in all entries it has queued so far.
\<close>

section \<open>References\<close>

datatype ref =
    TokenRef address
  | TaskRef address
  | ConnRef address
  | MAccRef address

fun ref_address :: "ref \<Rightarrow> address" where
  "ref_address (TokenRef a) = a"
| "ref_address (TaskRef a) = a"
| "ref_address (ConnRef a) = a"
| "ref_address (MAccRef a) = a"

text \<open>What the handler takes the user data of a completion for.\<close>

definition cqe_ref :: "cqe \<Rightarrow> ref" where
  "cqe_ref c =
     (if is_msg RingTask c then TaskRef (cqe_data c)
      else if is_msg RingFuncTask c then ConnRef (cqe_data c)
      else if is_msg MultiAccTask c then MAccRef (cqe_data c)
      else TokenRef (cqe_data c))"

definition cqe_refs :: "cqe \<Rightarrow> ref multiset" where
  "cqe_refs c = (if cqe_ref c = TokenRef nullptr then {#} else {#cqe_ref c#})"

text \<open>
  What an entry will come back as: on its own ring with its user data, and, if it is a message, on the
  other ring with what the message says.
\<close>

fun request_refs :: "request \<Rightarrow> ref multiset" where
  "request_refs (PrepMsgRing fd n a) = {#TokenRef a#}"
| "request_refs (PrepMsgRingCqeFlags fd n a fl) = {#cqe_ref \<lparr>cqe_result = n, cqe_fl = fl, cqe_data = a\<rparr>#}"
| "request_refs (PrepMsgRingFdAlloc fd src a) = {#TokenRef a#}"
| "request_refs _ = {#}"

definition entry_refs :: "sqe \<Rightarrow> ref multiset" where
  "entry_refs e =
     (case sqe_user_data e of None \<Rightarrow> {#} | Some a \<Rightarrow> {#TokenRef a#}) +
     (case sqe_req e of None \<Rightarrow> {#} | Some r \<Rightarrow> request_refs r)"

definition ring_refs :: "uring \<Rightarrow> ref multiset" where
  "ring_refs u = \<Sum>\<^sub># (image_mset entry_refs (mset (submitted u @ sq u)))"

definition queue_of :: "uring \<Rightarrow> ref multiset" where
  "queue_of u = \<Sum>\<^sub># (image_mset cqe_refs (mset (cq u)))"

text \<open>The threads are 0 to \<open>n\<close>.\<close>

definition ledger :: "nat \<Rightarrow> sys_env \<Rightarrow> ref multiset" where
  "ledger n s = (\<Sum>t\<in>{..n}. ring_refs (rings s t))"

definition queued :: "nat \<Rightarrow> sys_env \<Rightarrow> ref multiset" where
  "queued n s = (\<Sum>t\<in>{..n}. queue_of (rings s t))"

lemma sum_fun_upd:
  fixes f :: "uring \<Rightarrow> ref multiset" and t n :: nat
  assumes "t \<le> n"
  shows "(\<Sum>k\<in>{..n}. f ((g(t := u)) k)) + f (g t) = (\<Sum>k\<in>{..n}. f (g k)) + f u"
proof -
  have "(\<Sum>k\<in>{..n}. f ((g(t := u)) k)) = f u + (\<Sum>k\<in>{..n} - {t}. f (g k))"
    using assms by (subst sum.remove [of _ t]) (auto intro!: sum.cong)
  moreover have "(\<Sum>k\<in>{..n}. f (g k)) = f (g t) + (\<Sum>k\<in>{..n} - {t}. f (g k))"
    using assms by (subst sum.remove [of _ t]) auto
  ultimately show ?thesis by (simp add: ac_simps)
qed

lemma ledger_upd:
  assumes "t \<le> n" and "ring_refs u = ring_refs (rings s t) + X"
  shows "ledger n (s\<lparr>rings := (rings s)(t := u)\<rparr>) = ledger n s + X"
  using sum_fun_upd [OF assms(1), of ring_refs "rings s" u] assms(2) by (simp add: ledger_def ac_simps)

lemma queued_upd:
  assumes "t \<le> n" and "cq u = cq (rings s t)"
  shows "queued n (s\<lparr>rings := (rings s)(t := u)\<rparr>) = queued n s"
proof -
  have "queue_of u = queue_of (rings s t)" using assms(2) by (simp add: queue_of_def)
  then show ?thesis using sum_fun_upd [OF assms(1), of queue_of "rings s" u] by (simp add: queued_def)
qed

lemma ledger_cong: "rings s' = rings s \<Longrightarrow> ledger n s' = ledger n s"
  by (simp add: ledger_def)

lemma queued_cong: "rings s' = rings s \<Longrightarrow> queued n s' = queued n s"
  by (simp add: queued_def)

lemma queue_of_queued: "t \<le> n \<Longrightarrow> queue_of (rings s t) \<subseteq># queued n s"
  unfolding queued_def by (subst sum.remove [of _ t]) auto

section \<open>What the primitives on a ring do to its references\<close>

lemma ring_refs_submit [simp]: "ring_refs (submit_all L u) = ring_refs u"
proof -
  let ?n = "lu_taken L (sq u)"
  have "mset (take ?n (sq u)) + mset (drop ?n (sq u)) = mset (sq u)"
    by (metis append_take_drop_id mset_append)
  then have "mset (submitted u) + mset (take ?n (sq u)) + mset (drop ?n (sq u)) = mset (submitted u) + mset (sq u)"
    by (simp add: ac_simps)
  then show ?thesis by (simp add: ring_refs_def submit_all_def Let_def flip: image_mset_union sum_mset.union)
qed

lemma ring_refs_upd [simp]:
  "ring_refs (u\<lparr>cq := x\<rparr>) = ring_refs u" "ring_refs (u\<lparr>ring_stopped := b\<rparr>) = ring_refs u"
  "ring_refs (u\<lparr>direct_map := d\<rparr>) = ring_refs u" "ring_refs (u\<lparr>awaiting_direct_fd := l\<rparr>) = ring_refs u"
  by (simp_all add: ring_refs_def)

lemma ring_refs_sq: "ring_refs (u\<lparr>sq := sq u @ es\<rparr>) = ring_refs u + \<Sum>\<^sub># (image_mset entry_refs (mset es))"
  by (simp add: ring_refs_def ac_simps)

lemma entry_refs_blank [simp]: "entry_refs blank_sqe = {#}"
  by (simp add: entry_refs_def blank_sqe_def)

lemma entry_refs_or [simp]: "entry_refs (or_flags f e) = entry_refs e"
  by (simp add: entry_refs_def or_flags_def)

lemma entry_refs_prep [simp]: "sqe_req e = None \<Longrightarrow> entry_refs (prep L r e) = entry_refs e + request_refs r"
  by (simp add: entry_refs_def prep_def)

lemma entry_refs_set_data [simp]: "sqe_user_data e = None \<Longrightarrow> entry_refs (set_data a e) = entry_refs e + {#TokenRef a#}"
  by (simp add: entry_refs_def set_data_def ac_simps)

lemma sqe_fields [simp]:
  "sqe_req (or_flags f e) = sqe_req e" "sqe_user_data (or_flags f e) = sqe_user_data e"
  "sqe_user_data (prep L r e) = sqe_user_data e" "sqe_req (set_data a e) = sqe_req e"
  "sqe_req blank_sqe = None" "sqe_user_data blank_sqe = None"
  by (simp_all add: or_flags_def prep_def set_data_def blank_sqe_def)

text \<open>A null entry is a fault, so an operation that succeeds has found room.\<close>

lemma get_sqe_Some:
  "get_sqe L u = (Some i, u') \<Longrightarrow> i = length (sq u) \<and> u' = u\<lparr>sq := sq u @ [blank_sqe]\<rparr>"
  by (auto simp: get_sqe_def split: if_splits)

lemma at_sqe_InrE:
  assumes "at_sqe i f u = Inr u'"
  obtains k where "i = Some k" and "u' = u\<lparr>sq := (sq u)[k := f (sq u ! k)]\<rparr>"
  using assms by (cases i) auto

section \<open>Steps that add references to new objects\<close>

text \<open>
  A reference to an object that a handler may follow, other than the token of an operation: the tokens
  of operations belong to coroutines that wait for them.
\<close>

fun control_ref :: "('l, 'v, 'f) world \<Rightarrow> ref \<Rightarrow> bool" where
  "control_ref p (TokenRef a) =
     (\<exists>tk. objs p a = Some (Token tk) \<and> \<not> default_op (tok_op tk) \<and> tok_op tk \<noteq> Op_MultishotAccept)"
| "control_ref p (TaskRef a) = (\<exists>m. objs p a = Some (MsgTask m) \<and> msg_task m \<noteq> None)"
| "control_ref p (ConnRef a) = (\<exists>m. objs p a = Some (ConnHelper m))"
| "control_ref p (MAccRef a) = (\<exists>m. objs p a = Some (MAccTask m))"

definition unique_refs :: "ref multiset \<Rightarrow> bool" where
  "unique_refs R \<longleftrightarrow> (\<forall>a. message_address a \<longrightarrow> count (image_mset ref_address R) a \<le> 1)"

text \<open>A frame that has kept its place and its caller.\<close>

definition alike :: "('l, 'v) frame \<Rightarrow> ('l, 'v) frame \<Rightarrow> bool" where
  "alike f f' \<longleftrightarrow> costate f' = costate f \<and> caller (promise f') = caller (promise f)"

text \<open>
  What plain code may do: it makes new objects, coroutines and tasks, and queues entries that refer to
  new objects only, each of them once.
\<close>

definition adds :: "nat \<Rightarrow> ('l, 'v, 'f) world \<Rightarrow> ('l, 'v, 'f) world \<Rightarrow> bool" where
  "adds n p p' \<longleftrightarrow>
     fresh p \<le> fresh p' \<and> (\<forall>a < fresh p. objs p' a = objs p a) \<and>
     (\<forall>q. in_range p q \<longrightarrow> in_range p' q \<and> task_at p' q = task_at p q) \<and>
     (\<forall>h < fresh p. rel_option alike (frames p h) (frames p' h)) \<and>
     (\<forall>h f. fresh p \<le> h \<longrightarrow> frames p' h = Some f \<longrightarrow>
        caller (promise f) = None \<or> (\<exists>g. frames p h = Some g \<and> alike g f)) \<and>
     queued n (env p') = queued n (env p) \<and>
     (\<exists>X. ledger n (env p') = ledger n (env p) + X \<and> unique_refs X \<and>
        (\<forall>r \<in># X. fresh p \<le> ref_address r \<and> ref_address r < fresh p' \<and> control_ref p' r))"


lemma unique_refs_empty [simp]: "unique_refs {#}"
  by (simp add: unique_refs_def)

lemma unique_refs_single [simp]: "unique_refs {#r#}"
  by (simp add: unique_refs_def)

lemma unique_refs_subset: "unique_refs Y \<Longrightarrow> X \<subseteq># Y \<Longrightarrow> unique_refs X"
  unfolding unique_refs_def
  by (meson image_mset_subseteq_mono le_trans mset_subset_eq_count)

lemma count_refs_le: "(\<And>r. r \<in># X \<Longrightarrow> ref_address r \<noteq> a) \<Longrightarrow> count (image_mset ref_address X) a = 0"
  by (auto simp: count_eq_zero_iff)

lemma unique_refs_union:
  assumes "unique_refs X" and "unique_refs Y"
    and "\<And>x y. x \<in># X \<Longrightarrow> y \<in># Y \<Longrightarrow> message_address (ref_address x) \<Longrightarrow> ref_address x \<noteq> ref_address y"
  shows "unique_refs (X + Y)"
  unfolding unique_refs_def
proof (intro allI impI)
  fix a assume a: "message_address a"
  show "count (image_mset ref_address (X + Y)) a \<le> 1"
  proof (cases "\<exists>x. x \<in># X \<and> ref_address x = a")
    case True
    then have "count (image_mset ref_address Y) a = 0" using assms(3) a by (intro count_refs_le) metis
    then show ?thesis using assms(1) a by (simp add: unique_refs_def)
  next
    case False
    then have "count (image_mset ref_address X) a = 0" by (intro count_refs_le) metis
    then show ?thesis using assms(2) a by (simp add: unique_refs_def)
  qed
qed

lemma unique_refs_add:
  "unique_refs (add_mset r X) \<Longrightarrow> x \<in># X \<Longrightarrow> message_address (ref_address r) \<Longrightarrow> ref_address x \<noteq> ref_address r"
proof
  assume u: "unique_refs (add_mset r X)" and x: "x \<in># X" and m: "message_address (ref_address r)"
    and e: "ref_address x = ref_address r"
  have "ref_address r \<in># image_mset ref_address X" using x e by (metis image_eqI set_image_mset)
  then have "0 < count (image_mset ref_address X) (ref_address r)" by (simp only: count_greater_zero_iff)
  moreover have "count (image_mset ref_address X) (ref_address r) \<le> 0"
    using u [unfolded unique_refs_def, rule_format, OF m] by simp
  ultimately show False by linarith
qed

lemma alike_refl [simp]: "alike f f"
  by (simp add: alike_def)

lemma alike_trans: "alike f g \<Longrightarrow> alike g h \<Longrightarrow> alike f h"
  by (simp add: alike_def)

lemma rel_alike_refl [simp]: "rel_option alike x x"
  by (cases x) simp_all

lemma rel_alike_trans: "rel_option alike x y \<Longrightarrow> rel_option alike y z \<Longrightarrow> rel_option alike x z"
  by (cases x; cases y; cases z) (auto intro: alike_trans)

lemma control_ref_cong:
  "objs p' (ref_address r) = objs p (ref_address r) \<Longrightarrow> control_ref p' r = control_ref p r"
  by (cases r) simp_all

lemma addsI:
  assumes "fresh p \<le> fresh p'" and "\<And>a. a < fresh p \<Longrightarrow> objs p' a = objs p a"
    and "\<And>q. in_range p q \<Longrightarrow> in_range p' q \<and> task_at p' q = task_at p q"
    and "\<And>h. h < fresh p \<Longrightarrow> rel_option alike (frames p h) (frames p' h)"
    and "\<And>h f. fresh p \<le> h \<Longrightarrow> frames p' h = Some f \<Longrightarrow>
      caller (promise f) = None \<or> (\<exists>g. frames p h = Some g \<and> alike g f)"
    and "queued n (env p') = queued n (env p)" and "ledger n (env p') = ledger n (env p) + X"
    and "unique_refs X"
    and "\<And>r. r \<in># X \<Longrightarrow> fresh p \<le> ref_address r \<and> ref_address r < fresh p' \<and> control_ref p' r"
  shows "adds n p p'"
  using assms unfolding adds_def by blast

lemma addsE:
  assumes "adds n p p'"
  obtains X where "ledger n (env p') = ledger n (env p) + X" and "unique_refs X"
    and "\<forall>r \<in># X. fresh p \<le> ref_address r \<and> ref_address r < fresh p' \<and> control_ref p' r"
  using assms unfolding adds_def by blast

lemma addsD:
  assumes "adds n p p'"
  shows "fresh p \<le> fresh p'" and "a < fresh p \<Longrightarrow> objs p' a = objs p a"
    and "in_range p q \<Longrightarrow> in_range p' q" and "in_range p q \<Longrightarrow> task_at p' q = task_at p q"
    and "h < fresh p \<Longrightarrow> rel_option alike (frames p h) (frames p' h)"
    and "fresh p \<le> h \<Longrightarrow> frames p' h = Some f \<Longrightarrow>
      caller (promise f) = None \<or> (\<exists>g. frames p h = Some g \<and> alike g f)"
    and "queued n (env p') = queued n (env p)"
  using assms unfolding adds_def by blast+

lemma adds_trans:
  assumes A: "adds n p p1" and B: "adds n p1 p2"
  shows "adds n p p2"
proof -
  obtain X where X: "ledger n (env p1) = ledger n (env p) + X" "unique_refs X"
    "\<forall>r \<in># X. fresh p \<le> ref_address r \<and> ref_address r < fresh p1 \<and> control_ref p1 r"
    by (rule addsE [OF A])
  obtain Y where Y: "ledger n (env p2) = ledger n (env p1) + Y" "unique_refs Y"
    "\<forall>r \<in># Y. fresh p1 \<le> ref_address r \<and> ref_address r < fresh p2 \<and> control_ref p2 r"
    by (rule addsE [OF B])
  note D = addsD [OF A] addsD [OF B]
  show ?thesis
  proof (rule addsI [where X = "X + Y"])
    show "fresh p \<le> fresh p2" using D(1,8) by simp
    show "unique_refs (X + Y)" by (rule unique_refs_union [OF X(2) Y(2)]) (use X(3) Y(3) in fastforce)
    show "fresh p \<le> ref_address r \<and> ref_address r < fresh p2 \<and> control_ref p2 r" if "r \<in># X + Y" for r
    proof (cases "r \<in># X")
      case True
      then show ?thesis using X(3) D(8) control_ref_cong [OF D(9), of r] by fastforce
    next
      case False
      then have "r \<in># Y" using that by simp
      then show ?thesis using Y(3) D(1) by fastforce
    qed
    show "caller (promise f) = None \<or> (\<exists>g. frames p h = Some g \<and> alike g f)"
      if h: "fresh p \<le> h" "frames p2 h = Some f" for h f
    proof -
      consider "caller (promise f) = None" | g where "frames p1 h = Some g" "alike g f"
      proof (cases "h < fresh p1")
        case True
        then show thesis using D(12) [OF True] h(2) that(2) by (cases "frames p1 h") auto
      next
        case False
        then show thesis using D(13) [of h f] h(2) that by fastforce
      qed
      then show ?thesis
      proof cases
        case (2 g)
        then show ?thesis using D(6) [OF h(1) 2(1)] alike_trans by (auto simp: alike_def)
      qed simp
    qed
    show "rel_option alike (frames p h) (frames p2 h)" if "h < fresh p" for h
      using rel_alike_trans [OF D(5) [OF that] D(12)] that D(1) by simp
    show "objs p2 a = objs p a" if "a < fresh p" for a using D(2) [OF that] D(9) [of a] that D(1) by simp
    show "in_range p2 q \<and> task_at p2 q = task_at p q" if "in_range p q" for q
      using D(3,4) [OF that] D(10,11) [of q] by simp
    show "queued n (env p2) = queued n (env p)" using D(7,14) by simp
    show "ledger n (env p2) = ledger n (env p) + (X + Y)" using X(1) Y(1) by (simp add: ac_simps)
  qed
qed

lemma adds_same:
  assumes "fresh p' = fresh p" and "objs p' = objs p" and "loops p' = loops p" and "frames p' = frames p"
    and "rings (env p') = rings (env p)"
  shows "adds n p p'"
  by (rule addsI [where X = "{#}"])
    (use assms in \<open>simp_all add: in_range_def task_at_def ledger_cong [OF assms(5)] queued_cong [OF assms(5)]\<close>)

end
