(* ===== verification/Ledger_Steps.thy ===== *)
theory Ledger_Steps
  imports Ledger Handover
begin

text \<open>
  What the operations of the library that coroutines call between two suspensions, and those that the
  handlers of completions call, add to the ledger: references to objects they have just made.
\<close>

section \<open>Rings\<close>

definition ring_gains :: "ref multiset \<Rightarrow> uring \<Rightarrow> uring \<Rightarrow> bool" where
  "ring_gains X u u' \<longleftrightarrow> ring_refs u' = ring_refs u + X \<and> cq u' = cq u"

lemma ring_gains_upd [simp]:
  "ring_gains X u (u'\<lparr>ring_stopped := b\<rparr>) = ring_gains X u u'"
  "ring_gains X u (u'\<lparr>direct_map := d\<rparr>) = ring_gains X u u'"
  "ring_gains X u (u'\<lparr>awaiting_direct_fd := l\<rparr>) = ring_gains X u u'"
  "ring_gains X u (submit_all L u') = ring_gains X u u'"
  "ring_gains {#} u u"
  by (simp_all add: ring_gains_def)

lemma ring_gains_sq: "ring_gains (\<Sum>\<^sub># (image_mset entry_refs (mset es))) u (u\<lparr>sq := sq u @ es\<rparr>)"
  by (simp add: ring_gains_def ring_refs_sq)

lemma one_entry:
  assumes "(let (i, u1) = get_sqe L u in
      bind_res (at_sqe i (prep L r) u1) (\<lambda>u2.
      bind_res (at_sqe i (or_flags f) u2) (\<lambda>u3. Inr (submit_all L u3)))) = Inr u'"
  shows "ring_gains (request_refs r) u u'"
proof (cases "lu_room L (sq u)")
  case True
  then show ?thesis using assms ring_gains_sq [of "[or_flags f (prep L r blank_sqe)]" u]
    by (auto simp: get_sqe_room)
qed (use assms in \<open>simp add: get_sqe_full\<close>)

lemma close_gains: "close_direct_socket L fd u = Inr u' \<Longrightarrow> ring_gains {#} u u'"
  unfolding close_direct_socket_def using one_entry [of L u "PrepCloseDirect fd"] by simp

section \<open>The environment\<close>

definition env_gains :: "nat \<Rightarrow> ref multiset \<Rightarrow> sys_env \<Rightarrow> sys_env \<Rightarrow> bool" where
  "env_gains n X s s' \<longleftrightarrow> ledger n s' = ledger n s + X \<and> queued n s' = queued n s"

lemma env_gains_ring:
  "t \<le> n \<Longrightarrow> ring_gains X (rings s t) u \<Longrightarrow> env_gains n X s (s\<lparr>rings := (rings s)(t := u)\<rparr>)"
  by (simp add: env_gains_def ring_gains_def ledger_upd queued_upd)

lemma env_gains_same: "rings s' = rings s \<Longrightarrow> env_gains n {#} s s'"
  using ledger_cong [of s' s n] queued_cong [of s' s n] by (simp add: env_gains_def)

lemma env_gains_trans: "env_gains n X s s' \<Longrightarrow> env_gains n Y s' s'' \<Longrightarrow> env_gains n (X + Y) s s''"
  by (simp add: env_gains_def ac_simps)

lemma env_gains_none: "env_gains n {#} s s' \<Longrightarrow> env_gains n {#} s' s'' \<Longrightarrow> env_gains n {#} s s''"
  by (simp add: env_gains_def)

lemma upd_ring_gains:
  "upd_ring t f s = Inr s' \<Longrightarrow> t \<le> n \<Longrightarrow> (\<And>u'. f (rings s t) = Inr u' \<Longrightarrow> ring_gains X (rings s t) u') \<Longrightarrow>
   env_gains n X s s'"
  by (auto simp: upd_ring_def bind_res_eq_Inr intro: env_gains_ring)

lemma main_le [simp]: "main_thread \<le> n"
  by (simp add: main_thread_def)

lemma dtor_gains: "TcpConnection_dtor L t c s = Inr (c', s') \<Longrightarrow> t \<le> n \<Longrightarrow> env_gains n {#} s s'"
  by (auto simp: TcpConnection_dtor_def bind_res_eq_Inr env_gains_same split: if_splits
      intro: upd_ring_gains close_gains)

lemma drop_shells_gains: "drop_shells L t k c s = Inr s' \<Longrightarrow> t \<le> n \<Longrightarrow> env_gains n {#} s s'"
proof (induction k arbitrary: c s)
  case (Suc k)
  then obtain c' s1 where 1: "TcpConnection_dtor L t c s = Inr (c', s1)" and 2: "drop_shells L t k c s1 = Inr s'"
    by (auto simp: bind_res_eq_Inr)
  show ?case by (rule env_gains_none [OF dtor_gains [OF 1 Suc.prems(2)] Suc.IH [OF 2 Suc.prems(2)]])
qed (simp add: env_gains_same)

section \<open>Processes\<close>

lemma adds_entries:
  assumes A: "adds n p p1" and eq: "env_gains n {#} (env p) (env p1)" and g: "env_gains n X (env p1) s"
    and u: "unique_refs X"
    and c: "\<And>r. r \<in># X \<Longrightarrow> fresh p \<le> ref_address r \<and> ref_address r < fresh p1 \<and> control_ref p1 r"
  shows "adds n p (p1\<lparr>env := s\<rparr>)"
proof (rule addsI [where X = X])
  show "queued n (env (p1\<lparr>env := s\<rparr>)) = queued n (env p)" "ledger n (env (p1\<lparr>env := s\<rparr>)) = ledger n (env p) + X"
    using eq g by (simp_all add: env_gains_def)
  show "fresh p \<le> ref_address r \<and> ref_address r < fresh (p1\<lparr>env := s\<rparr>) \<and> control_ref (p1\<lparr>env := s\<rparr>) r"
    if "r \<in># X" for r
    using c [OF that] by (cases r) auto
qed (use u addsD [OF A] in simp_all)

lemma adds_refl [simp]: "adds n p p"
  by (rule adds_same) simp_all

lemma adds_env: "env_gains n {#} (env p) s \<Longrightarrow> adds n p (p\<lparr>env := s\<rparr>)"
  by (rule adds_entries [of n p p "{#}"]) (simp_all add: env_gains_same)

lemma adds_alloc: "alloc_obj ob p = (a, p') \<Longrightarrow> adds n p p'"
  by (rule addsI [where X = "{#}"]) (auto simp: alloc_obj_def)

lemma adds_create: "create_coroutine l p = (tk, p') \<Longrightarrow> adds n p p'"
  by (rule addsI [where X = "{#}"]) (auto simp: create_coroutine_def new_promise_def split: if_splits)

lemma adds_enqueue:
  assumes "enqueue t tk p = Inr p'"
  shows "adds n p p'"
proof -
  let ?q = "(t, length (loops p t))"
  obtain h f where h: "task_handle tk = Some h" "frames p h = Some f"
    using assms by (auto simp: enqueue_def Let_def upd_promise_def split: option.splits)
  have p': "p' = p\<lparr>loops := (loops p)(t := loops p t @
      [\<lparr>sched_task = tk, awaiting_handle = task_handle tk, valid = True, pending = False\<rparr>]),
      frames := (frames p)(h \<mapsto> f\<lparr>promise := set_chain_root (Some ?q) (promise f)\<rparr>)\<rparr>"
    using assms h by (simp add: enqueue_def Let_def upd_promise_def)
  have al: "alike f (f\<lparr>promise := set_chain_root (Some ?q) (promise f)\<rparr>)"
    by (simp add: alike_def set_chain_root_def)
  show ?thesis
  proof (rule addsI [where X = "{#}"])
    show "rel_option alike (frames p h') (frames p' h')" for h' using h al by (simp add: p')
    show "in_range p' q \<and> task_at p' q = task_at p q" if "in_range p q" for q
      using that by (auto simp: p' in_range_def task_at_def nth_append)
    show "caller (promise g) = None \<or> (\<exists>g'. frames p h' = Some g' \<and> alike g' g)" if "frames p' h' = Some g" for h' g
      using that h al by (auto simp: p' split: if_splits)
  qed (simp_all add: p')
qed

lemma adds_emplace: "emplace_back t l p = Inr p' \<Longrightarrow> adds n p p'"
  by (auto simp: emplace_back_def split: prod.splits intro: adds_trans [OF adds_create adds_enqueue])

lemma adds_on_env: "on_env f p = Inr p' \<Longrightarrow> (\<And>s. f (env p) = Inr s \<Longrightarrow> env_gains n {#} (env p) s) \<Longrightarrow> adds n p p'"
  by (auto simp: on_env_Inr intro: adds_env)

lemma adds_on_ring:
  "on_ring t f p = Inr p' \<Longrightarrow> t \<le> n \<Longrightarrow> (\<And>u'. f (ring_at p t) = Inr u' \<Longrightarrow> ring_gains {#} (ring_at p t) u') \<Longrightarrow> adds n p p'"
  unfolding on_ring_def ring_at_def by (erule adds_on_env) (rule upd_ring_gains)

lemma adds_destroy:
  "on_env (\<lambda>s. bind_res (TcpConnection_dtor L t c s) (\<lambda>(c', s'). Inr s')) p = Inr p' \<Longrightarrow> t \<le> n \<Longrightarrow> adds n p p'"
  by (erule adds_on_env) (auto simp: bind_res_eq_Inr intro: dtor_gains)

lemma adds_invoke:
  assumes "invoke_with_conn L cl t f conn p = Inr (tk, sh, p')" and "t \<le> n"
  shows "adds n p p'"
proof -
  obtain g where "f = Some g" using assms(1) by (auto simp: invoke_with_conn_def split: option.splits)
  then obtain p1 where c: "create_coroutine (call_func cl g (fst (TcpConnection_move_ctor conn))) p = (tk, p1)"
    and e: "on_env (drop_shells L t (hops cl) (snd (TcpConnection_move_ctor conn))) p1 = Inr p'"
    using assms(1) by (auto simp: invoke_with_conn_def bind_res_eq_Inr split_beta Let_def prod_eq_iff)
  show ?thesis
    by (rule adds_trans [OF adds_create [OF c] adds_on_env [OF e]]) (rule drop_shells_gains [OF _ assms(2)])
qed

text \<open>Making objects and then queueing entries that refer to them on one ring.\<close>

lemma adds_message:
  assumes a: "alloc_obj (Token (control_token o')) p = (a, p1)" and e: "on_ring t f p1 = Inr p'" and t: "t \<le> n"
    and op': "\<not> default_op o'" "o' \<noteq> Op_MultishotAccept"
    and f: "\<And>u'. f (ring_at p1 t) = Inr u' \<Longrightarrow> ring_gains {#TokenRef a#} (ring_at p1 t) u'"
  shows "adds n p p'"
proof -
  obtain s where s: "upd_ring t f (env p1) = Inr s" "p' = p1\<lparr>env := s\<rparr>"
    using e by (auto simp: on_ring_def on_env_Inr)
  have "env_gains n {#TokenRef a#} (env p1) s"
    by (rule upd_ring_gains [OF s(1) t]) (rule f [unfolded ring_at_def])
  then show ?thesis unfolding s(2)
    by (rule adds_entries [OF adds_alloc [OF a], rotated])
      (use a op' in \<open>auto simp: alloc_obj_def env_gains_same control_token_def\<close>)
qed

lemma adds_notify_main:
  assumes "notify_main_ring_release_fd L t fd p = Inr p'" and "t \<le> n"
  shows "adds n p p'"
proof -
  obtain a p1 where a: "alloc_obj (Token (control_token Op_MainRingCloseDirectSocket)) p = (a, p1)" by fastforce
  have e: "on_ring t (\<lambda>u. let (i, u1) = get_sqe L u in
        bind_res (at_sqe i (prep L (PrepMsgRing (sys_ring_fd (env p1)) fd a)) u1) (\<lambda>u2.
        bind_res (at_sqe i (or_flags IOSQE_CQE_SKIP_SUCCESS) u2) (\<lambda>u3. Inr (submit_all L u3)))) p1 = Inr p'"
    using assms(1) a by (simp add: notify_main_ring_release_fd_def)
  show ?thesis
    by (rule adds_message [OF a e assms(2)])
      (use one_entry [of L _ "PrepMsgRing (sys_ring_fd (env p1)) fd a"] in \<open>auto simp: default_op_def\<close>)
qed

lemma adds_send_quit:
  assumes q: "send_quit L t fd p = Inr p'" and t: "t \<le> n"
  shows "adds n p p'"
proof -
  have r: "lu_room L (sq (ring_at p t))" using q send_quit_full by fastforce
  let ?e = "entry (PrepMsgRing fd 0 (fresh p)) (lu_prep_flags L IOSQE_CQE_SKIP_SUCCESS) None"
  obtain p1 where a: "alloc_obj (Token (control_token Op_Quit)) p = (fresh p, p1)" by (simp add: alloc_obj_def)
  have p1: "rings (env p1) = rings (env p)" using a by (auto simp: alloc_obj_def)
  have e: "on_ring t (\<lambda>u. Inr (u\<lparr>sq := sq u @ [?e]\<rparr>)) p1 = Inr p'"
    using q a unfolding send_quit_ok [OF r] by (auto simp: alloc_obj_def ring_at_def)
  show ?thesis
    by (rule adds_message [OF a e t]) (use ring_gains_sq [of "[?e]"] in \<open>auto simp: default_op_def entry_refs_def entry_def\<close>)
qed

lemma adds_notify_workers: "notify_workers_to_stop L t fds p = Inr p' \<Longrightarrow> t \<le> n \<Longrightarrow> adds n p p'"
proof (induction fds arbitrary: p)
  case (Cons fd fds)
  then show ?case by (auto simp: bind_res_eq_Inr intro: adds_trans [OF adds_send_quit])
qed simp

section \<open>Handing work to other threads\<close>

lemma cqe_ref_simps [simp]:
  "cqe_ref \<lparr>cqe_result = ring_msg_code RingTask, cqe_fl = NET_IORING_CQE_F_TASK, cqe_data = a\<rparr> = TaskRef a"
  "cqe_ref \<lparr>cqe_result = ring_msg_code RingFuncTask, cqe_fl = NET_IORING_CQE_F_TASK, cqe_data = a\<rparr> = ConnRef a"
  "cqe_ref \<lparr>cqe_result = ring_msg_code MultiAccTask, cqe_fl = NET_IORING_CQE_F_TASK, cqe_data = a\<rparr> = MAccRef a"
  by (simp_all add: cqe_ref_def del: ring_msg_code.simps)

lemma entry_refs_made [simp]:
  "entry_refs (entry r fl None) = request_refs r"
  "entry_refs (entry r fl (Some a)) = add_mset (TokenRef a) (request_refs r)"
  by (simp_all add: entry_refs_def entry_def)

lemma prep_entry: "prep L r blank_sqe = entry r (lu_prep_flags L 0) None"
  by (simp add: prep_def blank_sqe_def entry_def)

lemma unique_refs_pair:
  "ref_address x \<noteq> ref_address y \<Longrightarrow> unique_refs {#x, y#}"
  "ref_address x \<noteq> ref_address y \<Longrightarrow> ref_address x \<noteq> ref_address z \<Longrightarrow> ref_address y \<noteq> ref_address z \<Longrightarrow>
   unique_refs {#x, y, z#}"
  by (auto simp: unique_refs_def)

lemma pick_worker_same: "pick_worker s = Inr (w, s') \<Longrightarrow> rings s' = rings s"
  using pick_worker_rings by blast

text \<open>The effect of queueing entries on the main ring and submitting them.\<close>

lemma adds_sent:
  assumes A: "adds n p p1" and r: "rings (env p1) = rings (env p)"
    and e: "on_ring main_thread (\<lambda>_. Inr u) p1 = Inr p'" and u: "ring_gains X (rings (env p) main_thread) u"
    and X: "unique_refs X" "\<And>r. r \<in># X \<Longrightarrow> fresh p \<le> ref_address r \<and> ref_address r < fresh p1 \<and> control_ref p1 r"
  shows "adds n p p'"
proof -
  let ?s = "(env p1)\<lparr>rings := (rings (env p1))(main_thread := u)\<rparr>"
  have p': "p' = p1\<lparr>env := ?s\<rparr>" using e by simp
  have g: "env_gains n X (env p1) ?s" by (rule env_gains_ring) (simp_all add: r u)
  show ?thesis unfolding p' by (rule adds_entries [OF A env_gains_same [OF r] g X])
qed

lemma adds_parallel_spawn:
  assumes "parallel_spawn L t l p = Inr p'"
  shows "adds n p p'"
proof -
  obtain tk p1 where c: "create_coroutine l p = (tk, p1)" by fastforce
  obtain m p2 where m: "alloc_obj (MsgTask \<lparr>msg_task = task_handle tk\<rparr>) p1 = (m, p2)" by fastforce
  obtain a p3 where a: "alloc_obj (Token (control_token Op_RingTask)) p2 = (a, p3)" by fastforce
  have new: "m = Suc (fresh p)" "a = Suc (Suc (fresh p))" "fresh p3 = Suc (Suc (Suc (fresh p)))" "env p3 = env p"
    "task_handle tk = Some (fresh p)" "objs p3 m = Some (MsgTask \<lparr>msg_task = task_handle tk\<rparr>)"
    "objs p3 a = Some (Token (control_token Op_RingTask))"
    using c m a by (auto simp: create_coroutine_def alloc_obj_def)
  have A: "adds n p p3" by (rule adds_trans [OF adds_trans [OF adds_create [OF c] adds_alloc [OF m]] adds_alloc [OF a]])
  obtain i u w s u1 u2 where get: "get_sqe L (ring_at p3 main_thread) = (i, u)" and w: "pick_worker (env p3) = Inr (w, s)"
    and u: "at_sqe i (prep L (PrepMsgRingCqeFlags w (ring_msg_code RingTask) m NET_IORING_CQE_F_TASK)) u = Inr u1"
      "at_sqe i (set_data a) u1 = Inr u2"
    and p': "on_ring main_thread (\<lambda>_. Inr (submit_all L u2)) (p3\<lparr>env := s\<rparr>) = Inr p'"
    using assms c m a
    by (auto simp: parallel_spawn_def bind_res_eq_Inr split: prod.splits if_splits simp del: on_ring_pure ring_msg_code.simps)
  have rs: "rings s = rings (env p)" using pick_worker_same [OF w] new by simp
  let ?e = "entry (PrepMsgRingCqeFlags w (ring_msg_code RingTask) m NET_IORING_CQE_F_TASK) (lu_prep_flags L 0) (Some a)"
  have "lu_room L (sq (ring_at p main_thread))" using get u new
    by (cases "lu_room L (sq (ring_at p main_thread))") (auto simp: get_sqe_full ring_at_def)
  then have "u2 = (rings (env p) main_thread)\<lparr>sq := sq (rings (env p) main_thread) @ [?e]\<rparr>"
    using get u new by (auto simp: get_sqe_room ring_at_def prep_entry)
  then have g: "ring_gains {#TaskRef m, TokenRef a#} (rings (env p) main_thread) (submit_all L u2)"
    using ring_gains_sq [of "[?e]" "rings (env p) main_thread"] by (simp add: add_mset_commute del: ring_msg_code.simps)
  have A': "adds n p (p3\<lparr>env := s\<rparr>)"
    by (rule adds_trans [OF A adds_env]) (use rs new in \<open>simp add: env_gains_same\<close>)
  show ?thesis
    by (rule adds_sent [OF A' _ p' g]) (use rs new in \<open>auto simp: unique_refs_pair control_token_def default_op_def\<close>)
qed

lemma adds_parallel_spawn_conn:
  assumes "parallel_spawn_conn L t g c p = Inr p'"
  shows "adds n p p'"
proof -
  obtain x where x: "conn_at (env p) c = Inr x"
    using assms by (cases "conn_at (env p) c") (auto simp: parallel_spawn_conn_def split: if_splits)
  obtain x1 where x1: "TcpConnection_release x = Inr x1"
    using assms x by (cases "TcpConnection_release x") (auto simp: parallel_spawn_conn_def split: if_splits)
  obtain w s where w: "pick_worker (set_conn c x1 (env p)) = Inr (w, s)"
    using assms x x1
    by (cases "pick_worker (set_conn c x1 (env p))") (auto simp: parallel_spawn_conn_def Let_def split: if_splits)
  have rest: "(let p1 = p\<lparr>env := s\<rparr>;
            (send_fd, u1) = get_sqe L (ring_at p1 main_thread);
            (send_task, u2) = get_sqe L u1;
            (helper, p2) = alloc_obj (ConnHelper (RingMsgConnTaskHelper (Some g) (connection_fd x1))) p1;
            (sender, p3) = alloc_obj (Token (control_token Op_RingFdSender)) p2;
            (receiver, p4) = alloc_obj (Token ((control_token Op_RingFdReceiver)\<lparr>cqe_res := connection_fd x1\<rparr>)) p3
        in bind_res (at_sqe send_fd (prep L (PrepMsgRingFdAlloc w (connection_fd x1) receiver)) u2) (\<lambda>u3.
           bind_res (at_sqe send_fd (set_data sender) u3) (\<lambda>u4.
           bind_res (at_sqe send_fd (or_flags IOSQE_IO_LINK) u4) (\<lambda>u5.
           bind_res (at_sqe send_task (prep L (PrepMsgRingCqeFlags w (ring_msg_code RingFuncTask) helper
                       NET_IORING_CQE_F_TASK)) u5) (\<lambda>u6.
           bind_res (at_sqe send_task (or_flags IOSQE_CQE_SKIP_SUCCESS) u6) (\<lambda>u7.
           on_ring main_thread (\<lambda>_. Inr (submit_all L u7)) p4)))))) = Inr p'"
    using assms x x1 w by (simp add: parallel_spawn_conn_def Let_def split: if_splits
        del: on_ring_pure ring_msg_code.simps)
  have rs: "rings s = rings (env p)" using pick_worker_same [OF w] by (simp add: set_conn_def)
  let ?fd = "connection_fd x1" and ?u = "rings (env p) main_thread"
  let ?p1 = "p\<lparr>env := s\<rparr>"
  obtain h p2 where h: "alloc_obj (ConnHelper (RingMsgConnTaskHelper (Some g) ?fd)) ?p1 = (h, p2)" by fastforce
  obtain sd p3 where sd: "alloc_obj (Token (control_token Op_RingFdSender)) p2 = (sd, p3)" by fastforce
  obtain rc p4 where rc: "alloc_obj (Token ((control_token Op_RingFdReceiver)\<lparr>cqe_res := ?fd\<rparr>)) p3 = (rc, p4)" by fastforce
  have new: "h = fresh p" "sd = Suc (fresh p)" "rc = Suc (Suc (fresh p))" "fresh p4 = Suc (Suc (Suc (fresh p)))"
    "env p4 = s" "objs p4 h = Some (ConnHelper (RingMsgConnTaskHelper (Some g) ?fd))"
    "objs p4 sd = Some (Token (control_token Op_RingFdSender))"
    "objs p4 rc = Some (Token ((control_token Op_RingFdReceiver)\<lparr>cqe_res := ?fd\<rparr>))"
    using h sd rc by (auto simp: alloc_obj_def)
  have A: "adds n p p4"
    by (rule adds_trans [OF adds_trans [OF adds_trans [OF adds_env adds_alloc [OF h]] adds_alloc [OF sd]] adds_alloc [OF rc]])
      (simp add: env_gains_same rs)
  have room: "lu_room L (sq ?u)" "lu_room L (sq ?u @ [blank_sqe])"
    using rest h sd rc by (auto simp: ring_at_def rs get_sqe_def Let_def bind_res_eq_Inr split: if_splits)
  let ?f = "entry (PrepMsgRingFdAlloc w ?fd rc) (lu_prep_flags L 0 OR IOSQE_IO_LINK) (Some sd)"
  let ?t = "entry (PrepMsgRingCqeFlags w (ring_msg_code RingFuncTask) h NET_IORING_CQE_F_TASK)
      (lu_prep_flags L 0 OR IOSQE_CQE_SKIP_SUCCESS) None"
  have p': "on_ring main_thread (\<lambda>_. Inr (submit_all L (?u\<lparr>sq := sq ?u @ [?f, ?t]\<rparr>))) p4 = Inr p'"
    using rest h sd rc room
    by (simp add: ring_at_def rs get_sqe_room prep_entry nth_append list_update_append del: on_ring_pure ring_msg_code.simps)
  have g: "ring_gains {#TokenRef sd, TokenRef rc, ConnRef h#} ?u (submit_all L (?u\<lparr>sq := sq ?u @ [?f, ?t]\<rparr>))"
    using ring_gains_sq [of "[?f, ?t]" ?u] by (simp add: add_mset_commute del: ring_msg_code.simps)
  show ?thesis
    by (rule adds_sent [OF A _ p' g]) (use rs new in \<open>auto simp: unique_refs_pair control_token_def default_op_def\<close>)
qed

lemma adds_send_awaiting: "send_awaiting L f fds p = Inr p' \<Longrightarrow> adds n p p'"
proof (induction fds arbitrary: f p)
  case (Cons fd fds)
  obtain w s where w: "pick_worker (env p) = Inr (w, s)" using Cons.prems by (auto simp: bind_res_eq_Inr)
  have rs: "rings s = rings (env p)" by (rule pick_worker_same [OF w])
  let ?u = "rings (env p) main_thread" and ?p1 = "p\<lparr>env := s\<rparr>"
  obtain rc p2 where rc: "alloc_obj (Token (control_token Op_MultishotAcceptFdReceiver)) ?p1 = (rc, p2)" by fastforce
  obtain tt p3 where tt: "alloc_obj (MAccTask (MultishotAcceptTaskToken Op_MultishotAcceptTaskReceiver f)) p2 = (tt, p3)" by fastforce
  have new: "rc = fresh p" "tt = Suc (fresh p)" "fresh p3 = Suc (Suc (fresh p))" "env p3 = s"
    "objs p3 rc = Some (Token (control_token Op_MultishotAcceptFdReceiver))"
    "objs p3 tt = Some (MAccTask (MultishotAcceptTaskToken Op_MultishotAcceptTaskReceiver f))"
    using rc tt by (auto simp: alloc_obj_def)
  have A: "adds n p p3"
    by (rule adds_trans [OF adds_trans [OF adds_env adds_alloc [OF rc]] adds_alloc [OF tt]])
      (simp add: env_gains_same rs)
  have room: "lu_room L (sq ?u)" "lu_room L (sq ?u @ [blank_sqe])" "lu_room L (sq ?u @ [blank_sqe, blank_sqe])"
    using Cons.prems w rc tt by (auto simp: ring_at_def rs get_sqe_def Let_def bind_res_eq_Inr split: if_splits)
  let ?f = "entry (PrepMsgRingFdAlloc w fd rc) (lu_prep_flags L 0 OR (IOSQE_CQE_SKIP_SUCCESS OR IOSQE_IO_LINK)) None"
  let ?t = "entry (PrepMsgRingCqeFlags w (ring_msg_code MultiAccTask) tt NET_IORING_CQE_F_TASK)
      (lu_prep_flags L 0 OR (IOSQE_CQE_SKIP_SUCCESS OR IOSQE_IO_LINK)) None"
  let ?c = "entry (PrepCloseDirect fd) (lu_prep_flags L 0 OR IOSQE_CQE_SKIP_SUCCESS) None"
  let ?v = "?u\<lparr>sq := sq ?u @ [?f, ?t, ?c]\<rparr>"
  obtain p4 where p4: "on_ring main_thread (\<lambda>_. Inr ?v) p3 = Inr p4" and rest: "send_awaiting L None fds p4 = Inr p'"
    using Cons.prems w rc tt room
    by (auto simp: ring_at_def rs get_sqe_room prep_entry nth_append list_update_append bind_res_eq_Inr Let_def
        simp del: ring_msg_code.simps)
  have g: "ring_gains {#TokenRef rc, MAccRef tt#} ?u ?v"
    using ring_gains_sq [of "[?f, ?t, ?c]" ?u] by (simp add: add_mset_commute del: ring_msg_code.simps)
  have "adds n p p4"
    by (rule adds_sent [OF A _ p4 g]) (use rs new in \<open>auto simp: unique_refs_pair control_token_def default_op_def\<close>)
  then show ?case by (rule adds_trans [OF _ Cons.IH [OF rest]])
qed simp

lemma adds_mshot_send:
  assumes "mshot_accept_send_awaiting_fd_and_process L f p = Inr p'"
  shows "adds n p p'"
proof -
  obtain p1 where 1: "send_awaiting L (Some f) (awaiting_direct_fd (ring_at p main_thread)) p = Inr p1"
    and 2: "on_ring main_thread (\<lambda>u. Inr (submit_all L (u\<lparr>awaiting_direct_fd := []\<rparr>))) p1 = Inr p'"
    using assms by (auto simp: mshot_accept_send_awaiting_fd_and_process_def bind_res_eq_Inr)
  show ?thesis by (rule adds_trans [OF adds_send_awaiting [OF 1] adds_on_ring [OF 2]]) auto
qed

end
