(* ===== verification/Ledger_Machine.thy ===== *)
theory Ledger_Machine
  imports Ledger_Steps
begin

text \<open>
  The coroutine machine and the ledger. Whatever the program has queued and the kernel has not completed
  refers to a live object, to each of them once, and the token of an operation to the one its coroutine
  waits for. Every transfer of control keeps this, so no coroutine goes on before its operation is
  complete, and no token is freed while the kernel still holds its address.
\<close>

section \<open>References to live objects\<close>

definition waiting :: "('l, 'v, 'f) world \<Rightarrow> task_ptr \<Rightarrow> address \<Rightarrow> bool" where
  "waiting p q a \<longleftrightarrow> in_range p q \<and> valid (task_at p q) \<and> pending (task_at p q) \<and>
     (\<exists>h f l. awaiting_handle (task_at p q) = Some h \<and> frames p h = Some f \<and> costate f = Suspended l (AwToken a))"

fun live_ref :: "('l, 'v, 'f) world \<Rightarrow> ref \<Rightarrow> bool" where
  "live_ref p (TokenRef a) \<longleftrightarrow> a \<noteq> nullptr \<and> (\<exists>tk. objs p a = Some (Token tk) \<and>
     (a = multishot_token \<longleftrightarrow> tok_op tk = Op_MultishotAccept) \<and>
     (default_op (tok_op tk) \<longrightarrow> (\<exists>q. chain_task tk = Some q \<and> waiting p q a)) \<and>
     (a = multishot_token \<longrightarrow> (\<exists>q. chain_task tk = Some q \<and> in_range p q)))"
| "live_ref p r \<longleftrightarrow> message_address (ref_address r) \<and> control_ref p r"

definition covers :: "('l, 'v, 'f) world \<Rightarrow> ref multiset \<Rightarrow> bool" where
  "covers p R \<longleftrightarrow> (\<forall>r \<in># R. live_ref p r) \<and> unique_refs R"

text \<open>
  \<open>D\<close> is what the kernel has delivered so far, but for the completions of the multishot accept, of
  which there is no fixed number.
\<close>

definition outstanding :: "nat \<Rightarrow> ref multiset \<Rightarrow> ('l, 'v, 'f) world \<Rightarrow> ref multiset" where
  "outstanding n D p = ledger n (env p) - D + queued n (env p)"

definition accounted_for :: "nat \<Rightarrow> ref multiset \<Rightarrow> ('l, 'v, 'f) world \<Rightarrow> bool" where
  "accounted_for n D p \<longleftrightarrow> D \<subseteq># ledger n (env p) \<and> TokenRef multishot_token \<notin># D \<and>
     covers p (outstanding n D p)"

lemma live_ref_obj: "live_ref p r \<Longrightarrow> \<exists>ob. objs p (ref_address r) = Some ob"
  by (cases r) auto

lemma live_ref_lt: "live_ref p r \<Longrightarrow> bounded p \<Longrightarrow> ref_address r < fresh p"
  using live_ref_obj bounded_obj by blast

lemma live_event: "live_ref p (cqe_ref c) \<Longrightarrow> event_ok p c"
  by (auto simp: event_ok_def cqe_ref_def waiting_def split: if_splits)

lemma null_event: "cqe_ref c = TokenRef nullptr \<Longrightarrow> event_ok p c"
  by (auto simp: event_ok_def cqe_ref_def split: if_splits)

lemma covers_subset: "covers p R \<Longrightarrow> R' \<subseteq># R \<Longrightarrow> covers p R'"
  unfolding covers_def by (meson mset_subset_eqD unique_refs_subset)

lemma live_ref_step:
  assumes "live_ref p r" and "objs p' (ref_address r) = objs p (ref_address r)"
    and "\<And>q a. r = TokenRef a \<Longrightarrow> waiting p q a \<Longrightarrow> waiting p' q a"
    and "\<And>q. in_range p q \<Longrightarrow> in_range p' q"
  shows "live_ref p' r"
proof (cases r)
  case (TokenRef a)
  then show ?thesis using assms by auto
qed (use assms in auto)

lemma bounded_not_null: "bounded p \<Longrightarrow> fresh p \<le> a \<Longrightarrow> message_address a"
  by (auto simp: bounded_def message_address_def multishot_token_def nullptr_def)

lemma control_live: "control_ref p r \<Longrightarrow> message_address (ref_address r) \<Longrightarrow> live_ref p r"
  by (cases r) (auto simp: message_address_def)

lemma waiting_adds:
  assumes "adds n p p'" and "bounded p" and "waiting p q a"
  shows "waiting p' q a"
proof -
  obtain h f l where h: "awaiting_handle (task_at p q) = Some h" "frames p h = Some f" "costate f = Suspended l (AwToken a)"
    and q: "in_range p q" "valid (task_at p q)" "pending (task_at p q)"
    using assms(3) by (auto simp: waiting_def)
  have "rel_option alike (frames p h) (frames p' h)"
    by (rule addsD(5) [OF assms(1) bounded_frame [OF assms(2) h(2)]])
  then obtain f' where "frames p' h = Some f'" "costate f' = costate f" using h(2) by (cases "frames p' h") (auto simp: alike_def)
  then show ?thesis using h q addsD(3,4) [OF assms(1) q(1)] by (auto simp: waiting_def)
qed

lemma live_ref_adds:
  assumes "adds n p p'" and "bounded p" and "live_ref p r"
  shows "live_ref p' r"
proof (rule live_ref_step [OF assms(3)])
  show "objs p' (ref_address r) = objs p (ref_address r)" by (rule addsD(2) [OF assms(1) live_ref_lt [OF assms(3,2)]])
  show "waiting p' q a" if "waiting p q a" for q a by (rule waiting_adds [OF assms(1,2) that])
  show "in_range p' q" if "in_range p q" for q by (rule addsD(3) [OF assms(1) that])
qed

lemma covers_adds:
  assumes A: "adds n p p'" and b: "bounded p" and R: "covers p R" and X: "ledger n (env p') = ledger n (env p) + X"
  shows "covers p' (R + X)"
proof -
  obtain X' where X': "ledger n (env p') = ledger n (env p) + X'" "unique_refs X'"
    "\<forall>r \<in># X'. fresh p \<le> ref_address r \<and> ref_address r < fresh p' \<and> control_ref p' r"
    by (rule addsE [OF A])
  then have e: "X' = X" using X by simp
  have "live_ref p' r" if "r \<in># X" for r
    using X'(3) that e bounded_not_null [OF b] by (intro control_live) auto
  moreover have "live_ref p' r" if "r \<in># R" for r
    using R that live_ref_adds [OF A b] by (simp add: covers_def)
  moreover have "unique_refs (R + X)"
  proof (rule unique_refs_union)
    show "ref_address x \<noteq> ref_address y" if "x \<in># R" "y \<in># X" for x y
      using R that X'(3) e live_ref_lt [OF _ b, of x] by (fastforce simp: covers_def)
  qed (use R X' e in \<open>auto simp: covers_def\<close>)
  ultimately show ?thesis by (auto simp: covers_def)
qed

lemma ledger_grows: "D \<subseteq># ledger n s \<Longrightarrow> ledger n s' = ledger n s + X \<Longrightarrow> D \<subseteq># ledger n s'"
  by (metis mset_subset_eq_add_left subset_mset.order_trans)

lemma outstanding_grows:
  assumes D: "D \<subseteq># ledger n (env p)" and g: "env_gains n X (env p) (env p')"
  shows "outstanding n D p' = outstanding n D p + X"
proof -
  obtain Y where Y: "ledger n (env p) = D + Y" using D by (auto simp: mset_subset_eq_exists_conv)
  have "ledger n (env p') = D + (Y + X)" using g Y by (simp add: env_gains_def ac_simps)
  then have "ledger n (env p') - D = Y + X" "ledger n (env p) - D = Y" using Y by simp_all
  then show ?thesis using g unfolding outstanding_def env_gains_def by (simp only: ac_simps)
qed

lemma accounted_adds:
  assumes A: "adds n p p'" and b: "bounded p" and R: "accounted_for n D p"
  shows "accounted_for n D p'"
proof -
  obtain X where X: "ledger n (env p') = ledger n (env p) + X" by (rule addsE [OF A])
  have D: "D \<subseteq># ledger n (env p)" using R by (simp add: accounted_for_def)
  have "outstanding n D p' = outstanding n D p + X"
    by (rule outstanding_grows [OF D]) (simp add: env_gains_def X addsD(7) [OF A])
  then show ?thesis using R covers_adds [OF A b _ X] ledger_grows [OF D X] by (simp add: accounted_for_def)
qed

text \<open>A step that changes neither the rings nor an object with an outstanding reference.\<close>

lemma accounted_same:
  assumes R: "accounted_for n D p" and "env p' = env p"
    and "\<And>r. r \<in># outstanding n D p \<Longrightarrow> live_ref p r \<Longrightarrow> live_ref p' r"
  shows "accounted_for n D p'"
proof -
  have "outstanding n D p' = outstanding n D p" using assms(2) by (simp only: outstanding_def)
  then show ?thesis using assms unfolding accounted_for_def covers_def by simp
qed

text \<open>A step that queues one more entry.\<close>

lemma accounted_more:
  assumes R: "accounted_for n D p" and g: "env_gains n {#r#} (env p) (env p')" and r: "live_ref p' r"
    and new: "\<And>x. x \<in># outstanding n D p \<Longrightarrow> live_ref p x \<Longrightarrow> live_ref p' x"
    and u: "\<And>x. x \<in># outstanding n D p \<Longrightarrow> live_ref p x \<Longrightarrow> message_address (ref_address r) \<Longrightarrow> ref_address x \<noteq> ref_address r"
  shows "accounted_for n D p'"
proof -
  have D: "D \<subseteq># ledger n (env p)" using R by (simp add: accounted_for_def)
  have X: "ledger n (env p') = ledger n (env p) + {#r#}" "queued n (env p') = queued n (env p)"
    using g by (simp_all only: env_gains_def)
  have o: "outstanding n D p' = outstanding n D p + {#r#}" by (rule outstanding_grows [OF D g])
  have "unique_refs (outstanding n D p + {#r#})"
    by (rule unique_refs_union) (use R u in \<open>auto simp: accounted_for_def covers_def\<close>)
  then show ?thesis
    using R r new ledger_grows [OF D X(1)] unfolding accounted_for_def o covers_def by auto
qed

section \<open>Other tasks\<close>

lemma waiting_untouched:
  assumes O: "others S (Some ptr) p" and U: "untouched S S' ptr p p'" and q: "q \<noteq> ptr" and w: "waiting p q a"
  shows "waiting p' q a"
proof -
  have r: "in_range p q" and v: "valid (task_at p q)" using w by (auto simp: waiting_def)
  have "at_rest (frames p) (objs p) (S q) q (task_at p q)" by (rule others_at_rest [OF O r]) (use q in simp)
  then have "awaiting_handle (task_at p q) = Some (last (S q))" "S q \<noteq> []" using v by (auto simp: at_rest_def)
  then have "\<And>h. awaiting_handle (task_at p q) = Some h \<Longrightarrow> h \<in> set (S q)" by auto
  then show ?thesis using w U r q unfolding waiting_def untouched_def by metis
qed

lemma live_untouched:
  assumes O: "others S (Some ptr) p" and U: "untouched S S' ptr p p'" and np: "\<not> pending (task_at p ptr)"
    and L: "live_ref p r" and ob: "objs p' (ref_address r) = objs p (ref_address r)"
  shows "live_ref p' r"
proof (rule live_ref_step [OF L ob])
  show "waiting p' q a" if "waiting p q a" for q a
    using waiting_untouched [OF O U _ that] np that by (auto simp: waiting_def)
  show "in_range p' q" if "in_range p q" for q using U that unfolding untouched_def by blast
qed

end
