(* ===== verification/Machine_Runs.thy ===== *)
theory Machine_Runs
  imports Task_Loop
begin

text \<open>
  Properties that every transfer of control keeps hold after a resume and after a pass of the task
  loop: the induction rules for runs that end without a fault.
\<close>

lemma run_ctl_keeps:
  assumes ret: "run_ctl code t c p = Some (Inr p')" and Q: "Q c p"
    and step: "\<And>c p c1 p1. Q c p \<Longrightarrow> c \<noteq> Back \<Longrightarrow> cstep code t c p = Inr (c1, p1) \<Longrightarrow> Q c1 p1"
  shows "Q Back p'"
proof -
  let ?P = "\<lambda>code' t' c p (r :: _ res). code' = code \<longrightarrow> t' = t \<longrightarrow> Q c p \<longrightarrow> (\<forall>p'. r = Inr p' \<longrightarrow> Q Back p')"
  have "?P code t c p (Inr p')"
  proof (rule run_ctl.raw_induct [where P = ?P, OF _ ret], intro impI allI)
    fix f code' t' c p r p'
    assume IH: "\<And>code' t' c p r. f code' t' c p = Some r \<Longrightarrow> ?P code' t' c p r"
      and eq: "(case c of Back \<Rightarrow> Some (Inr p)
        | _ \<Rightarrow> (case cstep code' t' c p of Inl e \<Rightarrow> Some (Inl e)
                | Inr cp \<Rightarrow> f code' t' (fst cp) (snd cp))) = Some r"
      and co: "code' = code" "t' = t" and q: "Q c p" and r: "r = Inr p'"
    show "Q Back p'"
    proof (cases "c = Back")
      case True
      then show ?thesis using eq q r by simp
    next
      case False
      then obtain c1 p1 where 1: "cstep code t c p = Inr (c1, p1)" "f code t c1 p1 = Some (Inr p')"
        using eq co r by (cases c) (auto split: sum.splits)
      show ?thesis using IH [OF 1(2)] step [OF q False 1(1)] by simp
    qed
  qed
  then show ?thesis using Q by simp
qed

lemma TaskLoop_run_from_keeps:
  assumes ret: "TaskLoop_run_from code t i p = Some (Inr p')" and Q: "Q p"
    and step: "\<And>i p p1. Q p \<Longrightarrow> i < length (loops p t) \<Longrightarrow> runnable (loops p t ! i) \<Longrightarrow>
      ScheduledTask_resume code (t, i) p = Some (Inr p1) \<Longrightarrow> Q p1"
  shows "Q p'"
proof -
  let ?P = "\<lambda>code' t' i p (r :: _ res). code' = code \<longrightarrow> t' = t \<longrightarrow> Q p \<longrightarrow> (\<forall>p'. r = Inr p' \<longrightarrow> Q p')"
  have "?P code t i p (Inr p')"
  proof (rule TaskLoop_run_from.raw_induct [where P = ?P, OF _ ret], intro impI allI)
    fix f code' t' i p r p'
    assume IH: "\<And>code' t' i p r. f code' t' i p = Some r \<Longrightarrow> ?P code' t' i p r"
      and eq: "(if i < length (loops p t')
        then (case (if runnable (loops p t' ! i) then ScheduledTask_resume code' (t', i) p else Some (Inr p)) of
                None \<Rightarrow> None
              | Some r \<Rightarrow> (case r of Inl e \<Rightarrow> Some (Inl e) | Inr p1 \<Rightarrow> f code' t' (Suc i) p1))
        else Some (Inr p)) = Some r"
      and co: "code' = code" "t' = t" and q: "Q p" and r: "r = Inr p'"
    show "Q p'"
    proof (cases "i < length (loops p t)")
      case False
      then show ?thesis using eq q r co by simp
    next
      case True
      then obtain p1 where 1: "(if runnable (loops p t ! i) then ScheduledTask_resume code (t, i) p else Some (Inr p)) = Some (Inr p1)"
        and 2: "f code t (Suc i) p1 = Some (Inr p')"
        using eq co r by (auto split: option.splits sum.splits)
      have "Q p1" using 1 q step [OF q True] by (auto split: if_splits)
      then show ?thesis using IH [OF 2] by simp
    qed
  qed
  then show ?thesis using Q by simp
qed

text \<open>A property of the process that transfers of control keep survives a pass.\<close>

lemma TaskLoop_run_keeps:
  assumes ret: "TaskLoop_run code t p = Some (Inr p')" and Q: "Q p"
    and enter: "\<And>i p h. Q p \<Longrightarrow> i < length (loops p t) \<Longrightarrow> awaiting_handle (loops p t ! i) = Some h \<Longrightarrow> Q' (Enter h) p"
    and step: "\<And>c p c1 p1. Q' c p \<Longrightarrow> c \<noteq> Back \<Longrightarrow> cstep code t c p = Inr (c1, p1) \<Longrightarrow> Q' c1 p1"
    and leave: "\<And>p ptr p1. Q' Back p \<Longrightarrow> after_resume ptr p = Inr p1 \<Longrightarrow> Q p1"
  shows "Q p'"
proof (rule TaskLoop_run_from_keeps [where Q = Q, OF ret [unfolded TaskLoop_run_def] Q])
  fix i p p1
  assume q: "Q p" "i < length (loops p t)" "ScheduledTask_resume code (t, i) p = Some (Inr p1)"
  then obtain h p2 where h: "awaiting_handle (loops p t ! i) = Some h"
    and p2: "run_ctl code t (Enter h) p = Some (Inr p2)" "after_resume (t, i) p2 = Inr p1"
    by (auto simp: ScheduledTask_resume_def split: option.splits sum.splits)
  have "Q' Back p2" by (rule run_ctl_keeps [where Q = Q', OF p2(1) enter [OF q(1,2) h] step])
  then show "Q p1" by (rule leave [OF _ p2(2)])
qed

section \<open>Relations between environments\<close>

text \<open>
  A relation that every effect of the code on the environment satisfies: the transfers of control
  themselves do not touch the environment.
\<close>

locale env_steps =
  fixes code :: "('l, 'v, 'f, 's) code" and t :: nat and R :: "'s \<Rightarrow> 's \<Rightarrow> bool"
  assumes R_refl: "R s s"
    and R_trans: "R s s' \<Longrightarrow> R s' s'' \<Longrightarrow> R s s''"
    and R_uring: "code l inp = CoAwaitUring op' pr k \<Longrightarrow> pr t a s = Inr s' \<Longrightarrow> R s s'"
    and R_mshot: "code l inp = CoAwaitMshot pr k \<Longrightarrow> pr t a s = Inr s' \<Longrightarrow> R s s'"
    and R_step: "code l inp = CoStep f k \<Longrightarrow> f t p = Inr (x, p') \<Longrightarrow> R (env p) (env p')"
begin

lemma upd_env:
  "upd_promise h g p = Inr p' \<Longrightarrow> env p' = env p" "set_costate h c p = Inr p' \<Longrightarrow> env p' = env p"
  "upd_task ptr u p = Inr p' \<Longrightarrow> env p' = env p"
  by (auto simp: upd_promise_def set_costate_def upd_task_def Let_def split: option.splits if_splits)

lemma await_resume_env: "await_resume w p = Inr (x, p') \<Longrightarrow> env p' = env p"
  by (cases w) (auto simp: await_resume_def TaskAwaier_await_resume_def UringAwaiter_await_resume_def
      bind_res_eq_Inr delete_obj_def split_beta dest!: upd_env)

lemma enter_env: "enter h p = Inr (c, p') \<Longrightarrow> env p' = env p"
  by (auto simp: enter_def bind_res_eq_Inr split: option.splits costate.splits
      dest!: upd_env await_resume_env)

lemma perform_env:
  assumes "perform t h (code l inp) p = Inr (c, p')"
  shows "R (env p) (env p')"
proof (cases "code l inp")
  case (CoReturn v)
  then show ?thesis using assms R_refl by (auto simp: perform_def finish_def bind_res_eq_Inr dest!: upd_env)
next
  case (CoThrow e)
  then show ?thesis using assms R_refl by (auto simp: perform_def finish_def bind_res_eq_Inr dest!: upd_env)
next
  case (CoAwaitTask g k)
  then show ?thesis using assms R_refl
    by (auto simp: perform_def create_coroutine_def TaskAwaier_await_suspend_def bind_res_eq_Inr dest!: upd_env)
next
  case (CoAwaitUring op' pr k)
  then show ?thesis using assms
    by (auto simp: perform_def UringAwaiter_ctor_def UringAwaiter_await_suspend_def alloc_obj_def bind_res_eq_Inr
        dest!: upd_env R_uring [OF CoAwaitUring])
next
  case (CoAwaitPending k)
  then show ?thesis using assms R_refl
    by (auto simp: perform_def PendingAwaiter_await_suspend_def bind_res_eq_Inr dest!: upd_env)
next
  case (CoAwaitMshot pr k)
  then show ?thesis using assms
    by (auto simp: perform_def MultishotAcceptDirectAwaiter_ctor_def MultishotAcceptDirectAwaiter_await_suspend_def
        bind_res_eq_Inr dest!: upd_env R_mshot [OF CoAwaitMshot])
next
  case (CoStep f k)
  then show ?thesis using assms by (auto simp: perform_def bind_res_eq_Inr dest!: R_step [OF CoStep])
qed

lemma pass_env:
  assumes "TaskLoop_run code t p = Some (Inr p')"
  shows "R (env p) (env p')"
proof (rule TaskLoop_run_keeps [where Q = "\<lambda>q. R (env p) (env q)" and Q' = "\<lambda>c q. R (env p) (env q)", OF assms R_refl])
  fix c q c1 q1
  assume "R (env p) (env q)" "c \<noteq> Back" "cstep code t c q = Inr (c1, q1)"
  then show "R (env p) (env q1)"
    by (cases c) (auto simp: cstep_def dest: enter_env perform_env R_trans)
next
  fix q ptr q1
  assume "R (env p) (env q)" "after_resume ptr q = Inr q1"
  then show "R (env p) (env q1)"
    by (auto simp: after_resume_def Let_def bind_res_eq_Inr split: if_splits dest: upd_env)
qed

end

end
