(* ===== verification/Ledger_Run.thy ===== *)
theory Ledger_Run
  imports Ledger_Machine Machine_Runs
begin

text \<open>
  What the coroutine bodies do for the ledger, as an interface: every operation that is awaited queues
  one entry with the address of its own token, plain code only adds references to new objects, and the
  coroutine that arms the multishot accept is always followed by the loop that serves it, because a
  completion of the multishot accept makes the armed task runnable whatever that task waits for.
\<close>

declare split_paired_All [simp del] split_paired_Ex [simp del]

section \<open>The interface\<close>

text \<open>
  The points of the code that matter for the multishot accept: where it is armed, where the arming
  coroutine goes on, where accepted descriptors are sent, and where the loop goes to wait.
\<close>

datatype role = Ordinary | Arming | Armed | Sending | Parking

definition ledger_prep :: "nat \<Rightarrow> (nat \<Rightarrow> address \<Rightarrow> sys_env \<Rightarrow> sys_env res) \<Rightarrow> bool" where
  "ledger_prep n pr \<longleftrightarrow> (\<forall>t a s s'. t \<le> n \<longrightarrow> pr t a s = Inr s' \<longrightarrow> env_gains n {#TokenRef a#} s s')"

definition ledger_step ::
  "nat \<Rightarrow> (nat \<Rightarrow> ('l, 'v, 'f) world \<Rightarrow> ('v resume_in \<times> ('l, 'v, 'f) world) res) \<Rightarrow> bool" where
  "ledger_step n f \<longleftrightarrow> (\<forall>t p x p'. t \<le> n \<longrightarrow> f t p = Inr (x, p') \<longrightarrow> adds n p p')"

definition accounted_action :: "nat \<Rightarrow> ('l \<Rightarrow> role) \<Rightarrow> 'l \<Rightarrow> ('l, 'v, 'f, sys_env) action \<Rightarrow> bool" where
  "accounted_action n role l act =
     (case act of
        CoAwaitTask g k \<Rightarrow> role k \<noteq> Arming \<and> (role g = Arming \<longrightarrow> role k = Sending)
      | CoAwaitUring op' pr k \<Rightarrow> role k \<noteq> Arming \<and> ledger_prep n pr
      | CoAwaitPending k \<Rightarrow> role k \<noteq> Arming
      | CoAwaitMshot pr k \<Rightarrow> role l = Arming \<and> role k = Armed \<and> ledger_prep n pr
      | CoStep f k \<Rightarrow> role k \<noteq> Arming \<and> ledger_step n f
      | _ \<Rightarrow> True)"

definition no_exn :: "'v resume_in \<Rightarrow> bool" where
  "no_exn inp \<longleftrightarrow> (\<forall>e. inp \<noteq> RExn e)"

lemma no_exn_simps [simp]: "no_exn RUnit" "no_exn RStart" "no_exn (RVal v)" "no_exn (RCqe r fl)" "\<not> no_exn (RExn e)"
  by (simp_all add: no_exn_def)

section \<open>The armed task\<close>

definition good_caller :: "('l \<Rightarrow> role) \<Rightarrow> ('l, 'v) frames \<Rightarrow> handle \<Rightarrow> ('l, 'v) frame \<Rightarrow> bool" where
  "good_caller role F h f \<longleftrightarrow>
     (\<forall>c. caller (promise f) = Some c \<longrightarrow> (\<exists>g l. F c = Some g \<and> costate g = Suspended l (AwTask h) \<and> role l = Sending))"

definition quiet :: "('l \<Rightarrow> role) \<Rightarrow> ('l, 'v) frames \<Rightarrow> handle \<Rightarrow> bool" where
  "quiet role F h \<longleftrightarrow> (\<exists>f l. F h = Some f \<and> costate f = Suspended l AwNothing \<and>
     (role l = Sending \<or> role l = Armed \<and> good_caller role F h f))"

definition armed_task :: "('l, 'v, 'f) world \<Rightarrow> task_ptr \<Rightarrow> bool" where
  "armed_task p q \<longleftrightarrow>
     (\<exists>tk. objs p multishot_token = Some (Token tk) \<and> tok_op tk = Op_MultishotAccept \<and> chain_task tk = Some q)"

definition armed_rest :: "('l \<Rightarrow> role) \<Rightarrow> ('l, 'v, 'f) world \<Rightarrow> task_ptr \<Rightarrow> bool" where
  "armed_rest role p q \<longleftrightarrow>
     (valid (task_at p q) \<longrightarrow> (\<exists>h. awaiting_handle (task_at p q) = Some h \<and> quiet role (frames p) h))"

definition root_done :: "('l, 'v, 'f) world \<Rightarrow> task_ptr \<Rightarrow> bool" where
  "root_done p q \<longleftrightarrow>
     (\<exists>h f. task_handle (sched_task (task_at p q)) = Some h \<and> frames p h = Some f \<and> costate f = AtFinal)"

definition armed_run :: "('l \<Rightarrow> role) \<Rightarrow> task_ptr \<Rightarrow> ('l, 'v) ctl \<Rightarrow> ('l, 'v, 'f) world \<Rightarrow> bool" where
  "armed_run role q c p =
     (case c of
        Enter h \<Rightarrow> quiet role (frames p) h \<or>
          (\<exists>f l x g. frames p h = Some f \<and> costate f = Suspended l (AwTask x) \<and> role l = Sending \<and> x \<noteq> h \<and>
             frames p x = Some g \<and> exn_ptr (promise g) = None)
      | Exec h l inp \<Rightarrow> no_exn inp \<and> (role l = Sending \<or> role l = Parking \<or> (role l = Armed \<and> inp = RUnit \<and>
          (\<exists>f. frames p h = Some f \<and> good_caller role (frames p) h f)))
      | Back \<Rightarrow> armed_rest role p q \<or> root_done p q)"

text \<open>
  A coroutine that is about to arm the multishot accept has been called by the loop that serves it, or
  is the root of its task.
\<close>

definition arming_ok :: "('l \<Rightarrow> role) \<Rightarrow> ('l, 'v) ctl \<Rightarrow> ('l, 'v, 'f) world \<Rightarrow> bool" where
  "arming_ok role c p \<longleftrightarrow>
     (\<forall>h f l w. frames p h = Some f \<longrightarrow> costate f = Suspended l w \<longrightarrow> role l = Arming \<longrightarrow>
        caller (promise f) = None \<or> (c = Enter h \<and> w = AwInitial \<and> good_caller role (frames p) h f)) \<and>
     (\<forall>h l inp. c = Exec h l inp \<longrightarrow> role l = Arming \<longrightarrow>
        (\<exists>f. frames p h = Some f \<and> good_caller role (frames p) h f))"

definition armed_ok :: "('l \<Rightarrow> role) \<Rightarrow> task_ptr \<Rightarrow> ('l, 'v) ctl \<Rightarrow> ('l, 'v, 'f) world \<Rightarrow> bool" where
  "armed_ok role ptr c p \<longleftrightarrow>
     (\<forall>q. armed_task p q \<longrightarrow> in_range p q \<and> (if q = ptr then armed_run role ptr c p else armed_rest role p q))"

definition ledger_run ::
  "nat \<Rightarrow> ref multiset \<Rightarrow> ('l \<Rightarrow> role) \<Rightarrow> chains \<Rightarrow> task_ptr \<Rightarrow> ('l, 'v) ctl \<Rightarrow> ('l, 'v, 'f) world \<Rightarrow> bool" where
  "ledger_run n D role S ptr c p \<longleftrightarrow>
     run_inv S ptr c p \<and> accounted_for n D p \<and>
     (pending (task_at p ptr) \<longrightarrow> c = Back \<and> \<not> root_done p ptr) \<and>
     arming_ok role c p \<and> armed_ok role ptr c p"

text \<open>Between two runs.\<close>

definition armed_safe :: "('l \<Rightarrow> role) \<Rightarrow> ('l, 'v, 'f) world \<Rightarrow> bool" where
  "armed_safe role p \<longleftrightarrow> arming_ok role Back p \<and> (\<forall>q. armed_task p q \<longrightarrow> in_range p q \<and> armed_rest role p q)"

definition ledger_inv :: "nat \<Rightarrow> ref multiset \<Rightarrow> ('l \<Rightarrow> role) \<Rightarrow> chains \<Rightarrow> ('l, 'v, 'f) world \<Rightarrow> bool" where
  "ledger_inv n D role S p \<longleftrightarrow>
     well_formed S p \<and> accounted_for n D p \<and> armed_safe role p"

section \<open>Frames that stay\<close>

lemma good_caller_cong:
  assumes "good_caller role F h f" and "caller (promise f') = caller (promise f)"
    and "\<And>c g l. F c = Some g \<Longrightarrow> costate g = Suspended l (AwTask h) \<Longrightarrow> \<exists>g'. F' c = Some g' \<and> costate g' = costate g"
  shows "good_caller role F' h f'"
  unfolding good_caller_def
proof (intro allI impI)
  fix c assume "caller (promise f') = Some c"
  then obtain g l where g: "F c = Some g" "costate g = Suspended l (AwTask h)" "role l = Sending"
    using assms(1,2) by (auto simp: good_caller_def)
  then show "\<exists>g l. F' c = Some g \<and> costate g = Suspended l (AwTask h) \<and> role l = Sending"
    using assms(3) [OF g(1,2)] by auto
qed

lemma quiet_adds:
  assumes A: "adds n p p'" and b: "bounded p" and q: "quiet role (frames p) h"
  shows "quiet role (frames p') h"
proof -
  have al: "\<exists>f'. frames p' c = Some f' \<and> alike f f'" if "frames p c = Some f" for c f
    using addsD(5) [OF A bounded_frame [OF b that]] that by (cases "frames p' c") auto
  obtain f l where f: "frames p h = Some f" "costate f = Suspended l AwNothing"
    "role l = Sending \<or> role l = Armed \<and> good_caller role (frames p) h f"
    using q by (auto simp: quiet_def)
  obtain f' where f': "frames p' h = Some f'" "alike f f'" using al [OF f(1)] by blast
  have "good_caller role (frames p') h f'" if "good_caller role (frames p) h f"
  proof (rule good_caller_cong [OF that])
    show "\<exists>g'. frames p' c = Some g' \<and> costate g' = costate g" if "frames p c = Some g" for c g
      using al [OF that] by (auto simp: alike_def)
  qed (use f' in \<open>simp add: alike_def\<close>)
  then show ?thesis using f f' by (auto simp: quiet_def alike_def)
qed

lemma armed_task_adds: "adds n p p' \<Longrightarrow> bounded p \<Longrightarrow> armed_task p' q \<Longrightarrow> armed_task p q"
  unfolding armed_task_def by (simp only: addsD(2) [OF _ multishot_lt_fresh])

lemma armed_rest_adds: "adds n p p' \<Longrightarrow> bounded p \<Longrightarrow> in_range p q \<Longrightarrow> armed_rest role p q \<Longrightarrow> armed_rest role p' q"
  using quiet_adds addsD(4) by (fastforce simp: armed_rest_def)

lemma armed_rest_untouched:
  assumes O: "others S (Some ptr) p" and U: "untouched S S' ptr p p'" and q: "q \<noteq> ptr" "in_range p q"
    and a: "armed_rest role p q"
  shows "armed_rest role p' q"
proof -
  have same: "task_at p' q = task_at p q" "\<And>h. h \<in> set (S q) \<Longrightarrow> frames p' h = frames p h"
    using U q unfolding untouched_def by blast+
  show ?thesis
    unfolding armed_rest_def same(1)
  proof
    assume v: "valid (task_at p q)"
    have r: "at_rest (frames p) (objs p) (S q) q (task_at p q)" by (rule others_at_rest [OF O q(2)]) (use q in simp)
    then have ne: "S q \<noteq> []" and l: "linked (frames p) q None (S q)" and h: "awaiting_handle (task_at p q) = Some (last (S q))"
      using v by (auto simp: at_rest_def)
    obtain f where f: "frames p (last (S q)) = Some f"
      "pr_ok q (if butlast (S q) = [] then None else Some (last (butlast (S q)))) (promise f)"
      using linked_last [OF l ne] .
    have cin: "c \<in> set (S q)" if "caller (promise f) = Some c" for c
    proof -
      have "butlast (S q) \<noteq> []" "c = last (butlast (S q))"
        using f(2) that by (auto simp: pr_ok_def split: if_splits)
      then show ?thesis by (metis in_set_butlastD last_in_set)
    qed
    have "quiet role (frames p) (last (S q))" using a v h by (simp add: armed_rest_def)
    then have "quiet role (frames p') (last (S q))"
      using same(2) ne f(1) cin unfolding quiet_def good_caller_def by (metis last_in_set option.inject)
    then show "\<exists>h. awaiting_handle (task_at p q) = Some h \<and> quiet role (frames p') h" using h by blast
  qed
qed

end
