(* ===== verification/Ledger_Keeps.thy ===== *)
theory Ledger_Keeps
  imports Ledger_Run
begin

text \<open>
  Every transfer of control keeps the account: what it queues refers to live objects, and what it frees
  nobody refers to. By the induction rules for runs the same holds for a resume and for a pass of the
  task loop.
\<close>

declare split_paired_All [simp del] split_paired_Ex [simp del]

section \<open>What a transfer of control does\<close>

definition entered :: "handle \<Rightarrow> ('l, 'v) frame \<Rightarrow> awaiter \<Rightarrow> ('l, 'v) frames \<Rightarrow> ('l, 'v) frames" where
  "entered h f w F = (case w of AwTask x \<Rightarrow> (F(h \<mapsto> f\<lparr>costate := Running\<rparr>))(x := None)
     | _ \<Rightarrow> F(h \<mapsto> f\<lparr>costate := Running\<rparr>))"

lemma enter_effect:
  assumes "enter h p = Inr (c', p')"
  obtains f l w inp where "frames p h = Some f" and "costate f = Suspended l w" and "c' = Exec h l inp"
    and "loops p' = loops p" and "env p' = env p" and "fresh p' = fresh p" and "frames p' = entered h f w (frames p)"
    and "objs p' = (case w of AwToken a \<Rightarrow> (objs p)(a := None) | _ \<Rightarrow> objs p)"
    and "w = AwNothing \<longrightarrow> inp = RUnit"
    and "\<forall>x. w = AwTask x \<longrightarrow> x \<noteq> h"
    and "\<forall>x g. w = AwTask x \<longrightarrow> frames p x = Some g \<longrightarrow> exn_ptr (promise g) = None \<longrightarrow> no_exn inp"
proof -
  obtain f l w where f: "frames p h = Some f" "costate f = Suspended l w"
    using assms by (auto simp: enter_def split: option.splits costate.splits)
  let ?p = "p\<lparr>frames := (frames p)(h \<mapsto> f\<lparr>costate := Running\<rparr>)\<rparr>"
  obtain inp where r: "await_resume w ?p = Inr (inp, p')" and c: "c' = Exec h l inp"
    using assms f by (auto simp: enter_def set_costate_eq bind_res_eq_Inr)
  show thesis
  proof (cases w)
    case AwInitial
    then show ?thesis using that [OF f c] r by (auto simp: await_resume_def entered_def)
  next
    case (AwTask x)
    obtain g where g: "frames ?p x = Some g"
      using r AwTask by (auto simp: await_resume_def TaskAwaier_await_resume_def promise_at_def bind_res_eq_Inr split: option.splits)
    obtain y pr where y: "promise_result (promise g) = Inr (y, pr)"
      and p': "p' = ?p\<lparr>frames := (frames ?p)(x := None)\<rparr>" and i: "inp = (case y of Inl e \<Rightarrow> RExn e | Inr v \<Rightarrow> RVal v)"
      using r AwTask g
      by (auto simp: await_resume_def TaskAwaier_await_resume_def frame_eqs Task_dtor_def destroy_frame_def
          bind_res_eq_Inr split: costate.splits)
    have "no_exn inp" if "exn_ptr (promise g) = None"
      using y i that by (auto simp: promise_result_def move_out_result_def split: option.splits)
    moreover have "x \<noteq> h"
      using r AwTask by (auto simp: await_resume_def TaskAwaier_await_resume_def frame_eqs Task_dtor_def destroy_frame_def
          bind_res_eq_Inr)
    ultimately have ne: "x \<noteq> h" "no_exn inp" if "frames p x = Some g'" "exn_ptr (promise g') = None" for g'
      using g that by simp_all
    show ?thesis by (rule that [OF f c]) (use AwTask p' ne \<open>x \<noteq> h\<close> in \<open>simp_all add: entered_def\<close>)
  next
    case (AwToken a)
    then show ?thesis using that [OF f c] r
      by (auto simp: await_resume_def entered_def UringAwaiter_await_resume_def delete_obj_def bind_res_eq_Inr)
  next
    case AwNothing
    then show ?thesis using that [OF f c] r by (auto simp: await_resume_def entered_def)
  qed
qed

lemma finish_effect:
  assumes "finish h g p = Inr (c', p')" and "frames p h = Some f"
  shows "p' = p\<lparr>frames := (frames p)(h \<mapsto> f\<lparr>promise := g (promise f), costate := AtFinal\<rparr>)\<rparr>"
    and "c' = (case caller (g (promise f)) of Some c \<Rightarrow> Enter c | None \<Rightarrow> Back)"
  using assms by (auto simp: finish_def frame_eqs bind_res_eq_Inr final_await_suspend_def split: option.splits)

lemma await_task_effect:
  assumes "perform t h (CoAwaitTask g k) p = Inr (c', p')" and "frames p h = Some f" and "h \<noteq> fresh p"
  shows "c' = Enter (fresh p)" and "loops p' = loops p" and "env p' = env p" and "objs p' = objs p"
    and "frames p' = (frames p)(h \<mapsto> f\<lparr>costate := Suspended k (AwTask (fresh p))\<rparr>,
      fresh p \<mapsto> \<lparr>promise = new_promise\<lparr>caller := Some h, this_chain_task := this_chain_task (promise f)\<rparr>,
        costate = Suspended g AwInitial\<rparr>)"
  using assms by (auto simp: perform_def create_coroutine_def TaskAwaier_await_suspend_def frame_eqs set_caller_def
      set_chain_root_def fun_upd_twist)

text \<open>The three awaiters that give control back: the frame is suspended and the task waits for it.\<close>

definition suspended_at ::
  "task_ptr \<Rightarrow> handle \<Rightarrow> ('l, 'v) frame \<Rightarrow> 'l \<Rightarrow> awaiter \<Rightarrow> ('l, 'v, 'f) world \<Rightarrow> ('l, 'v, 'f) world \<Rightarrow> bool" where
  "suspended_at ptr h f k w p p' \<longleftrightarrow>
     frames p' = (frames p)(h \<mapsto> f\<lparr>costate := Suspended k w\<rparr>) \<and>
     (\<forall>q. in_range p' q = in_range p q) \<and>
     sched_task (task_at p' ptr) = sched_task (task_at p ptr) \<and> valid (task_at p' ptr) = valid (task_at p ptr) \<and>
     awaiting_handle (task_at p' ptr) = Some h"

lemma task_at_upd:
  assumes "in_range p ptr"
  shows "task_at (p\<lparr>loops := (loops p)(fst ptr := (loops p (fst ptr))[snd ptr := st])\<rparr>) ptr = st"
    and "in_range (p\<lparr>loops := (loops p)(fst ptr := (loops p (fst ptr))[snd ptr := st])\<rparr>) q = in_range p q"
  using assms by (auto simp: task_at_def in_range_def)

lemma await_uring_effect:
  assumes e: "perform t h (CoAwaitUring op' pr k) p = Inr (c', p')" and f: "frames p h = Some f"
    and tc: "this_chain_task (promise f) = Some ptr" and r: "in_range p ptr"
  shows "c' = Back" and "suspended_at ptr h f k (AwToken (fresh p)) p p'" and "pending (task_at p' ptr)"
    and "pr t (fresh p) (env p) = Inr (env p')"
    and "objs p' = (objs p)(fresh p \<mapsto> Token (default_token\<lparr>tok_op := op', chain_task := Some ptr\<rparr>))"
  using e f tc r
  by (auto simp: perform_def UringAwaiter_ctor_def alloc_obj_def frame_eqs bind_res_eq_Inr UringAwaiter_await_suspend_def
      deref_task_def token_at_def upd_task_def in_range_def task_at_def suspended_at_def set_awaiting_handle_def
      set_pending_def Let_def split: if_splits)

lemma await_pending_effect:
  assumes e: "perform t h (CoAwaitPending k) p = Inr (c', p')" and f: "frames p h = Some f"
    and tc: "this_chain_task (promise f) = Some ptr" and r: "in_range p ptr"
  shows "c' = Back" and "suspended_at ptr h f k AwNothing p p'" and "env p' = env p" and "objs p' = objs p"
  using e f tc r
  by (auto simp: perform_def frame_eqs PendingAwaiter_await_suspend_def deref_task_def upd_task_def in_range_def
      task_at_def suspended_at_def set_awaiting_handle_def set_pending_def Let_def split: if_splits)

lemma await_mshot_effect:
  assumes e: "perform t h (CoAwaitMshot pr k) p = Inr (c', p')" and f: "frames p h = Some f"
    and tc: "this_chain_task (promise f) = Some ptr" and r: "in_range p ptr"
  obtains tk where "objs p multishot_token = Some (Token tk)" and "c' = Back" and "suspended_at ptr h f k AwNothing p p'"
    and "pr t multishot_token (env p) = Inr (env p')"
    and "objs p' = (objs p)(multishot_token \<mapsto> Token (tk\<lparr>tok_op := Op_MultishotAccept, chain_task := Some ptr\<rparr>))"
proof -
  obtain tk where tk: "objs p multishot_token = Some (Token tk)"
    using e by (auto simp: perform_def MultishotAcceptDirectAwaiter_ctor_def bind_res_eq_Inr token_at_def
        split: option.splits obj.splits)
  show thesis
    by (rule that [OF tk]; use e f tc r tk in
      \<open>cases ptr; auto simp: perform_def frame_eqs MultishotAcceptDirectAwaiter_await_suspend_def MultishotAcceptDirectAwaiter_ctor_def
        bind_res_eq_Inr deref_task_def token_at_def upd_task_def in_range_def task_at_def suspended_at_def
        set_awaiting_handle_def Let_def split: if_splits\<close>)
qed

section \<open>The arming coroutines\<close>

lemma good_caller_none [simp]: "caller (promise f) = None \<Longrightarrow> good_caller role F h f"
  by (simp add: good_caller_def)

lemma arming_okD:
  "arming_ok role c p \<Longrightarrow> frames p h = Some f \<Longrightarrow> costate f = Suspended l w \<Longrightarrow> role l = Arming \<Longrightarrow>
    caller (promise f) = None \<or> (c = Enter h \<and> w = AwInitial \<and> good_caller role (frames p) h f)"
  unfolding arming_ok_def by blast

lemma arming_enter:
  assumes e: "enter h p = Inr (c', p')" and A: "arming_ok role (Enter h) p"
  shows "arming_ok role c' p'"
proof -
  obtain f l w inp where f: "frames p h = Some f" "costate f = Suspended l w" and c: "c' = Exec h l inp"
    and F: "frames p' = entered h f w (frames p)" and ne: "\<forall>x. w = AwTask x \<longrightarrow> x \<noteq> h"
    using enter_effect [OF e] by metis
  have fh: "frames p' h = Some (f\<lparr>costate := Running\<rparr>)"
    using F ne by (auto simp: entered_def split: awaiter.splits)
  have "good_caller role (frames p') h (f\<lparr>costate := Running\<rparr>)" if l: "role l = Arming"
  proof (cases "caller (promise f)")
    case (Some k)
    then have w: "w = AwInitial" and g: "good_caller role (frames p) h f"
      using arming_okD [OF A f l] Some by auto
    show ?thesis by (rule good_caller_cong [OF g]) (use F w f in \<open>auto simp: entered_def\<close>)
  qed simp
  moreover have "caller (promise f') = None"
    if f': "frames p' h' = Some f'" "costate f' = Suspended l' w'" "role l' = Arming" for h' f' l' w'
  proof -
    have "h' \<noteq> h" using f' fh by auto
    then have "frames p h' = Some f'" using f'(1) F by (auto simp: entered_def split: awaiter.splits if_splits)
    then show ?thesis using arming_okD [OF A _ f'(2,3)] \<open>h' \<noteq> h\<close> by auto
  qed
  ultimately show ?thesis using c fh unfolding arming_ok_def by blast
qed

text \<open>A step that suspends or ends the running coroutine, and maybe makes a new one.\<close>

lemma arming_exec:
  assumes A: "arming_ok role (Exec h l inp) p" and c: "\<And>h' l inp. c' \<noteq> Exec h' l inp"
    and F: "\<And>h' f' l' w. frames p' h' = Some f' \<Longrightarrow> costate f' = Suspended l' w \<Longrightarrow> role l' = Arming \<Longrightarrow>
      frames p h' = Some f' \<or> c' = Enter h' \<and> w = AwInitial \<and> good_caller role (frames p') h' f'"
  shows "arming_ok role c' p'"
  using assms unfolding arming_ok_def by blast

lemma arming_adds:
  assumes A: "arming_ok role c p" "\<And>h. c \<noteq> Enter h" and s: "adds n p p'" and b: "bounded p"
    and f': "frames p' h' = Some f'" "costate f' = Suspended l' w" "role l' = Arming"
  shows "caller (promise f') = None"
proof -
  have old: "caller (promise f') = None" if "frames p g = Some f" "alike f f'" for g f
  proof -
    have "costate f = Suspended l' w" using that(2) f'(2) by (simp add: alike_def)
    from arming_okD [OF A(1) that(1) this f'(3)] A(2) show ?thesis using that(2) by (simp add: alike_def)
  qed
  show ?thesis
  proof (cases "h' < fresh p")
    case True
    then show ?thesis using addsD(5) [OF s True] f'(1) old by (cases "frames p h'") auto
  next
    case False
    then show ?thesis using addsD(6) [OF s _ f'(1)] old by fastforce
  qed
qed

lemma arming_step:
  assumes A: "arming_ok role (Exec h l inp) p" and s: "adds n p p'" and b: "bounded p" and k: "role k \<noteq> Arming"
  shows "arming_ok role (Exec h k x) p'"
  using arming_adds [OF A _ s b] k unfolding arming_ok_def by blast

lemma armed_safe_adds:
  assumes A: "armed_safe role p" and s: "adds n p p'" and b: "bounded p"
  shows "armed_safe role p'"
proof -
  have "arming_ok role Back p" using A by (simp add: armed_safe_def)
  from arming_adds [OF this _ s b] have "arming_ok role Back p'" unfolding arming_ok_def by blast
  moreover have "in_range p' q \<and> armed_rest role p' q" if "armed_task p' q" for q
    using armed_task_adds [OF s b that] A addsD(3) [OF s] armed_rest_adds [OF s b] by (simp add: armed_safe_def)
  ultimately show ?thesis by (simp add: armed_safe_def)
qed

section \<open>One transfer of control\<close>

lemma ledger_run_step:
  assumes I: "ledger_run n D role S ptr c p" and R: "run_inv S' ptr c' p'" and U: "untouched S S' ptr p p'"
    and acc: "accounted_for n D p'" and pend: "pending (task_at p' ptr) \<Longrightarrow> c' = Back \<and> \<not> root_done p' ptr"
    and arm: "arming_ok role c' p'"
    and keep: "\<And>q. q \<noteq> ptr \<Longrightarrow> armed_task p' q \<Longrightarrow> armed_task p q"
    and mine: "armed_task p' ptr \<Longrightarrow> armed_run role ptr c' p'"
  shows "ledger_run n D role S' ptr c' p'"
proof -
  have O: "others S (Some ptr) p" using I by (auto simp: ledger_run_def elim: run_invE)
  have r': "in_range p' ptr" using R by (auto elim: run_invE)
  have "in_range p' q \<and> (if q = ptr then armed_run role ptr c' p' else armed_rest role p' q)" if a: "armed_task p' q" for q
  proof (cases "q = ptr")
    case False
    then have "in_range p q" "armed_rest role p q"
      using keep [OF False a] I by (auto simp: ledger_run_def armed_ok_def)
    then show ?thesis using armed_rest_untouched [OF O U False] U False unfolding untouched_def by simp
  qed (use a mine r' in simp)
  then show ?thesis using R acc pend arm by (simp add: ledger_run_def armed_ok_def)
qed

lemma accounted_step:
  assumes I: "ledger_run n D role S ptr c p" and c: "c \<noteq> Back" and U: "untouched S S' ptr p p'"
    and e: "env p' = env p"
    and ob: "\<And>r. live_ref p r \<Longrightarrow> objs p' (ref_address r) = objs p (ref_address r)"
  shows "accounted_for n D p'"
proof (rule accounted_same)
  have O: "others S (Some ptr) p" using I by (auto simp: ledger_run_def elim: run_invE)
  have np: "\<not> pending (task_at p ptr)" using I c by (auto simp: ledger_run_def)
  show "live_ref p' r" if "live_ref p r" for r by (rule live_untouched [OF O U np that ob [OF that]])
qed (use I e in \<open>simp_all add: ledger_run_def\<close>)

lemma armed_task_objs: "objs p' multishot_token = objs p multishot_token \<Longrightarrow> armed_task p' q = armed_task p q"
  by (simp add: armed_task_def)

lemma quiet_not_token: "quiet role F h \<Longrightarrow> F h = Some f \<Longrightarrow> costate f = Suspended l w \<Longrightarrow> w = AwNothing"
  by (auto simp: quiet_def)

lemma enter_keeps:
  assumes I: "ledger_run n D role S ptr (Enter h) p" and e: "enter h p = Inr (c', p')"
    and R: "run_inv S' ptr c' p'" and U: "untouched S S' ptr p p'"
  shows "ledger_run n D role S' ptr c' p'"
proof -
  have run: "run_inv S ptr (Enter h) p" using I by (simp add: ledger_run_def)
  have np: "\<not> pending (task_at p ptr)" using I by (auto simp: ledger_run_def)
  obtain f l w inp where f: "frames p h = Some f" "costate f = Suspended l w" and c: "c' = Exec h l inp"
    and same: "loops p' = loops p" "env p' = env p" "fresh p' = fresh p" and F: "frames p' = entered h f w (frames p)"
    and H: "objs p' = (case w of AwToken a \<Rightarrow> (objs p)(a := None) | _ \<Rightarrow> objs p)"
    and i: "w = AwNothing \<longrightarrow> inp = RUnit" and ne: "\<forall>x. w = AwTask x \<longrightarrow> x \<noteq> h"
    and ex: "\<forall>x g. w = AwTask x \<longrightarrow> frames p x = Some g \<longrightarrow> exn_ptr (promise g) = None \<longrightarrow> no_exn inp"
    by (rule enter_effect [OF e])
  have tok: "a \<noteq> multishot_token \<and> (\<exists>tk. objs p a = Some (Token tk) \<and> chain_task tk = Some ptr \<and> default_op (tok_op tk))"
    if w: "w = AwToken a" for a
  proof -
    have "ctl_ok (S ptr) ptr (Enter h) p" using run by (rule run_invE)
    then consider "top_ok (frames p) (objs p) ptr h" | x where "returned (frames p) h x"
      unfolding ctl_ok_def ctl.case by blast
    then have "aw_ok (objs p) ptr w"
      by cases (use f w in \<open>auto simp: top_ok_def returned_def\<close>)
    then show ?thesis using w by (auto simp: aw_ok_def)
  qed
  show ?thesis
  proof (rule ledger_run_step [OF I R U])
    show "accounted_for n D p'"
    proof (rule accounted_step [OF I _ U same(2)])
      fix r assume r: "live_ref p r"
      have "ref_address r \<noteq> a" if a: "w = AwToken a" for a
      proof
        assume ra: "ref_address r = a"
        obtain tk where tk: "objs p a = Some (Token tk)" "chain_task tk = Some ptr" "default_op (tok_op tk)"
          using tok [OF a] by blast
        then have "waiting p ptr a" using r ra by (cases r) auto
        then show False using np by (simp add: waiting_def)
      qed
      then show "objs p' (ref_address r) = objs p (ref_address r)" using H by (auto split: awaiter.splits)
    qed simp
    show "arming_ok role c' p'" by (rule arming_enter [OF e]) (use I in \<open>simp add: ledger_run_def\<close>)
    have tk: "armed_task p' q = armed_task p q" for q
      by (rule armed_task_objs) (use H tok in \<open>auto split: awaiter.splits\<close>)
    then show "armed_task p q" if "armed_task p' q" for q using that by simp
    show "armed_run role ptr c' p'" if "armed_task p' ptr"
    proof -
      have A: "armed_run role ptr (Enter h) p" using I that tk by (auto simp: ledger_run_def armed_ok_def)
      show ?thesis
      proof (cases "quiet role (frames p) h")
        case True
        then have w: "w = AwNothing" using f by (auto simp: quiet_def)
        have "good_caller role (frames p') h (f\<lparr>costate := Running\<rparr>)" if "good_caller role (frames p) h f"
          by (rule good_caller_cong [OF that]) (use F w f in \<open>auto simp: entered_def\<close>)
        then show ?thesis using True f w mp [OF i w] c F by (auto simp: armed_run_def quiet_def entered_def)
      next
        case False
        then show ?thesis using A f ex c by (auto simp: armed_run_def)
      qed
    qed
    show "c' = Back \<and> \<not> root_done p' ptr" if "pending (task_at p' ptr)"
      using that np same by (simp add: task_at_def)
  qed
qed

end
