(* ===== verification/Ledger_Exec.thy ===== *)
theory Ledger_Exec
  imports Ledger_Keeps
begin

text \<open>
  What the bodies of the coroutines do, for the account: one lemma per action, and the interface of
  code whose every action keeps it.
\<close>

declare split_paired_All [simp del] split_paired_Ex [simp del]

lemma exec_not_pending: "ledger_run n D role S ptr (Exec h l inp) p \<Longrightarrow> \<not> pending (task_at p ptr)"
  by (auto simp: ledger_run_def)

lemma exec_armed: "ledger_run n D role S ptr (Exec h l inp) p \<Longrightarrow> armed_task p ptr \<Longrightarrow> armed_run role ptr (Exec h l inp) p"
  by (auto simp: ledger_run_def armed_ok_def)

section \<open>Actions that only change coroutines\<close>

lemma finish_keeps:
  assumes I: "ledger_run n D role S ptr (Exec h l inp) p" and e: "finish h g p = Inr (c', p')"
    and R: "run_inv S' ptr c' p'" and U: "untouched S S' ptr p p'"
    and g: "g = return_value v \<or> g = unhandled_exception x"
    and mine: "armed_task p ptr \<Longrightarrow> role l = Armed \<and> g = return_value v"
  shows "ledger_run n D role S' ptr c' p'"
proof -
  have run: "run_inv S ptr (Exec h l inp) p" using I by (simp add: ledger_run_def)
  obtain ys f where S: "S ptr = ys @ [h]" and f: "frames p h = Some f" "costate f = Running"
    and pr: "pr_ok ptr (if ys = [] then None else Some (last ys)) (promise f)"
    by (rule exec_facts [OF run])
  have sch: "task_handle (sched_task (task_at p ptr)) = Some (hd (S ptr))" using run by (rule run_invE)
  have same: "caller (g (promise f)) = caller (promise f)"
    using g by (auto simp: return_value_def unhandled_exception_def)
  note p' = finish_effect(1) [OF e f(1)] and c' = finish_effect(2) [OF e f(1), unfolded same]
  show ?thesis
  proof (rule ledger_run_step [OF I R U])
    show "accounted_for n D p'" by (rule accounted_step [OF I _ U]) (simp_all add: p')
    show "arming_ok role c' p'"
      by (rule arming_exec [of role h l inp p])
        (use I in \<open>auto simp: ledger_run_def c' p' split: option.splits if_splits\<close>)
    show "armed_run role ptr c' p'" if "armed_task p' ptr"
    proof -
      have a: "armed_task p ptr" using that by (simp add: armed_task_def p')
      note l = mine [OF a]
      show ?thesis
      proof (cases "caller (promise f)")
        case None
        then have "ys = []" using pr by (auto simp: pr_ok_def split: if_splits)
        then have "root_done p' ptr" using sch S by (simp add: root_done_def p' task_at_def)
        then show ?thesis using c' None by (simp add: armed_run_def)
      next
        case (Some k)
        obtain f' where "frames p h = Some f'" "good_caller role (frames p) h f'"
          using exec_armed [OF I a] l by (auto simp: armed_run_def)
        then obtain j m where j: "frames p k = Some j" "costate j = Suspended m (AwTask h)" "role m = Sending"
          using f Some by (auto simp: good_caller_def)
        have "k \<noteq> h" using j f by auto
        moreover have "exn_ptr (promise f) = None" using pr by (simp add: pr_ok_def)
        ultimately show ?thesis using j l c' Some by (auto simp: armed_run_def p' return_value_def)
      qed
    qed
  qed (use exec_not_pending [OF I] in \<open>auto simp: p' task_at_def armed_task_def\<close>)
qed

lemma await_task_keeps:
  assumes I: "ledger_run n D role S ptr (Exec h l inp) p" and e: "perform t h (CoAwaitTask g k) p = Inr (c', p')"
    and R: "run_inv S' ptr c' p'" and U: "untouched S S' ptr p p'"
    and k: "role k \<noteq> Arming" "role g = Arming \<Longrightarrow> role k = Sending" and mine: "\<not> armed_task p ptr"
  shows "ledger_run n D role S' ptr c' p'"
proof -
  have run: "run_inv S ptr (Exec h l inp) p" using I by (simp add: ledger_run_def)
  obtain ys f where f: "frames p h = Some f" "costate f = Running" and b: "bounded p"
    by (rule exec_facts [OF run])
  have hf: "h \<noteq> fresh p" using bounded_frame [OF b f(1)] by simp
  note p' = await_task_effect [OF e f(1) hf]
  have t: "task_at p' q = task_at p q" for q by (simp add: task_at_def p')
  show ?thesis
  proof (rule ledger_run_step [OF I R U])
    show "accounted_for n D p'" by (rule accounted_step [OF I _ U]) (simp_all add: p')
    show "arming_ok role c' p'"
      by (rule arming_exec [of role h l inp p])
        (use I k hf in \<open>auto simp: ledger_run_def p' good_caller_def split: if_splits\<close>)
  qed (use exec_not_pending [OF I] mine in \<open>auto simp: t armed_task_def p'\<close>)
qed

section \<open>Actions that wait\<close>

lemma suspended_root:
  assumes run: "run_inv S ptr (Exec h l inp) p" and f: "frames p h = Some f" and s: "suspended_at ptr h f k w p p'"
  shows "\<not> root_done p' ptr"
proof -
  obtain ys where S: "S ptr = ys @ [h]" and d: "distinct (ys @ [h])" and L: "linked (frames p) ptr None (ys @ [h])"
    by (rule exec_facts [OF run])
  have sch: "task_handle (sched_task (task_at p' ptr)) = Some (hd (ys @ [h]))"
    using run s S by (auto simp: suspended_at_def elim: run_invE)
  show ?thesis
  proof (cases ys)
    case Nil
    then show ?thesis using sch s by (simp add: root_done_def suspended_at_def)
  next
    case (Cons a zs)
    then have "a \<noteq> h" using d by auto
    moreover have "\<exists>j m x. frames p a = Some j \<and> costate j = Suspended m (AwTask x)"
      using L Cons by (cases zs) auto
    ultimately show ?thesis using sch s Cons by (auto simp: root_done_def suspended_at_def)
  qed
qed

lemma arming_suspended:
  assumes "arming_ok role (Exec h l inp) p" and "suspended_at ptr h f k w p p'" and "role k \<noteq> Arming"
  shows "arming_ok role Back p'"
  by (rule arming_exec [OF assms(1)]) (use assms(2,3) in \<open>auto simp: suspended_at_def split: if_splits\<close>)

lemma suspended_keeps:
  assumes I: "ledger_run n D role S ptr (Exec h l inp) p" and f: "frames p h = Some f"
    and s: "suspended_at ptr h f k w p p'" and R: "run_inv S' ptr Back p'" and U: "untouched S S' ptr p p'"
    and k: "role k \<noteq> Arming" and acc: "accounted_for n D p'"
    and keep: "\<And>q. q \<noteq> ptr \<Longrightarrow> armed_task p' q \<Longrightarrow> armed_task p q"
    and mine: "armed_task p' ptr \<Longrightarrow> quiet role (frames p') h"
  shows "ledger_run n D role S' ptr Back p'"
proof (rule ledger_run_step [OF I R U acc _ _ keep])
  have run: "run_inv S ptr (Exec h l inp) p" using I by (simp add: ledger_run_def)
  show "Back = Back \<and> \<not> root_done p' ptr" using suspended_root [OF run f s] by simp
  have "arming_ok role (Exec h l inp) p" using I by (simp add: ledger_run_def)
  from arming_suspended [OF this s k] show "arming_ok role Back p'" .
  show "armed_run role ptr Back p'" if "armed_task p' ptr"
    using mine [OF that] s by (simp add: armed_run_def armed_rest_def suspended_at_def)
qed

lemma await_uring_keeps:
  assumes I: "ledger_run n D role S ptr (Exec h l inp) p" and e: "perform t h (CoAwaitUring op' pr k) p = Inr (c', p')"
    and R: "run_inv S' ptr c' p'" and U: "untouched S S' ptr p p'"
    and k: "role k \<noteq> Arming" and pr: "ledger_prep n pr" and t: "t \<le> n" and op': "default_op op'"
    and mine: "\<not> armed_task p ptr"
  shows "ledger_run n D role S' ptr c' p'"
proof -
  have run: "run_inv S ptr (Exec h l inp) p" using I by (simp add: ledger_run_def)
  obtain ys f where f: "frames p h = Some f" "costate f = Running" and b: "bounded p" and r: "in_range p ptr"
    and pk: "pr_ok ptr (if ys = [] then None else Some (last ys)) (promise f)"
    by (rule exec_facts [OF run])
  have tc: "this_chain_task (promise f) = Some ptr" using pk by (simp add: pr_ok_def)
  have O: "others S (Some ptr) p" and v: "valid (task_at p ptr)" using run by (auto elim: run_invE)
  note p' = await_uring_effect [OF e f(1) tc r]
  let ?a = "fresh p"
  have m: "message_address ?a" by (rule bounded_not_null [OF b]) simp
  have g: "env_gains n {#TokenRef ?a#} (env p) (env p')"
    using pr p'(4) t unfolding ledger_prep_def by blast
  have w: "waiting p' ptr ?a" using p'(2,3) r v by (auto simp: waiting_def suspended_at_def)
  have acc: "accounted_for n D p'"
  proof (rule accounted_more [OF _ g])
    show "live_ref p' (TokenRef ?a)"
      using w m op' by (auto simp: p'(5) message_address_def default_op_def)
    show "live_ref p' x" if "live_ref p x" for x
      by (rule live_untouched [OF O U exec_not_pending [OF I] that]) (use live_ref_lt [OF that b] in \<open>simp add: p'(5)\<close>)
    show "ref_address x \<noteq> ref_address (TokenRef ?a)" if "live_ref p x" for x
      using live_ref_lt [OF that b] by simp
  qed (use I in \<open>simp add: ledger_run_def\<close>)
  have at: "armed_task p' q = armed_task p q" for q
    by (rule armed_task_objs) (use multishot_lt_fresh [OF b] in \<open>simp add: p'(5)\<close>)
  show ?thesis unfolding p'(1)
    by (rule suspended_keeps [OF I f(1) p'(2) _ U k acc]) (use R at mine in \<open>simp_all add: p'(1)\<close>)
qed

lemma await_pending_keeps:
  assumes I: "ledger_run n D role S ptr (Exec h l inp) p" and e: "perform t h (CoAwaitPending k) p = Inr (c', p')"
    and R: "run_inv S' ptr c' p'" and U: "untouched S S' ptr p p'"
    and k: "role k \<noteq> Arming" and mine: "armed_task p ptr \<Longrightarrow> role k = Sending"
  shows "ledger_run n D role S' ptr c' p'"
proof -
  have run: "run_inv S ptr (Exec h l inp) p" using I by (simp add: ledger_run_def)
  obtain ys f where f: "frames p h = Some f" "costate f = Running" and b: "bounded p" and r: "in_range p ptr"
    and pk: "pr_ok ptr (if ys = [] then None else Some (last ys)) (promise f)"
    by (rule exec_facts [OF run])
  have tc: "this_chain_task (promise f) = Some ptr" using pk by (simp add: pr_ok_def)
  note p' = await_pending_effect [OF e f(1) tc r]
  have acc: "accounted_for n D p'" by (rule accounted_step [OF I _ U]) (simp_all add: p')
  have at: "armed_task p' q = armed_task p q" for q by (rule armed_task_objs) (simp add: p')
  have "quiet role (frames p') h" if "role k = Sending"
    using p'(2) that by (simp add: quiet_def suspended_at_def)
  then show ?thesis unfolding p'(1)
    by (intro suspended_keeps [OF I f(1) p'(2) _ U k acc]) (use R at mine in \<open>simp_all add: p'(1)\<close>)
qed

lemma await_mshot_keeps:
  assumes I: "ledger_run n D role S ptr (Exec h l inp) p" and e: "perform t h (CoAwaitMshot pr k) p = Inr (c', p')"
    and R: "run_inv S' ptr c' p'" and U: "untouched S S' ptr p p'"
    and l: "role l = Arming" "role k = Armed" and pr: "ledger_prep n pr" and t: "t \<le> n"
  shows "ledger_run n D role S' ptr c' p'"
proof -
  have run: "run_inv S ptr (Exec h l inp) p" using I by (simp add: ledger_run_def)
  obtain ys f where f: "frames p h = Some f" "costate f = Running" and b: "bounded p" and r: "in_range p ptr"
    and pk: "pr_ok ptr (if ys = [] then None else Some (last ys)) (promise f)"
    by (rule exec_facts [OF run])
  have tc: "this_chain_task (promise f) = Some ptr" using pk by (simp add: pr_ok_def)
  have O: "others S (Some ptr) p" using run by (auto elim: run_invE)
  obtain tk where p': "c' = Back" "suspended_at ptr h f k AwNothing p p'" "pr t multishot_token (env p) = Inr (env p')"
    "objs p' = (objs p)(multishot_token \<mapsto> Token (tk\<lparr>tok_op := Op_MultishotAccept, chain_task := Some ptr\<rparr>))"
    by (rule await_mshot_effect [OF e f(1) tc r])
  have g: "env_gains n {#TokenRef multishot_token#} (env p) (env p')"
    using pr p'(3) t unfolding ledger_prep_def by blast
  have new: "live_ref p' (TokenRef multishot_token)"
    using p'(2) r by (auto simp: p'(4) suspended_at_def multishot_token_def nullptr_def default_op_def)
  have acc: "accounted_for n D p'"
  proof (rule accounted_more [OF _ g new])
    show "live_ref p' x" if x: "live_ref p x" for x
    proof (cases "ref_address x = multishot_token")
      case True
      then have "x = TokenRef multishot_token" using x by (cases x) (auto simp: message_address_def)
      then show ?thesis using new by simp
    next
      case False
      show ?thesis
        by (rule live_untouched [OF O U exec_not_pending [OF I] x]) (use False in \<open>simp add: p'(4)\<close>)
    qed
  qed (use I in \<open>simp_all add: ledger_run_def message_address_def\<close>)
  obtain f' where f': "frames p h = Some f'" "good_caller role (frames p) h f'"
    using I l by (auto simp: ledger_run_def arming_ok_def)
  have "good_caller role (frames p') h (f\<lparr>costate := Suspended k AwNothing\<rparr>)"
    by (rule good_caller_cong [OF f'(2)]) (use f f' p'(2) in \<open>auto simp: suspended_at_def\<close>)
  then have q: "quiet role (frames p') h" using p'(2) l by (simp add: quiet_def suspended_at_def)
  have k: "role k \<noteq> Arming" using l by simp
  show ?thesis unfolding p'(1)
    by (rule suspended_keeps [OF I f(1) p'(2) _ U k acc]) (use R q p'(1,4) in \<open>auto simp: armed_task_def\<close>)
qed

lemma co_step_keeps:
  assumes I: "ledger_run n D role S ptr (Exec h l inp) p" and e: "f t p = Inr (x, p')"
    and R: "run_inv S' ptr (Exec h k x) p'" and U: "untouched S S' ptr p p'"
    and k: "role k \<noteq> Arming" and sf: "ledger_step n f" and t: "t \<le> n"
    and mine: "armed_task p ptr \<Longrightarrow> role k = Parking \<and> no_exn x"
  shows "ledger_run n D role S' ptr (Exec h k x) p'"
proof -
  have run: "run_inv S ptr (Exec h l inp) p" using I by (simp add: ledger_run_def)
  have b: "bounded p" and r: "in_range p ptr" by (rule exec_facts [OF run], assumption)+
  have A: "adds n p p'" using sf e t unfolding ledger_step_def by blast
  show ?thesis
  proof (rule ledger_run_step [OF I R U])
    show "accounted_for n D p'" by (rule accounted_adds [OF A b]) (use I in \<open>simp add: ledger_run_def\<close>)
    have "arming_ok role (Exec h l inp) p" using I by (simp add: ledger_run_def)
    from arming_step [OF this A b k] show "arming_ok role (Exec h k x) p'" .
    show "armed_task p q" if "armed_task p' q" for q by (rule armed_task_adds [OF A b that])
    show "armed_run role ptr (Exec h k x) p'" if "armed_task p' ptr"
      using mine [OF armed_task_adds [OF A b that]] by (simp add: armed_run_def)
  qed (use exec_not_pending [OF I] addsD(4) [OF A r] in simp)
qed

section \<open>The end of a resume\<close>

lemma after_resume_effect:
  assumes "after_resume ptr p = Inr p'" and r: "in_range p ptr"
  shows "frames p' = frames p" and "objs p' = objs p" and "env p' = env p" and "in_range p' q = in_range p q"
    and "task_at p' q = (if q = ptr \<and> root_done p ptr then (task_at p ptr)\<lparr>valid := False\<rparr> else task_at p q)"
proof -
  have t: "loops p (fst ptr) ! snd ptr = task_at p ptr" by (simp add: task_at_def)
  obtain p1 where p1: "upd_task ptr (\<lambda>st. st\<lparr>valid := False\<rparr>) p = Inr p1" "frames p1 = frames p" "objs p1 = objs p"
    "env p1 = env p" and R: "\<And>q. in_range p1 q = in_range p q"
    and T: "\<And>q. task_at p1 q = (if q = ptr then (task_at p ptr)\<lparr>valid := False\<rparr> else task_at p q)"
    using r by (rule_tac upd_task_in_range [of p ptr "\<lambda>st. st\<lparr>valid := False\<rparr>"]) auto
  have "p' = (if root_done p ptr then p1 else p)"
    using assms(1) p1(1) by (auto simp: after_resume_def t Task_done_def root_done_def bind_res_eq_Inr split: option.splits if_splits)
  then show "frames p' = frames p" "objs p' = objs p" "env p' = env p" "in_range p' q = in_range p q"
    "task_at p' q = (if q = ptr \<and> root_done p ptr then (task_at p ptr)\<lparr>valid := False\<rparr> else task_at p q)"
    using p1 R T by auto
qed

lemma ledger_run_leave:
  assumes I: "ledger_run n D role S ptr Back p" and a: "after_resume ptr p = Inr p'"
  shows "ledger_inv n D role S p'"
proof -
  have run: "run_inv S ptr Back p" using I by (simp add: ledger_run_def)
  then have r: "in_range p ptr" by (rule run_invE)
  note p' = after_resume_effect [OF a r]
  have "well_formed S p'" using after_resume_ok [OF run] a by (metis sum.inject(2))
  moreover have "accounted_for n D p'"
  proof (rule accounted_same [OF _ p'(3)])
    show "accounted_for n D p" using I by (simp add: ledger_run_def)
    fix x assume x: "live_ref p x"
    show "live_ref p' x"
    proof (rule live_ref_step [OF x])
      show "waiting p' q b" if "waiting p q b" for q b
        using that I p' by (auto simp: waiting_def ledger_run_def)
    qed (simp_all add: p')
  qed
  moreover have "arming_ok role Back p'" using I p' by (simp add: ledger_run_def arming_ok_def)
  moreover have "in_range p' q \<and> armed_rest role p' q" if "armed_task p' q" for q
  proof -
    have "armed_task p q" using that p' by (simp add: armed_task_def)
    then have "in_range p q" "if q = ptr then armed_run role ptr Back p else armed_rest role p q"
      using I by (auto simp: ledger_run_def armed_ok_def)
    then show ?thesis using p' by (auto simp: armed_run_def armed_rest_def split: if_splits)
  qed
  ultimately show ?thesis by (simp add: ledger_inv_def armed_safe_def)
qed

lemma ledger_inv_enter:
  assumes I: "ledger_inv n D role S p" and r: "in_range p ptr" "runnable (task_at p ptr)"
    and h: "awaiting_handle (task_at p ptr) = Some h"
  shows "ledger_run n D role S ptr (Enter h) p"
proof -
  have W: "well_formed S p" using I by (simp add: ledger_inv_def)
  have v: "valid (task_at p ptr)" and np: "\<not> pending (task_at p ptr)" using r(2) by (simp_all add: runnable_def)
  have run: "run_inv S ptr (Enter h) p" using wf_run_inv [OF W r(1) v] h by (metis option.inject)
  have "arming_ok role (Enter h) p" using I unfolding ledger_inv_def armed_safe_def arming_ok_def by blast
  moreover have "armed_ok role ptr (Enter h) p"
    unfolding armed_ok_def
  proof (intro allI impI)
    fix q assume "armed_task p q"
    then have q: "in_range p q" "armed_rest role p q" using I by (auto simp: ledger_inv_def armed_safe_def)
    show "in_range p q \<and> (if q = ptr then armed_run role ptr (Enter h) p else armed_rest role p q)"
      using q v h by (auto simp: armed_rest_def armed_run_def)
  qed
  ultimately show ?thesis using I run np by (simp add: ledger_run_def ledger_inv_def)
qed

section \<open>Code that keeps the account\<close>

locale ledger_code =
  fixes code :: "('l, 'v, 'f, sys_env) code" and n :: nat and role :: "'l \<Rightarrow> role"
  assumes safe: "safe_code code"
    and accounted: "accounted_action n role l (code l inp)"
    and armed_returns: "role l = Armed \<Longrightarrow> \<exists>v. code l RUnit = CoReturn v"
    and sending_steps: "role l = Sending \<Longrightarrow> no_exn inp \<Longrightarrow>
      \<exists>f k. code l inp = CoStep f k \<and> role k = Parking \<and> (\<forall>t p x p'. f t p = Inr (x, p') \<longrightarrow> no_exn x)"
    and parking_waits: "role l = Parking \<Longrightarrow> no_exn inp \<Longrightarrow> \<exists>k. code l inp = CoAwaitPending k \<and> role k = Sending"
begin

lemma armed_exec:
  assumes "ledger_run n D role S ptr (Exec h l inp) p" and "armed_task p ptr"
  obtains v where "role l = Armed" and "code l inp = CoReturn v"
  | f k where "code l inp = CoStep f k" and "role k = Parking" and "\<forall>t p x p'. f t p = Inr (x, p') \<longrightarrow> no_exn x"
  | k where "code l inp = CoAwaitPending k" and "role k = Sending"
  using exec_armed [OF assms] armed_returns [of l] sending_steps [of l inp] parking_waits [of l inp]
  by (auto simp: armed_run_def)

lemma perform_keeps:
  assumes I: "ledger_run n D role S ptr (Exec h l inp) p" and e: "perform t h (code l inp) p = Inr (c', p')"
    and t: "t \<le> n" and R: "run_inv S' ptr c' p'" and U: "untouched S S' ptr p p'"
  shows "ledger_run n D role S' ptr c' p'"
proof (cases "code l inp")
  case (CoReturn v)
  have e': "finish h (return_value v) p = Inr (c', p')" using e CoReturn by (simp add: perform_def)
  have "role l = Armed" if "armed_task p ptr" by (rule armed_exec [OF I that]) (use CoReturn in auto)
  then show ?thesis by (intro finish_keeps [OF I e' R U]) auto
next
  case (CoThrow x)
  have e': "finish h (unhandled_exception x) p = Inr (c', p')" using e CoThrow by (simp add: perform_def)
  have "\<not> armed_task p ptr" using CoThrow by (auto elim: armed_exec [OF I])
  then show ?thesis by (intro finish_keeps [OF I e' R U]) auto
next
  case (CoAwaitTask g k)
  have m: "\<not> armed_task p ptr" using CoAwaitTask by (auto elim: armed_exec [OF I])
  have "role k \<noteq> Arming" "role g = Arming \<Longrightarrow> role k = Sending"
    using accounted [of l inp] CoAwaitTask by (simp_all add: accounted_action_def)
  then show ?thesis using await_task_keeps [OF I _ R U _ _ m] e CoAwaitTask by simp
next
  case (CoAwaitUring op' pr k)
  have m: "\<not> armed_task p ptr" using CoAwaitUring by (auto elim: armed_exec [OF I])
  have "role k \<noteq> Arming" "ledger_prep n pr" "default_op op'"
    using accounted [of l inp] safe [unfolded safe_code_def, rule_format, of l inp] CoAwaitUring
    by (simp_all add: accounted_action_def safe_action_def)
  then show ?thesis using await_uring_keeps [OF I _ R U _ _ t _ m] e CoAwaitUring by simp
next
  case (CoAwaitPending k)
  have m: "role k = Sending" if "armed_task p ptr" by (rule armed_exec [OF I that]) (use CoAwaitPending in auto)
  have "role k \<noteq> Arming" using accounted [of l inp] CoAwaitPending by (simp add: accounted_action_def)
  then show ?thesis using await_pending_keeps [OF I _ R U _ m] e CoAwaitPending by simp
next
  case (CoAwaitMshot pr k)
  have "role l = Arming" "role k = Armed" "ledger_prep n pr"
    using accounted [of l inp] CoAwaitMshot by (simp_all add: accounted_action_def)
  then show ?thesis using await_mshot_keeps [OF I _ R U _ _ _ t] e CoAwaitMshot by simp
next
  case (CoStep f k)
  have k: "role k \<noteq> Arming" "ledger_step n f"
    using accounted [of l inp] CoStep by (simp_all add: accounted_action_def)
  obtain x where f: "f t p = Inr (x, p')" and c: "c' = Exec h k x"
    using e CoStep by (auto simp: perform_def bind_res_eq_Inr)
  have m: "role k = Parking \<and> no_exn x" if "armed_task p ptr" by (rule armed_exec [OF I that]) (use CoStep f in auto)
  show ?thesis unfolding c by (rule co_step_keeps [OF I f _ U k t m]) (use R c in simp_all)
qed

lemma cstep_keeps:
  assumes I: "ledger_run n D role S ptr c p" and e: "cstep code t c p = Inr (c', p')" and t: "t \<le> n"
  shows "\<exists>S'. ledger_run n D role S' ptr c' p'"
proof -
  have run: "run_inv S ptr c p" using I by (simp add: ledger_run_def)
  obtain S' where R: "run_inv S' ptr c' p'" "untouched S S' ptr p p'"
    using cstep_ok [OF run safe, of t] e by (auto simp: step_ok_def)
  show ?thesis
  proof (cases c)
    case (Enter h)
    then have "ledger_run n D role S' ptr c' p'" using enter_keeps [OF _ _ R] I e by (simp add: cstep_def)
    then show ?thesis by blast
  next
    case (Exec h l inp)
    then have "ledger_run n D role S' ptr c' p'" using perform_keeps [OF _ _ t R] I e by (simp add: cstep_def)
    then show ?thesis by blast
  next
    case Back
    then show ?thesis using I e by (auto simp: cstep_def)
  qed
qed

text \<open>A pass of the task loop.\<close>

lemma pass_keeps:
  assumes I: "ledger_inv n D role S p" and t: "t \<le> n" and ret: "TaskLoop_run code t p = Some (Inr p')"
  shows "\<exists>S'. ledger_inv n D role S' p'"
proof (rule TaskLoop_run_from_keeps [where Q = "\<lambda>p. \<exists>S. ledger_inv n D role S p", OF ret [unfolded TaskLoop_run_def]])
  fix i p p1
  assume "\<exists>S. ledger_inv n D role S p" and i: "i < length (loops p t)" "runnable (loops p t ! i)"
    and res: "ScheduledTask_resume code (t, i) p = Some (Inr p1)"
  then obtain S where S: "ledger_inv n D role S p" by blast
  have r: "in_range p (t, i)" "runnable (task_at p (t, i))" using i by (simp_all add: in_range_def task_at_def)
  obtain h p2 where h: "awaiting_handle (task_at p (t, i)) = Some h"
    and p2: "run_ctl code t (Enter h) p = Some (Inr p2)" "after_resume (t, i) p2 = Inr p1"
    using res by (auto simp: ScheduledTask_resume_def task_at_def split: option.splits sum.splits)
  have "\<exists>S. ledger_run n D role S (t, i) Back p2"
  proof (rule run_ctl_keeps [where Q = "\<lambda>c p. \<exists>S. ledger_run n D role S (t, i) c p", OF p2(1)])
    show "\<exists>S. ledger_run n D role S (t, i) (Enter h) p" using ledger_inv_enter [OF S r h] by blast
  qed (use cstep_keeps [OF _ _ t] in blast)
  then show "\<exists>S. ledger_inv n D role S p1" using ledger_run_leave [OF _ p2(2)] by blast
qed (use I in blast)

end

end
