(* ===== verification/Ledger_Events.thy ===== *)
theory Ledger_Events
  imports Ledger_Exec
begin

text \<open>
  Handling completions and the account: the reference of a completion is taken off, the object it leads
  to is freed or its task made runnable, and what the handler queues refers to new objects.
\<close>

declare split_paired_All [simp del] split_paired_Ex [simp del]

section \<open>Taking a reference off\<close>

lemma covers_rest: "covers p (add_mset r R) \<Longrightarrow> covers p R"
  by (erule covers_subset) simp

lemma covers_apart:
  assumes "covers p (add_mset r R)" and "x \<in># R" and "message_address (ref_address r)"
  shows "ref_address x \<noteq> ref_address r"
  using assms by (auto simp: covers_def dest: unique_refs_add)

lemma covers_delete:
  assumes C: "covers p (add_mset r R)" and m: "message_address (ref_address r)"
  shows "covers (delete_obj (ref_address r) p) R"
proof -
  have "live_ref (delete_obj (ref_address r) p) x" if x: "x \<in># R" for x
  proof (rule live_ref_step)
    show "live_ref p x" using C x by (simp add: covers_def)
    show "objs (delete_obj (ref_address r) p) (ref_address x) = objs p (ref_address x)"
      using covers_apart [OF C x m] by (simp add: delete_obj_def)
  qed (simp_all add: waiting_def delete_obj_def)
  then show ?thesis using covers_rest [OF C] by (simp add: covers_def)
qed

lemma bounded_delete: "bounded p \<Longrightarrow> a \<noteq> multishot_token \<Longrightarrow> bounded (delete_obj a p)"
  by (auto simp: bounded_def delete_obj_def split: if_splits)

lemma armed_safe_cong:
  assumes "armed_safe role p" and "frames p' = frames p" and "objs p' multishot_token = objs p multishot_token"
    and "\<And>q. in_range p' q = in_range p q" and "\<And>q. \<exists>b. task_at p' q = (task_at p q)\<lparr>pending := b\<rparr>"
  shows "armed_safe role p'"
proof -
  have "armed_rest role p' q = armed_rest role p q" for q
  proof -
    obtain b where "task_at p' q = (task_at p q)\<lparr>pending := b\<rparr>" using assms(5) by blast
    then show ?thesis using assms(2) by (simp add: armed_rest_def)
  qed
  then show ?thesis using assms(1-4) by (simp add: armed_safe_def arming_ok_def armed_task_def)
qed

lemma armed_safe_delete: "armed_safe role p \<Longrightarrow> a \<noteq> multishot_token \<Longrightarrow> armed_safe role (delete_obj a p)"
proof (rule armed_safe_cong)
  show "\<exists>b. task_at (delete_obj a p) q = (task_at p q)\<lparr>pending := b\<rparr>" for q
    using same_pending [of "task_at p q"] by (simp add: delete_obj_def)
qed (simp_all add: delete_obj_def)

text \<open>What handling a completion has to establish, for the references \<open>R\<close> that remain.\<close>

definition settles :: "nat \<Rightarrow> ('l \<Rightarrow> role) \<Rightarrow> ref multiset \<Rightarrow> ('l, 'v, 'f) world \<Rightarrow> ('l, 'v, 'f) world \<Rightarrow> bool" where
  "settles n role R p p' \<longleftrightarrow> (\<exists>X. env_gains n X (env p) (env p') \<and> covers p' (R + X)) \<and> armed_safe role p'"

lemma settles_adds:
  assumes e: "env_gains n {#} (env p) (env p0)" and C: "covers p0 R" and b: "bounded p0" and A: "armed_safe role p0"
    and s: "adds n p0 p'"
  shows "settles n role R p p'"
proof -
  obtain X where X: "ledger n (env p') = ledger n (env p0) + X" by (rule addsE [OF s])
  have "env_gains n X (env p) (env p')" using e X addsD(7) [OF s] by (simp add: env_gains_def)
  then show ?thesis using covers_adds [OF s b C X] armed_safe_adds [OF A s b] by (auto simp: settles_def)
qed

lemma settles_delete:
  assumes C: "covers p (add_mset r R)" and m: "message_address (ref_address r)" and b: "bounded p"
    and A: "armed_safe role p" and s: "adds n (delete_obj (ref_address r) p) p'"
  shows "settles n role R p p'"
proof (rule settles_adds [OF _ covers_delete [OF C m] _ _ s])
  have a: "ref_address r \<noteq> multishot_token" using m by (simp add: message_address_def)
  show "bounded (delete_obj (ref_address r) p)" by (rule bounded_delete [OF b a])
  show "armed_safe role (delete_obj (ref_address r) p)" by (rule armed_safe_delete [OF A a])
qed (simp add: env_gains_same delete_obj_def)

text \<open>Making a task runnable.\<close>

lemma wake_cases:
  assumes "wake (Some q) p = Inr p'"
  shows "in_range p q" and "frames p' = frames p" and "objs p' = objs p" and "env p' = env p" and "fresh p' = fresh p"
    and "in_range p' q' = in_range p q'"
    and "task_at p' q' = (if q' = q then set_pending False (task_at p q) else task_at p q')"
proof -
  show r: "in_range p q" using assms by (auto simp: wake_def deref_task_def upd_task_def in_range_def Let_def split: if_splits)
  obtain p1 where "upd_task q (set_pending False) p = Inr p1" "frames p1 = frames p" "objs p1 = objs p"
    "fresh p1 = fresh p" "env p1 = env p" "\<And>q'. in_range p1 q' = in_range p q'"
    "\<And>q'. task_at p1 q' = (if q' = q then set_pending False (task_at p q) else task_at p q')"
    using upd_task_in_range [OF r, of "set_pending False"] by metis
  then show "frames p' = frames p" "objs p' = objs p" "env p' = env p" "fresh p' = fresh p"
    "in_range p' q' = in_range p q'"
    "task_at p' q' = (if q' = q then set_pending False (task_at p q) else task_at p q')"
    using assms by (simp_all add: wake_def deref_task_def)
qed

lemma waiting_token: "waiting p q a \<Longrightarrow> waiting p q b \<Longrightarrow> a = b"
  by (auto simp: waiting_def)

lemma settles_wake:
  assumes w: "wake (Some q) p0 = Inr p'" and p0: "p0 = p\<lparr>objs := H\<rparr>" and A: "armed_safe role p"
    and H: "H multishot_token = objs p multishot_token"
    and R: "\<And>x. x \<in># R \<Longrightarrow> live_ref p x" "unique_refs R"
    and ob: "\<And>x. x \<in># R \<Longrightarrow> H (ref_address x) = objs p (ref_address x)"
    and nw: "\<And>b. TokenRef b \<in># R \<Longrightarrow> \<not> waiting p q b"
  shows "settles n role R p p'"
proof -
  note e = wake_cases [OF w]
  have "live_ref p' x" if x: "x \<in># R" for x
  proof (rule live_ref_step [OF R(1) [OF x]])
    show "objs p' (ref_address x) = objs p (ref_address x)" using e(3) p0 ob [OF x] by simp
    show "waiting p' q' b" if b: "x = TokenRef b" "waiting p q' b" for q' b
    proof -
      have "q' \<noteq> q" using b nw x by auto
      then show ?thesis using b(2) e p0 by (simp add: waiting_def)
    qed
  qed (use e p0 in simp)
  then have "covers p' R" using R(2) by (simp add: covers_def)
  moreover have "\<exists>b. task_at p' q' = (task_at p q')\<lparr>pending := b\<rparr>" for q'
    using e(7) p0 by (cases "q' = q") (auto simp: set_pending_def intro: exI [of _ False])
  then have "armed_safe role p'" by (intro armed_safe_cong [OF A]) (use e p0 H in simp_all)
  moreover have "env_gains n {#} (env p) (env p')" using e p0 by (simp add: env_gains_same)
  ultimately show ?thesis by (auto simp: settles_def intro!: exI [of _ "{#}"])
qed

section \<open>Handling one completion\<close>

lemma enqueue_objs: "enqueue t tk (p\<lparr>objs := H\<rparr>) = bind_res (enqueue t tk p) (\<lambda>q. Inr (q\<lparr>objs := H\<rparr>))"
  by (simp add: enqueue_def Let_def upd_promise_def split: option.splits)

lemma macc_spawn_adds:
  "macc_spawn L cl t f fds p = Inr p' \<Longrightarrow> t \<le> n \<Longrightarrow> adds n p p'"
proof (induction fds arbitrary: p)
  case (Cons fd fds)
  obtain tk tmp p1 where 1: "invoke_with_conn L cl t f (TcpConnection_ctor fd) p = Inr (tk, tmp, p1)"
    using Cons.prems by (auto simp: bind_res_eq_Inr)
  then obtain p2 where 2: "on_env (\<lambda>s. bind_res (TcpConnection_dtor L t tmp s) (\<lambda>(c', s'). Inr s')) p1 = Inr p2"
    using Cons.prems by (auto simp: bind_res_eq_Inr)
  then obtain p3 where 3: "enqueue t tk p2 = Inr p3" "macc_spawn L cl t f fds p3 = Inr p'"
    using Cons.prems 1 by (auto simp: bind_res_eq_Inr)
  note t = Cons.prems(2)
  show ?case
    by (rule adds_trans [OF adds_trans [OF adds_trans [OF adds_invoke [OF 1 t] adds_destroy [OF 2 t]] adds_enqueue [OF 3(1)]]
        Cons.IH [OF 3(2) t]])
qed simp

lemma msg_conn_adds:
  assumes "impl_handle_msg_conn L cl t c p = Inr p'" and t: "t \<le> n"
  shows "adds n (delete_obj (cqe_data c) p) p'"
proof -
  obtain m where m: "conn_helper_at (objs p) (cqe_data c) = Inr m"
    using assms(1) by (auto simp: impl_handle_msg_conn_def bind_res_eq_Inr)
  let ?d = "delete_obj (cqe_data c) p" and ?fd = "direct_fd m"
  obtain p2 where p2: "on_ring t (\<lambda>u. Inr (u\<lparr>direct_map := (direct_map u)(?fd := None)\<rparr>)) ?d = Inr p2" by simp
  have A2: "adds n ?d p2" by (rule adds_on_ring [OF p2 t]) auto
  obtain conn tk conn' p3 where 3: "invoke_with_conn L cl t (helper_func m) conn p2 = Inr (tk, conn', p3)"
    and r3: "bind_res (enqueue t tk p3) (\<lambda>p4. bind_res (notify_main_ring_release_fd L t ?fd p4) (\<lambda>p5.
      on_env (\<lambda>s. bind_res (TcpConnection_dtor L t conn' s) (\<lambda>(c', s'). Inr s')) p5)) = Inr p'"
    using assms(1) m p2 by (auto simp: impl_handle_msg_conn_def Let_def bind_res_eq_Inr ConnTaskHelper_move_out_def simp del: on_ring_pure)
  then obtain p4 p5 where 4: "enqueue t tk p3 = Inr p4" and 5: "notify_main_ring_release_fd L t ?fd p4 = Inr p5"
    and 6: "on_env (\<lambda>s. bind_res (TcpConnection_dtor L t conn' s) (\<lambda>(c', s'). Inr s')) p5 = Inr p'"
    by (auto simp: bind_res_eq_Inr)
  show ?thesis
    by (rule adds_trans [OF adds_trans [OF adds_trans [OF adds_trans [OF A2 adds_invoke [OF 3 t]] adds_enqueue [OF 4]]
        adds_notify_main [OF 5 t]] adds_destroy [OF 6 t]])
qed

lemma push_awaiting_adds: "push_awaiting t r p = Inr p' \<Longrightarrow> t \<le> n \<Longrightarrow> adds n p p'"
  by (auto simp: push_awaiting_def simp del: on_ring_pure split: if_splits intro: adds_on_ring)

text \<open>A token that is freed after something has been done to the ring.\<close>

lemma settles_ring_delete:
  assumes C: "covers p (add_mset (TokenRef a) R)" and m: "message_address a" and b: "bounded p"
    and A: "armed_safe role p" and t: "t \<le> n"
    and e: "bind_res (on_ring t g p) (\<lambda>p1. Inr (delete_obj a p1)) = Inr p'"
    and g: "\<And>u'. g (ring_at p t) = Inr u' \<Longrightarrow> ring_gains {#} (ring_at p t) u'"
  shows "settles n role R p p'"
proof (rule settles_delete [OF C _ b A])
  obtain p1 where p1: "on_ring t g p = Inr p1" "p' = delete_obj a p1" using e by (auto simp: bind_res_eq_Inr)
  then obtain s where s: "upd_ring t g (env p) = Inr s" "p1 = p\<lparr>env := s\<rparr>" by (auto simp: on_ring_def on_env_Inr)
  have "env_gains n {#} (env p) s" by (rule upd_ring_gains [OF s(1) t]) (use g in \<open>simp add: ring_at_def\<close>)
  then have "adds n (delete_obj a p) ((delete_obj a p)\<lparr>env := s\<rparr>)" by (intro adds_env) (simp add: delete_obj_def)
  then show "adds n (delete_obj (ref_address (TokenRef a)) p) p'" by (simp add: p1 s delete_obj_env)
qed (use m in simp)

text \<open>
  The completion of an accept with the multishot token, which is not deleted, and that of an operation
  that a coroutine awaits, whose token the awaiter deletes.
\<close>

lemma multishot_settles:
  assumes C: "covers p (add_mset (TokenRef (cqe_data c)) R)" and b: "bounded p" and A: "armed_safe role p"
    and t: "t \<le> n" and tk: "objs p (cqe_data c) = Some (Token tk)" and e: "handle_token L t c tk p = Inr p'"
    and mshot: "tok_op tk = Op_MultishotAccept"
  shows "settles n role R p p'"
proof -
  let ?a = "cqe_data c"
  have live: "live_ref p (TokenRef ?a)" using C by (simp add: covers_def)
  have R: "\<And>x. x \<in># R \<Longrightarrow> live_ref p x" "unique_refs R" using covers_rest [OF C] by (simp_all add: covers_def)
  have a: "?a = multishot_token" using live tk mshot by auto
  obtain p1 where p1: "push_awaiting t (cqe_result c) p = Inr p1" and w: "wake (chain_task tk) p1 = Inr p'"
    using e mshot a tk push_awaiting_eq [of t "cqe_result c" p] by (auto simp: handle_token_def bind_res_eq_Inr token_at_def)
  obtain s where s: "p1 = p\<lparr>env := s\<rparr>" using push_awaiting_eq [of t "cqe_result c" p] p1 by auto
  have s1: "adds n p p1" by (rule push_awaiting_adds [OF p1 t])
  obtain q where q: "chain_task tk = Some q" using live tk a by auto
  then have "armed_task p q" using tk a mshot by (simp add: armed_task_def)
  then have rest: "armed_rest role p q" using A by (simp add: armed_safe_def)
  have "settles n role R p1 p'"
  proof (rule settles_wake [where H = "objs p1"])
    show "wake (Some q) p1 = Inr p'" using w q by simp
    show "armed_safe role p1" by (rule armed_safe_adds [OF A s1 b])
    show "live_ref p1 x" if "x \<in># R" for x by (rule live_ref_adds [OF s1 b R(1) [OF that]])
    show "\<not> waiting p1 q d" for d using rest s by (auto simp: waiting_def armed_rest_def quiet_def)
  qed (use R in simp_all)
  moreover have "env_gains n {#} (env p) (env p1)"
    using s1 p1 t by (auto simp: push_awaiting_def on_ring_def on_env_Inr env_gains_same simp del: on_ring_pure
        split: if_splits intro: upd_ring_gains)
  ultimately show ?thesis using env_gains_trans by (fastforce simp: settles_def)
qed

lemma awaited_settles:
  assumes C: "covers p (add_mset (TokenRef (cqe_data c)) R)" and A: "armed_safe role p"
    and tk: "objs p (cqe_data c) = Some (Token tk)" and e: "handle_token L t c tk p = Inr p'"
    and wait: "default_op (tok_op tk)"
  shows "settles n role R p p'"
proof -
  let ?a = "cqe_data c"
  have live: "live_ref p (TokenRef ?a)" using C by (simp add: covers_def)
  have ms: "?a = multishot_token \<longleftrightarrow> tok_op tk = Op_MultishotAccept" "?a \<noteq> nullptr" using live tk by auto
  have m: "message_address ?a" if "tok_op tk \<noteq> Op_MultishotAccept"
    using ms that by (simp add: message_address_def)
  have R: "\<And>x. x \<in># R \<Longrightarrow> live_ref p x" "unique_refs R" using covers_rest [OF C] by (simp_all add: covers_def)
  obtain q where q: "chain_task tk = Some q" "waiting p q ?a" using live tk wait by auto
  have nm: "tok_op tk \<noteq> Op_MultishotAccept" using wait by (auto simp: default_op_def)
  have e': "wake (Some q) (p\<lparr>objs := (objs p)(?a \<mapsto> Token (tk\<lparr>cqe_res := cqe_result c, cqe_flags := cqe_fl c\<rparr>))\<rparr>) = Inr p'"
    using e wait q by (cases "tok_op tk") (simp_all add: handle_token_def default_op_def)
  have ap: "ref_address x \<noteq> ?a" if "x \<in># R" for x using covers_apart [OF C that] m [OF nm] by simp
  show ?thesis
  proof (rule settles_wake [OF e' refl A])
    show "\<not> waiting p q d" if "TokenRef d \<in># R" for d using waiting_token [OF q(2)] ap [OF that] by auto
  qed (use R ap ms nm in simp_all)
qed

lemma handle_token_settles:
  assumes C: "covers p (add_mset (TokenRef (cqe_data c)) R)" and b: "bounded p" and A: "armed_safe role p"
    and t: "t \<le> n" and tk: "objs p (cqe_data c) = Some (Token tk)" and e: "handle_token L t c tk p = Inr p'"
  shows "settles n role R p p'"
proof -
  let ?a = "cqe_data c"
  have live: "live_ref p (TokenRef ?a)" using C by (simp add: covers_def)
  have ms: "?a = multishot_token \<longleftrightarrow> tok_op tk = Op_MultishotAccept" "?a \<noteq> nullptr" using live tk by auto
  have m: "message_address ?a" if "tok_op tk \<noteq> Op_MultishotAccept"
    using ms that by (simp add: message_address_def)
  have del: "settles n role R p (delete_obj ?a p)" if "tok_op tk \<noteq> Op_MultishotAccept"
    by (rule settles_delete [OF C _ b A]) (use m [OF that] in simp_all)
  have ring: "settles n role R p p'"
    if "tok_op tk \<noteq> Op_MultishotAccept" "bind_res (on_ring t g p) (\<lambda>p1. Inr (delete_obj ?a p1)) = Inr p'"
      "\<And>u'. g (ring_at p t) = Inr u' \<Longrightarrow> ring_gains {#} (ring_at p t) u'" for g
    by (rule settles_ring_delete [OF C m [OF that(1)] b A t that(2,3)])
  consider (del) "tok_op tk \<in> {Op_SyncCloseDirect, Op_CancelAny, Op_RingTask, Op_RingFdSender}"
    | (quit) "tok_op tk = Op_Quit" | (recv) "tok_op tk = Op_RingFdReceiver"
    | (close) "tok_op tk = Op_MainRingCloseDirectSocket" | (mshot) "tok_op tk = Op_MultishotAccept"
    | (fd) "tok_op tk = Op_MultishotAcceptFdReceiver" | (wait) "default_op (tok_op tk)"
    by (auto simp: default_op_def)
  then show ?thesis
  proof cases
    case del
    then show ?thesis using \<open>tok_op tk \<noteq> Op_MultishotAccept \<Longrightarrow> settles n role R p (delete_obj ?a p)\<close> e
      by (auto simp: handle_token_def)
  next
    case quit
    then show ?thesis using e by (intro ring [of "\<lambda>u. Inr (u\<lparr>ring_stopped := True\<rparr>)"]) (auto simp: handle_token_def)
  next
    case recv
    then show ?thesis using e
      by (intro ring [of "\<lambda>u. Inr (u\<lparr>direct_map := (direct_map u)(cqe_res tk \<mapsto> cqe_result c)\<rparr>)"]) (auto simp: handle_token_def)
  next
    case close
    then show ?thesis using e
      by (intro ring [of "close_direct_socket L (cqe_result c)"]) (auto simp: handle_token_def dest: close_gains)
  next
    case fd
    have push: "push_awaiting t r p = on_ring t (\<lambda>u. Inr (if 0 \<le> r then u\<lparr>awaiting_direct_fd := awaiting_direct_fd u @ [r]\<rparr> else u)) p" for r
      by (auto simp: push_awaiting_def)
    show ?thesis using e fd
      by (intro ring [of "\<lambda>u. Inr (if 0 \<le> cqe_result c then u\<lparr>awaiting_direct_fd := awaiting_direct_fd u @ [cqe_result c]\<rparr> else u)"])
        (auto simp: handle_token_def push Let_def simp del: on_ring_pure)
  next
    case mshot
    then show ?thesis by (rule multishot_settles [OF C b A t tk e])
  next
    case wait
    then show ?thesis by (rule awaited_settles [OF C A tk e])
  qed
qed

lemma handle_request_settles:
  assumes C: "covers p (cqe_refs c + R)" and W: "well_formed S p" and A: "armed_safe role p" and t: "t \<le> n"
    and e: "handle_request L cl t c p = Inr p'"
  shows "settles n role R p p'"
proof (cases "cqe_ref c = TokenRef nullptr")
  case True
  then have "p' = p" using e by (auto simp: handle_request_def cqe_ref_def split: if_splits)
  then show ?thesis using C A True by (auto simp: settles_def cqe_refs_def env_gains_same intro!: exI [of _ "{#}"])
next
  case False
  have b: "bounded p" using W by (simp add: well_formed_def others_def)
  have C': "covers p (add_mset (cqe_ref c) R)" using C False by (simp add: cqe_refs_def)
  then have live: "live_ref p (cqe_ref c)" by (simp add: covers_def)
  let ?a = "cqe_data c"
  consider (task) "is_msg RingTask c" | (func) "\<not> is_msg RingTask c" "is_msg RingFuncTask c"
    | (macc) "\<not> is_msg RingTask c" "\<not> is_msg RingFuncTask c" "is_msg MultiAccTask c"
    | (tok) "\<not> is_msg RingTask c" "\<not> is_msg RingFuncTask c" "\<not> is_msg MultiAccTask c"
    by blast
  then show ?thesis
  proof cases
    case task
    then have r: "cqe_ref c = TaskRef ?a" by (simp add: cqe_ref_def)
    then obtain m where m: "objs p ?a = Some (MsgTask m)" and ma: "message_address ?a" using live by auto
    have "enqueue t \<lparr>task_handle = msg_task m\<rparr> (delete_obj ?a p) = Inr p'"
    proof -
      have "bind_res (enqueue t \<lparr>task_handle = msg_task m\<rparr> p)
          (\<lambda>q. Inr (delete_obj ?a (q\<lparr>objs := (objs p)(?a \<mapsto> MsgTask (m\<lparr>msg_task := None\<rparr>))\<rparr>))) = Inr p'"
        using e task m by (simp add: handle_request_def msg_task_at_def RingMsgTask_move_out_def enqueue_objs bind_res_assoc)
      then show ?thesis by (auto simp: bind_res_eq_Inr delete_obj_def enqueue_objs)
    qed
    then have "adds n (delete_obj ?a p) p'" by (rule adds_enqueue)
    then show ?thesis using settles_delete [OF C' _ b A] ma r by simp
  next
    case func
    then have r: "cqe_ref c = ConnRef ?a" by (simp add: cqe_ref_def)
    then have ma: "message_address ?a" using live by simp
    have "adds n (delete_obj ?a p) p'" by (rule msg_conn_adds [OF _ t]) (use e func in \<open>simp add: handle_request_def\<close>)
    then show ?thesis using settles_delete [OF C' _ b A] ma r by simp
  next
    case macc
    then have r: "cqe_ref c = MAccRef ?a" by (simp add: cqe_ref_def)
    then have ma: "message_address ?a" using live by simp
    have "adds n (delete_obj ?a p) p'"
      using e macc by (auto simp: handle_request_def impl_handle_macc_task_def MAccTaskToken_move_out_def Let_def
          bind_res_eq_Inr intro: macc_spawn_adds [OF _ t])
    then show ?thesis using settles_delete [OF C' _ b A] ma r by simp
  next
    case tok
    then have r: "cqe_ref c = TokenRef ?a" by (simp add: cqe_ref_def)
    then obtain tk where tk: "objs p ?a = Some (Token tk)" "?a \<noteq> nullptr" using live by auto
    show ?thesis
      by (rule handle_token_settles [OF _ b A t tk(1)]) (use C' r e tok tk in \<open>simp_all add: handle_request_def token_at_def\<close>)
  qed
qed

end
