(* ===== verification/Ledger_Batch.thy ===== *)
theory Ledger_Batch
  imports Ledger_Events
begin

text \<open>
  Whole batches and the account. The kernel may complete what has been queued, each entry once but for
  the multishot accept; under this contract every completion that a thread handles leads to a live
  object.
\<close>

declare split_paired_All [simp del] split_paired_Ex [simp del]

section \<open>What the kernel may deliver\<close>

definition cqes_refs :: "cqe list \<Rightarrow> ref multiset" where
  "cqes_refs cs = \<Sum>\<^sub># (image_mset cqe_refs (mset cs))"

definition delivered :: "cqe list \<Rightarrow> ref multiset" where
  "delivered cs = filter_mset (\<lambda>r. r \<noteq> TokenRef multishot_token) (cqes_refs cs)"

definition may_deliver :: "nat \<Rightarrow> ref multiset \<Rightarrow> ('l, 'v, 'f) world \<Rightarrow> cqe list \<Rightarrow> bool" where
  "may_deliver n D p cs \<longleftrightarrow> D + delivered cs \<subseteq># ledger n (env p) \<and>
     (TokenRef multishot_token \<in># cqes_refs cs \<longrightarrow> TokenRef multishot_token \<in># ledger n (env p))"

lemma cqes_refs_simps [simp]:
  "cqes_refs [] = {#}" "cqes_refs (c # cs) = cqe_refs c + cqes_refs cs" "cqes_refs (cs @ ds) = cqes_refs cs + cqes_refs ds"
  by (simp_all add: cqes_refs_def)

lemma queue_of_cqes: "queue_of u = cqes_refs (cq u)"
  by (simp add: queue_of_def cqes_refs_def)

lemma waiting_env [simp]: "waiting (p\<lparr>env := s\<rparr>) q a = waiting p q a"
  by (simp add: waiting_def)

lemma live_ref_env [simp]: "live_ref (p\<lparr>env := s\<rparr>) r = live_ref p r"
  by (cases r) simp_all

lemma covers_env [simp]: "covers (p\<lparr>env := s\<rparr>) R = covers p R"
  by (simp add: covers_def)

lemma armed_safe_env [simp]: "armed_safe role (p\<lparr>env := s\<rparr>) = armed_safe role p"
  by (simp add: armed_safe_def arming_ok_def armed_task_def armed_rest_def)

lemma queued_set:
  assumes "t \<le> n" and "cq u = cs"
  shows "queued n (s\<lparr>rings := (rings s)(t := u)\<rparr>) + cqes_refs (cq (rings s t)) = queued n s + cqes_refs cs"
  using sum_fun_upd [OF assms(1), of queue_of "rings s" u] assms(2) by (simp add: queued_def queue_of_cqes)

lemma ledger_set:
  assumes "t \<le> n" and "ring_refs u = ring_refs (rings s t)"
  shows "ledger n (s\<lparr>rings := (rings s)(t := u)\<rparr>) = ledger n s"
  using ledger_upd [OF assms(1), of u s "{#}"] assms(2) by simp

lemma accounted_less:
  assumes R: "accounted_for n D p" and l: "ledger n s = ledger n (env p)" and q: "queued n s \<subseteq># queued n (env p)"
    and D: "D \<subseteq># D'" "D' \<subseteq># ledger n (env p)" "TokenRef multishot_token \<notin># D'"
  shows "accounted_for n D' (p\<lparr>env := s\<rparr>)"
proof -
  have "ledger n (env p) - D' \<subseteq># ledger n (env p) - D"
    using D(1) by (simp add: subseteq_mset_def diff_le_mono2)
  then have "outstanding n D' (p\<lparr>env := s\<rparr>) \<subseteq># outstanding n D p"
    using q l unfolding outstanding_def by (simp add: subset_mset.add_mono)
  then show ?thesis using R D l covers_subset by (auto simp: accounted_for_def)
qed

lemma multishot_not_delivered [simp]: "TokenRef multishot_token \<notin># delivered cs"
  by (simp add: delivered_def)

text \<open>Completions arrive.\<close>

lemma outstanding_arrive:
  assumes t: "t \<le> n" and m: "may_deliver n D p cs"
    and u: "cq u = cq (rings (env p) t) @ cs" "ring_refs u = ring_refs (rings (env p) t)"
  shows "outstanding n (D + delivered cs) (p\<lparr>env := (env p)\<lparr>rings := (rings (env p))(t := u)\<rparr>\<rparr>) =
      outstanding n D p + filter_mset (\<lambda>r. r = TokenRef multishot_token) (cqes_refs cs)"
    and "ledger n ((env p)\<lparr>rings := (rings (env p))(t := u)\<rparr>) = ledger n (env p)"
proof -
  let ?s = "(env p)\<lparr>rings := (rings (env p))(t := u)\<rparr>" and ?ms = "filter_mset (\<lambda>r. r = TokenRef multishot_token) (cqes_refs cs)"
  show l: "ledger n ?s = ledger n (env p)" by (rule ledger_set [OF t u(2)])
  have q: "queued n ?s = queued n (env p) + cqes_refs cs" using queued_set [OF t u(1), of "env p"] by (simp add: ac_simps)
  obtain Z where Z: "ledger n (env p) = D + delivered cs + Z"
    using m by (auto simp: may_deliver_def mset_subset_eq_exists_conv)
  have split: "cqes_refs cs = delivered cs + ?ms"
    unfolding delivered_def by (metis (no_types, lifting) filter_mset_cong multiset_partition)
  have d: "ledger n (env p) - (D + delivered cs) = Z" "ledger n (env p) - D = delivered cs + Z"
    using Z by (simp_all add: add.assoc)
  have "outstanding n (D + delivered cs) (p\<lparr>env := ?s\<rparr>) = Z + (queued n (env p) + (delivered cs + ?ms))"
    unfolding outstanding_def using d(1) l q split by simp
  also have "\<dots> = (delivered cs + Z + queued n (env p)) + ?ms" by (simp only: ac_simps)
  finally show "outstanding n (D + delivered cs) (p\<lparr>env := ?s\<rparr>) = outstanding n D p + ?ms"
    by (simp only: outstanding_def d(2))
qed

lemma accounted_arrive:
  assumes R: "accounted_for n D p" and t: "t \<le> n" and m: "may_deliver n D p cs"
    and u: "cq u = cq (rings (env p) t) @ cs" "ring_refs u = ring_refs (rings (env p) t)"
  shows "accounted_for n (D + delivered cs) (p\<lparr>env := (env p)\<lparr>rings := (rings (env p))(t := u)\<rparr>\<rparr>)"
proof -
  let ?ms = "filter_mset (\<lambda>r. r = TokenRef multishot_token) (cqes_refs cs)"
  have D0: "TokenRef multishot_token \<notin># D" and C: "covers p (outstanding n D p)" using R by (auto simp: accounted_for_def)
  have "live_ref p r" if "r \<in># ?ms" for r
  proof -
    have "TokenRef multishot_token \<in># ledger n (env p)" using that m by (auto simp: may_deliver_def)
    then have "TokenRef multishot_token \<in># ledger n (env p) - D" using D0 by (simp add: in_diff_count count_inI not_in_iff)
    then have "r \<in># outstanding n D p" using that unfolding outstanding_def by auto
    then show ?thesis using C by (simp add: covers_def)
  qed
  moreover have "unique_refs (outstanding n D p + ?ms)"
  proof (rule unique_refs_union)
    show "unique_refs ?ms"
      unfolding unique_refs_def by (auto simp: message_address_def count_eq_zero_iff intro!: le_SucI)
  qed (use C in \<open>auto simp: covers_def message_address_def\<close>)
  ultimately have "covers p (outstanding n D p + ?ms)" using C by (auto simp: covers_def)
  then show ?thesis using D0 m outstanding_arrive [OF t m u] by (simp add: accounted_for_def may_deliver_def)
qed

section \<open>Batches\<close>

lemma handle_request_account:
  assumes W: "well_formed S p" and C: "covers p (cqe_refs c + R)" and A: "armed_safe role p" and t: "t \<le> n"
    and e: "handle_request L cl t c p = Inr p1"
  shows "\<exists>S' X. well_formed S' p1 \<and> env_gains n X (env p) (env p1) \<and> covers p1 (R + X) \<and> armed_safe role p1"
proof -
  have "event_ok p c"
    using C live_event [of p c] null_event [of c p] by (cases "cqe_ref c = TokenRef nullptr") (auto simp: covers_def cqe_refs_def)
  then have "\<exists>S'. well_formed S' p1" using handle_request_done [OF W, of c L cl t] e by (auto simp: event_done_def)
  moreover have "settles n role R p p1" by (rule handle_request_settles [OF C W A t e])
  ultimately show ?thesis by (auto simp: settles_def)
qed

lemma handle_each_account:
  "well_formed S p \<Longrightarrow> covers p (cqes_refs cs + R) \<Longrightarrow> armed_safe role p \<Longrightarrow> t \<le> n \<Longrightarrow>
   handle_each L cl t cs p = Inr p' \<Longrightarrow>
   \<exists>S' X. well_formed S' p' \<and> env_gains n X (env p) (env p') \<and> covers p' (R + X) \<and> armed_safe role p'"
proof (induction cs arbitrary: S p R)
  case Nil
  then show ?case by (auto simp: env_gains_same intro!: exI [of _ "{#}"])
next
  case (Cons c cs)
  obtain p1 where p1: "handle_request L cl t c p = Inr p1" "handle_each L cl t cs p1 = Inr p'"
    using Cons.prems(5) by (auto simp: bind_res_eq_Inr)
  have C: "covers p (cqe_refs c + (cqes_refs cs + R))" using Cons.prems(2) by (simp add: ac_simps)
  obtain S1 X where 1: "well_formed S1 p1" "env_gains n X (env p) (env p1)" "covers p1 (cqes_refs cs + R + X)" "armed_safe role p1"
    using handle_request_account [OF Cons.prems(1) C Cons.prems(3,4) p1(1)] by blast
  obtain S' Y where 2: "well_formed S' p'" "env_gains n Y (env p1) (env p')" "covers p' (R + X + Y)" "armed_safe role p'"
    using Cons.IH [OF 1(1) _ 1(4) Cons.prems(4) p1(2), of "R + X"] 1(3) by (auto simp: ac_simps)
  show ?case using env_gains_trans [OF 1(2) 2(2)] 2 by (auto simp: ac_simps)
qed

lemma handle_while_account:
  "well_formed S p \<Longrightarrow> covers p (cqes_refs cs + R) \<Longrightarrow> armed_safe role p \<Longrightarrow> t \<le> n \<Longrightarrow>
   handle_while_running L cl t cs p = Inr p' \<Longrightarrow>
   \<exists>S' X. well_formed S' p' \<and> env_gains n X (env p) (env p') \<and> covers p' (R + X) \<and> armed_safe role p'"
proof (induction cs arbitrary: S p R)
  case Nil
  then show ?case by (auto simp: env_gains_same intro!: exI [of _ "{#}"])
next
  case (Cons c cs)
  show ?case
  proof (cases "ring_stopped (ring_at p t)")
    case True
    have "covers p R" by (rule covers_subset [OF Cons.prems(2)]) simp
    then show ?thesis using True Cons.prems by (auto simp: env_gains_same intro!: exI [of _ S] exI [of _ "{#}"])
  next
    case False
    obtain p1 where p1: "handle_request L cl t c p = Inr p1" "handle_while_running L cl t cs p1 = Inr p'"
      using Cons.prems(5) False by (auto simp: bind_res_eq_Inr)
    have C: "covers p (cqe_refs c + (cqes_refs cs + R))" using Cons.prems(2) by (simp add: ac_simps)
    obtain S1 X where 1: "well_formed S1 p1" "env_gains n X (env p) (env p1)" "covers p1 (cqes_refs cs + R + X)" "armed_safe role p1"
      using handle_request_account [OF Cons.prems(1) C Cons.prems(3,4) p1(1)] by blast
    obtain S' Y where 2: "well_formed S' p'" "env_gains n Y (env p1) (env p')" "covers p' (R + X + Y)" "armed_safe role p'"
      using Cons.IH [OF 1(1) _ 1(4) Cons.prems(4) p1(2), of "R + X"] 1(3) by (auto simp: ac_simps)
    show ?thesis using env_gains_trans [OF 1(2) 2(2)] 2 by (auto simp: ac_simps)
  qed
qed

text \<open>The completions at the head of a queue are outstanding.\<close>

lemma queued_split:
  assumes "t \<le> n" and "cq (rings (env p) t) = ts @ ds"
  obtains Q where "queued n (env p) = cqes_refs ts + cqes_refs ds + Q"
    and "outstanding n D p = cqes_refs ts + (ledger n (env p) - D + (cqes_refs ds + Q))"
    and "outstanding n D p - cqes_refs ts = ledger n (env p) - D + (cqes_refs ds + Q)"
proof -
  obtain Q where Q: "queued n (env p) = cqes_refs ts + cqes_refs ds + Q"
    using queue_of_queued [OF assms(1), of "env p"] assms(2) by (auto simp: queue_of_cqes mset_subset_eq_exists_conv)
  have o: "outstanding n D p = cqes_refs ts + (ledger n (env p) - D + (cqes_refs ds + Q))"
    unfolding outstanding_def Q by (simp only: ac_simps)
  have "outstanding n D p - cqes_refs ts = ledger n (env p) - D + (cqes_refs ds + Q)"
    unfolding o by (simp only: add_diff_cancel_left')
  from that [OF Q o this] show thesis .
qed

lemma queued_whole:
  assumes "t \<le> n" and "cq (rings (env p) t) = ts @ ds"
  shows "cqes_refs ts + (outstanding n D p - cqes_refs ts) = outstanding n D p"
proof -
  obtain Q where "outstanding n D p = cqes_refs ts + (ledger n (env p) - D + (cqes_refs ds + Q))"
    "outstanding n D p - cqes_refs ts = ledger n (env p) - D + (cqes_refs ds + Q)"
    by (rule queued_split [OF assms])
  then show ?thesis by (simp only:)
qed

lemma accounted_covers:
  assumes "accounted_for n D p" and "t \<le> n" and "cq (rings (env p) t) = ts @ ds"
  shows "covers p (cqes_refs ts + (outstanding n D p - cqes_refs ts))"
  using assms(1) unfolding queued_whole [OF assms(2,3)] by (simp only: accounted_for_def)

lemma outstanding_handled:
  assumes D: "D \<subseteq># ledger n (env p)" and t: "t \<le> n" and cq: "cq (rings (env p) t) = ts @ ds"
    and g: "env_gains n X (env p) (env p1)" and cq1: "cq (rings (env p1) t) = ts @ ds"
    and u: "cq u = ds" "ring_refs u = ring_refs (rings (env p1) t)"
  shows "outstanding n D (p1\<lparr>env := (env p1)\<lparr>rings := (rings (env p1))(t := u)\<rparr>\<rparr>) = outstanding n D p - cqes_refs ts + X"
    and "ledger n ((env p1)\<lparr>rings := (rings (env p1))(t := u)\<rparr>) = ledger n (env p1)"
proof -
  let ?s = "(env p1)\<lparr>rings := (rings (env p1))(t := u)\<rparr>"
  obtain Q where Q: "queued n (env p) = cqes_refs ts + cqes_refs ds + Q"
    and o: "outstanding n D p = cqes_refs ts + (ledger n (env p) - D + (cqes_refs ds + Q))"
    and d: "outstanding n D p - cqes_refs ts = ledger n (env p) - D + (cqes_refs ds + Q)"
    by (rule queued_split [OF t cq])
  let ?R = "ledger n (env p) - D + (cqes_refs ds + Q)"
  have q1: "queued n (env p1) = cqes_refs ts + cqes_refs ds + Q" using g Q by (simp add: env_gains_def)
  have "queued n ?s + cqes_refs (ts @ ds) = queued n (env p1) + cqes_refs ds"
    using queued_set [OF t u(1), of "env p1"] cq1 by simp
  then have q: "queued n ?s = cqes_refs ds + Q" using q1 by (simp add: ac_simps)
  show l: "ledger n ?s = ledger n (env p1)" by (rule ledger_set [OF t u(2)])
  have "outstanding n D p1 = cqes_refs ts + ?R + X" using outstanding_grows [OF D g] o by simp
  moreover have "outstanding n D p1 = cqes_refs ts + (ledger n (env p1) - D + (cqes_refs ds + Q))"
    unfolding outstanding_def q1 by (simp only: ac_simps)
  ultimately have "ledger n (env p1) - D + (cqes_refs ds + Q) = ?R + X" by (simp only: add.assoc add_left_cancel)
  then show "outstanding n D (p1\<lparr>env := ?s\<rparr>) = outstanding n D p - cqes_refs ts + X"
    using l q unfolding d by (simp add: outstanding_def)
qed

lemma accounted_handled:
  assumes R: "accounted_for n D p" and t: "t \<le> n" and cq: "cq (rings (env p) t) = ts @ ds"
    and g: "env_gains n X (env p) (env p1)" and cq1: "cq (rings (env p1) t) = ts @ ds"
    and C: "covers p1 (outstanding n D p - cqes_refs ts + X)"
    and u: "cq u = ds" "ring_refs u = ring_refs (rings (env p1) t)"
  shows "accounted_for n D (p1\<lparr>env := (env p1)\<lparr>rings := (rings (env p1))(t := u)\<rparr>\<rparr>)"
proof -
  have D: "D \<subseteq># ledger n (env p)" using R by (simp add: accounted_for_def)
  have "ledger n (env p1) = ledger n (env p) + X" using g by (simp only: env_gains_def)
  from ledger_grows [OF D this] have "D \<subseteq># ledger n (env p1)" .
  then show ?thesis using R C outstanding_handled [OF D t cq g cq1 u] by (simp add: accounted_for_def)
qed

lemma cancel_everything_refs:
  assumes "cancel_everything L ds u = Inr u'"
  shows "ring_refs u' = ring_refs u" and "cq u' = []"
proof -
  have r: "lu_room L (sq (consume_all u))"
    using assms by (cases "lu_room L (sq (consume_all u))") (auto simp: cancel_everything_def Let_def get_sqe_def)
  have e: "ring_refs (u\<lparr>cq := [], sq := sq u @ [prep L PrepCancelAny blank_sqe]\<rparr>) = ring_refs u"
    using ring_refs_sq [of "u\<lparr>cq := []\<rparr>" "[prep L PrepCancelAny blank_sqe]"] by simp
  show "ring_refs u' = ring_refs u" "cq u' = []"
    using assms r e
    by (auto simp: cancel_everything_def Let_def get_sqe_room consume_all_def arrive_def consume_def)
qed

text \<open>What a batch consists of.\<close>

lemma process_batch_cases:
  assumes e: "process_batch L cl t during p = Inr p'"
  defines "ts \<equiv> take URING_PEEK_CQES_BATCH (cq (rings (env p) t))"
    and "ds \<equiv> drop URING_PEEK_CQES_BATCH (cq (rings (env p) t))"
  obtains p1 u where "handle_while_running L cl t ts p = Inr p1" and "cq (rings (env p1) t) = ts @ ds"
    and "u = consume (length ts) (rings (env p1) t)" and "cq u = ds" and "ring_refs u = ring_refs (rings (env p1) t)"
    and "(if ring_stopped u then on_ring t (cancel_everything L during) else Inr)
      (p1\<lparr>env := (env p1)\<lparr>rings := (rings (env p1))(t := u)\<rparr>\<rparr>) = Inr p'"
proof -
  obtain p1 where p1: "handle_while_running L cl t ts p = Inr p1"
    using e by (cases "handle_while_running L cl t ts p") (auto simp: process_batch_def noexcept_def Let_def ring_at_def ts_def split: fault.splits)
  have cq1: "cq (rings (env p1) t) = ts @ ds"
    using ring_adv.while_running_effect [OF p1] by (auto simp: ring_adv.effect_def ring_advances_def ts_def ds_def)
  let ?u = "consume (length ts) (rings (env p1) t)"
  have "noexcept ((if ring_stopped ?u then on_ring t (cancel_everything L during) else Inr)
      (p1\<lparr>env := (env p1)\<lparr>rings := (rings (env p1))(t := ?u)\<rparr>\<rparr>)) = Inr p'"
    using e p1 by (cases "ring_stopped ?u") (simp_all add: process_batch_def Let_def ring_at_def ts_def del: length_take)
  then show thesis
    using that [OF p1 cq1 refl] cq1 by (simp add: consume_def noexcept_def split: sum.splits fault.splits if_splits)
qed

lemma process_batch_account:
  assumes I: "ledger_inv n D role S p" and t: "t \<le> n" and e: "process_batch L cl t during p = Inr p'"
    and m: "may_deliver n D p' later"
  shows "\<exists>S'. ledger_inv n (D + delivered later) role S' p'"
proof -
  let ?cq = "cq (rings (env p) t)"
  let ?ts = "take URING_PEEK_CQES_BATCH ?cq" and ?ds = "drop URING_PEEK_CQES_BATCH ?cq"
  have W: "well_formed S p" and R: "accounted_for n D p" and A: "armed_safe role p"
    using I by (simp_all add: ledger_inv_def)
  have cq: "?cq = ?ts @ ?ds" by simp
  obtain p1 u where p1: "handle_while_running L cl t ?ts p = Inr p1" and cq1: "cq (rings (env p1) t) = ?ts @ ?ds"
    and u: "cq u = ?ds" "ring_refs u = ring_refs (rings (env p1) t)"
    and rest: "(if ring_stopped u then on_ring t (cancel_everything L during) else Inr)
      (p1\<lparr>env := (env p1)\<lparr>rings := (rings (env p1))(t := u)\<rparr>\<rparr>) = Inr p'"
    by (rule process_batch_cases [OF e])
  obtain S' X where 1: "well_formed S' p1" "env_gains n X (env p) (env p1)"
    "covers p1 (outstanding n D p - cqes_refs ?ts + X)" "armed_safe role p1"
    using handle_while_account [OF W accounted_covers [OF R t cq] A t p1] by blast
  let ?p2 = "p1\<lparr>env := (env p1)\<lparr>rings := (rings (env p1))(t := u)\<rparr>\<rparr>"
  have R2: "accounted_for n D ?p2" by (rule accounted_handled [OF R t cq 1(2) cq1 1(3) u])
  have D': "D \<subseteq># D + delivered later" "D + delivered later \<subseteq># ledger n (env p')"
    "TokenRef multishot_token \<notin># D + delivered later"
    using m R by (simp_all add: may_deliver_def accounted_for_def)
  have fin: "\<exists>S'. ledger_inv n (D + delivered later) role S' p'"
    if s: "p' = ?p2\<lparr>env := s\<rparr>" "ledger n s = ledger n (env ?p2)" "queued n s \<subseteq># queued n (env ?p2)" for s
  proof -
    have "accounted_for n (D + delivered later) (?p2\<lparr>env := s\<rparr>)"
      by (rule accounted_less [OF R2 s(2,3) D'(1) _ D'(3)]) (use D'(2) s in simp)
    then have "ledger_inv n (D + delivered later) role S' p'" using 1 s(1) by (simp add: ledger_inv_def)
    then show ?thesis by blast
  qed
  show ?thesis
  proof (cases "ring_stopped u")
    case False
    then have "p' = ?p2" using rest by simp
    then show ?thesis by (intro fin [of "env ?p2"]) simp_all
  next
    case True
    then obtain u' where u': "cancel_everything L during u = Inr u'"
      and p': "p' = ?p2\<lparr>env := (env ?p2)\<lparr>rings := (rings (env ?p2))(t := u')\<rparr>\<rparr>"
      using rest by (auto simp: on_ring_def on_env_def upd_ring_def bind_res_eq_Inr)
    note c = cancel_everything_refs [OF u']
    let ?s = "(env ?p2)\<lparr>rings := (rings (env ?p2))(t := u')\<rparr>"
    have "ledger n ?s = ledger n (env ?p2)" by (rule ledger_set [OF t]) (simp add: c)
    moreover have "queued n ?s + cqes_refs ?ds = queued n (env ?p2)"
      using queued_set [OF t c(2), of "env ?p2"] u(1) by simp
    then have "queued n ?s \<subseteq># queued n (env ?p2)" by (metis mset_subset_eq_add_left)
    ultimately show ?thesis by (intro fin [of ?s]) (simp_all add: p')
  qed
qed

lemma process_all_cases:
  assumes e: "process_all L cl t p = Inr p'"
  defines "cs \<equiv> cq (rings (env p) t)"
  obtains p1 u where "handle_each L cl t cs p = Inr p1" and "cq (rings (env p1) t) = cs @ []"
    and "cq u = []" and "ring_refs u = ring_refs (rings (env p1) t)"
    and "p' = p1\<lparr>env := (env p1)\<lparr>rings := (rings (env p1))(t := u)\<rparr>\<rparr>"
proof -
  obtain p1 where p1: "handle_each L cl t cs p = Inr p1"
    using e by (cases "handle_each L cl t cs p") (auto simp: process_all_def noexcept_def Let_def ring_at_def cs_def split: fault.splits)
  have cq1: "cq (rings (env p1) t) = cs @ []"
    using ring_adv.handle_each_effect [OF p1] by (auto simp: ring_adv.effect_def ring_advances_def cs_def)
  have p': "p' = p1\<lparr>env := (env p1)\<lparr>rings := (rings (env p1))(t := consume (length cs) (rings (env p1) t))\<rparr>\<rparr>"
    using e p1 by (simp add: process_all_def Let_def noexcept_def ring_at_def cs_def)
  show thesis by (rule that [OF p1 cq1 _ _ p']) (use cq1 in \<open>simp_all add: consume_def\<close>)
qed

lemma process_all_account:
  assumes I: "ledger_inv n D role S p" and t: "t \<le> n" and e: "process_all L cl t p = Inr p'"
  shows "\<exists>S'. ledger_inv n D role S' p'"
proof -
  let ?cq = "cq (rings (env p) t)"
  have W: "well_formed S p" and R: "accounted_for n D p" and A: "armed_safe role p"
    using I by (simp_all add: ledger_inv_def)
  have cq: "?cq = ?cq @ []" by simp
  obtain p1 u where p1: "handle_each L cl t ?cq p = Inr p1" and cq1: "cq (rings (env p1) t) = ?cq @ []"
    and u: "cq u = []" "ring_refs u = ring_refs (rings (env p1) t)"
    and p': "p' = p1\<lparr>env := (env p1)\<lparr>rings := (rings (env p1))(t := u)\<rparr>\<rparr>"
    by (rule process_all_cases [OF e])
  obtain S' X where 1: "well_formed S' p1" "env_gains n X (env p) (env p1)"
    "covers p1 (outstanding n D p - cqes_refs ?cq + X)" "armed_safe role p1"
    using handle_each_account [OF W accounted_covers [OF R t cq] A t p1] by blast
  have "ledger_inv n D role S' p'"
    using accounted_handled [OF R t cq 1(2) cq1 1(3) u] 1 by (simp add: ledger_inv_def p')
  then show ?thesis by blast
qed

end
