(* ===== verification/Handler_Relations.thy ===== *)
theory Handler_Relations
  imports Loop_Properties
begin

text \<open>
  Relations between the coroutines and tasks before and after the handling of completions. A relation
  that every primitive step of the handlers satisfies holds across a whole batch, a wait, and the
  messages of a termination; the rings are the subject of Ring_Effects.
\<close>

lemma on_ring_env_only: "on_ring t f p = Inr p' \<Longrightarrow> \<exists>s. p' = p\<lparr>env := s\<rparr>"
  by (auto simp: on_ring_def on_env_Inr)

lemma noexcept_Inr [simp]: "noexcept r = Inr p \<longleftrightarrow> r = Inr p"
  by (auto simp: noexcept_def split: sum.splits fault.splits)

text \<open>The functions that are called with a connection make coroutines that start where they may.\<close>

definition starts_in :: "('l \<Rightarrow> bool) \<Rightarrow> ('l, 'f) client \<Rightarrow> bool" where
  "starts_in start cl \<longleftrightarrow> (\<forall>g c. start (call_func cl g c))"

locale handler_relation =
  fixes rel :: "('l, 'v, 'f) world \<Rightarrow> ('l, 'v, 'f) world \<Rightarrow> bool" and start :: "'l \<Rightarrow> bool"
  assumes rel_refl: "rel p p"
    and rel_trans: "rel p q \<Longrightarrow> rel q r \<Longrightarrow> rel p r"
    and rel_env: "rel p (p\<lparr>env := s\<rparr>)"
    and rel_objs: "rel p (p\<lparr>objs := H\<rparr>)"
    and rel_alloc: "rel p (p\<lparr>objs := H, fresh := Suc (fresh p)\<rparr>)"
    and rel_create: "start l \<Longrightarrow> rel p (snd (create_coroutine l p))"
    and rel_enqueue: "enqueue t tk p = Inr p' \<Longrightarrow> rel p p'"
    and rel_wake: "wake ptr p = Inr p' \<Longrightarrow> rel p p'"
begin

lemma rel_on_env: "on_env f p = Inr p' \<Longrightarrow> rel p p'"
  by (auto simp: on_env_Inr rel_env)

lemma rel_on_ring: "on_ring t f p = Inr p' \<Longrightarrow> rel p p'"
  unfolding on_ring_def by (rule rel_on_env)

lemma rel_delete: "rel p (delete_obj a p)"
  by (simp add: delete_obj_def rel_objs)

lemma rel_alloc_obj: "alloc_obj ob p = (a, p') \<Longrightarrow> rel p p'"
  by (auto simp: alloc_obj_simps rel_alloc)

lemma rel_invoke:
  assumes "starts_in start cl" and "invoke_with_conn L cl t f c p = Inr (tk, sh, p')"
  shows "rel p p'"
proof -
  obtain l s where "start l" and "p' = (snd (create_coroutine l p))\<lparr>env := s\<rparr>"
    using assms by (auto simp: invoke_with_conn_def bind_res_eq_Inr on_env_Inr split_beta starts_in_def split: option.splits)
  then show ?thesis using rel_trans [OF rel_create rel_env] by blast
qed

lemma rel_notify_main:
  assumes "notify_main_ring_release_fd L t fd p = Inr p'"
  shows "rel p p'"
proof -
  obtain a p1 where a: "alloc_obj (Token (control_token Op_MainRingCloseDirectSocket)) p = (a, p1)" by fastforce
  then have "\<exists>s. p' = p1\<lparr>env := s\<rparr>"
    using assms by (auto simp: notify_main_ring_release_fd_def dest!: on_ring_env_only)
  then show ?thesis using rel_trans [OF rel_alloc_obj [OF a] rel_env] by blast
qed

lemma rel_send_quit:
  assumes "send_quit L t fd p = Inr p'"
  shows "rel p p'"
proof -
  obtain a p1 where a: "alloc_obj (Token (control_token Op_Quit)) p = (a, p1)" by fastforce
  then have "\<exists>s. p' = p1\<lparr>env := s\<rparr>"
    using assms by (auto simp: send_quit_def bind_res_eq_Inr split_beta Let_def dest!: on_ring_env_only)
  then show ?thesis using rel_trans [OF rel_alloc_obj [OF a] rel_env] by blast
qed

lemma rel_notify_workers: "notify_workers_to_stop L t fds p = Inr p' \<Longrightarrow> rel p p'"
  by (induction fds arbitrary: p) (auto simp: rel_refl bind_res_eq_Inr dest: rel_send_quit intro: rel_trans)

lemma rel_quits: "quits_sent L p = Inr p' \<Longrightarrow> rel p p'"
  by (auto simp: quits_sent_def bind_res_eq_Inr Let_def notify_self_quit_def
      dest!: rel_notify_workers rel_send_quit intro: rel_trans [OF rel_trans [OF rel_env]])

lemma rel_macc:
  assumes "starts_in start cl"
  shows "macc_spawn L cl t f fds p = Inr p' \<Longrightarrow> rel p p'"
proof (induction fds arbitrary: p)
  case (Cons fd fds)
  then obtain tk tmp p1 p2 p3 where
    1: "invoke_with_conn L cl t f (TcpConnection_ctor fd) p = Inr (tk, tmp, p1)"
    and 2: "on_env (\<lambda>s. bind_res (TcpConnection_dtor L t tmp s) (\<lambda>(c', s'). Inr s')) p1 = Inr p2"
    and 3: "enqueue t tk p2 = Inr p3" and 4: "macc_spawn L cl t f fds p3 = Inr p'"
    by (auto simp: bind_res_eq_Inr)
  show ?case
    by (rule rel_trans [OF rel_invoke [OF assms 1] rel_trans [OF rel_on_env [OF 2]
          rel_trans [OF rel_enqueue [OF 3] Cons.IH [OF 4]]]])
qed (simp add: rel_refl)

lemma rel_msg_conn:
  assumes "starts_in start cl" and "impl_handle_msg_conn L cl t c p = Inr p'"
  shows "rel p p'"
proof -
  obtain fd task p2 conn tk conn' p3 p4 p5 where
    2: "on_ring t (\<lambda>u. Inr (u\<lparr>direct_map := (direct_map u)(fd := None)\<rparr>)) (delete_obj (cqe_data c) p) = Inr p2"
    and 3: "invoke_with_conn L cl t task conn p2 = Inr (tk, conn', p3)"
    and 4: "enqueue t tk p3 = Inr p4"
    and 5: "notify_main_ring_release_fd L t fd p4 = Inr p5"
    and 6: "on_env (\<lambda>s. bind_res (TcpConnection_dtor L t conn' s) (\<lambda>(c', s'). Inr s')) p5 = Inr p'"
    using assms(2) by (auto simp: impl_handle_msg_conn_def Let_def ConnTaskHelper_move_out_def bind_res_eq_Inr
        simp del: on_ring_pure)
  show ?thesis
    by (rule rel_trans [OF rel_delete rel_trans [OF rel_on_ring [OF 2] rel_trans [OF rel_invoke [OF assms(1) 3]
          rel_trans [OF rel_enqueue [OF 4] rel_trans [OF rel_notify_main [OF 5] rel_on_env [OF 6]]]]]])
qed

lemma rel_push: "push_awaiting t r p = Inr p' \<Longrightarrow> rel p p'"
  by (auto simp: push_awaiting_def rel_refl simp del: on_ring_pure dest: rel_on_ring split: if_splits)

lemma rel_token:
  assumes "handle_token L t c tk p = Inr p'"
  shows "rel p p'"
  using assms
  by (cases "tok_op tk")
    (auto simp: handle_token_def Let_def bind_res_eq_Inr rel_delete simp del: on_ring_pure
      dest!: rel_wake rel_push rel_on_ring intro: rel_trans [OF _ rel_delete] rel_trans [OF rel_objs] rel_trans)

lemma rel_macc_task: "starts_in start cl \<Longrightarrow> impl_handle_macc_task L cl t c p = Inr p' \<Longrightarrow> rel p p'"
  by (auto simp: impl_handle_macc_task_def MAccTaskToken_move_out_def Let_def bind_res_eq_Inr
      dest!: rel_macc intro: rel_trans [OF rel_delete])

lemma rel_request:
  assumes "starts_in start cl" and "handle_request L cl t c p = Inr p'"
  shows "rel p p'"
  using assms(2)
  by (auto simp: handle_request_def bind_res_eq_Inr RingMsgTask_move_out_def rel_refl split: if_splits
      dest: rel_msg_conn [OF assms(1)] rel_macc_task [OF assms(1)] rel_token
      dest!: rel_enqueue intro: rel_trans [OF rel_trans [OF rel_objs] rel_delete])

lemma rel_while:
  assumes "starts_in start cl"
  shows "handle_while_running L cl t cs p = Inr p' \<Longrightarrow> rel p p'"
  by (induction cs arbitrary: p)
    (auto simp: bind_res_eq_Inr rel_refl split: if_splits dest!: rel_request [OF assms] intro: rel_trans)

lemma rel_each:
  assumes "starts_in start cl"
  shows "handle_each L cl t cs p = Inr p' \<Longrightarrow> rel p p'"
  by (induction cs arbitrary: p) (auto simp: bind_res_eq_Inr rel_refl dest!: rel_request [OF assms] intro: rel_trans)

lemma rel_batch:
  assumes "starts_in start cl" and "process_batch L cl t during p = Inr p'"
  shows "rel p p'"
  using assms(2)
  by (auto simp: process_batch_def Let_def bind_res_eq_Inr simp del: on_ring_pure split: if_splits
      dest!: rel_while [OF assms(1)] rel_on_ring intro: rel_trans)

lemma rel_all:
  assumes "starts_in start cl" and "process_all L cl t p = Inr p'"
  shows "rel p p'"
  using assms(2)
  by (auto simp: process_all_def Let_def bind_res_eq_Inr simp del: on_ring_pure
      dest!: rel_each [OF assms(1)] rel_on_ring intro: rel_trans)

lemma rel_wait:
  "starts_in start cl \<Longrightarrow> wait_and_handle L cl t arrived during p = Inr p' \<Longrightarrow> rel p p'"
  by (auto simp: wait_and_handle_def dest!: rel_batch intro: rel_trans [OF rel_env])

end

end
