(* ===== verification/Ledger_Waits.thy ===== *)
theory Ledger_Waits
  imports Ledger_Batch Handler_Relations Ring_Properties
begin

text \<open>
  The other direction of the account: every task that waits for an operation has its token among the
  outstanding references, so a completion for it is still to come or lies in a queue. Only awaiting an
  operation makes a task wait, and it queues the entry; only the handler of its completion takes the
  reference off, and it makes the task runnable.
\<close>

declare split_paired_All [simp del] split_paired_Ex [simp del]

section \<open>Steps after which nobody waits anew\<close>

definition calm :: "('l, 'v, 'f) world \<Rightarrow> ('l, 'v, 'f) world \<Rightarrow> bool" where
  "calm p p' \<longleftrightarrow>
     (\<forall>h f' l a. frames p' h = Some f' \<longrightarrow> costate f' = Suspended l (AwToken a) \<longrightarrow>
        (\<exists>f. frames p h = Some f \<and> costate f = costate f')) \<and>
     (\<forall>q. in_range p' q \<longrightarrow> pending (task_at p' q) \<longrightarrow>
        in_range p q \<and> pending (task_at p q) \<and> awaiting_handle (task_at p q) = awaiting_handle (task_at p' q) \<and>
        (valid (task_at p' q) \<longrightarrow> valid (task_at p q)))"

lemma calm_refl: "calm p p"
  by (auto simp: calm_def)

lemma calm_trans: "calm p q \<Longrightarrow> calm q r \<Longrightarrow> calm p r"
  unfolding calm_def by metis

lemma calm_waiting: "calm p p' \<Longrightarrow> waiting p' q a \<Longrightarrow> waiting p q a"
  unfolding calm_def waiting_def by metis

lemma calm_same: "frames p' = frames p \<Longrightarrow> loops p' = loops p \<Longrightarrow> calm p p'"
  by (auto simp: calm_def in_range_def task_at_def)

lemma calm_create: "calm p (snd (create_coroutine l p))"
  by (auto simp: calm_def create_coroutine_def in_range_def task_at_def)

lemma calm_enqueue:
  assumes "enqueue t tk p = Inr p'"
  shows "calm p p'"
proof -
  obtain h f where h: "task_handle tk = Some h" and f: "frames p h = Some f"
    and p': "p' = p\<lparr>loops := (loops p)(t := loops p t @
        [\<lparr>sched_task = tk, awaiting_handle = Some h, valid = True, pending = False\<rparr>]),
      frames := (frames p)(h \<mapsto> f\<lparr>promise := set_chain_root (Some (t, length (loops p t))) (promise f)\<rparr>)\<rparr>"
    using assms by (auto simp: enqueue_def Let_def upd_promise_def split: option.splits)
  have "in_range p q \<and> task_at p q = task_at p' q" if "in_range p' q" "pending (task_at p' q)" for q
    using that by (auto simp: p' in_range_def task_at_def nth_append split: if_splits dest!: less_antisym)
  then show ?thesis using f by (auto simp: calm_def p')
qed

lemma calm_wake:
  assumes "wake ptr p = Inr p'"
  shows "calm p p'"
proof -
  obtain q where "ptr = Some q" using assms by (cases ptr) (auto simp: wake_def deref_task_def)
  from wake_cases [OF assms [unfolded this]] show ?thesis by (auto simp: calm_def set_pending_def)
qed

interpretation calm_handlers: handler_relation calm "\<lambda>l. True"
  by unfold_locales (auto intro: calm_refl calm_trans calm_same calm_create calm_enqueue calm_wake)

lemma starts_anywhere: "starts_in (\<lambda>l. True) cl"
  by (simp add: starts_in_def)

lemma grow_calm: "grow p p' \<Longrightarrow> calm p p'"
proof (induction rule: grow.induct)
  case (grow_frame q l tk q')
  then show ?case using calm_trans [OF _ calm_create [of q l]] by simp
next
  case (grow_msg q l tk q1 a q')
  then show ?case using calm_trans [OF calm_trans [OF _ calm_create [of q l]] calm_handlers.rel_alloc_obj] by simp
next
  case (grow_spawn q t l q')
  then have "enqueue t (fst (create_coroutine l q)) (snd (create_coroutine l q)) = Inr q'"
    by (simp add: emplace_back_def split_beta)
  then show ?case by (rule calm_trans [OF calm_trans [OF grow_spawn.IH calm_create] calm_enqueue])
qed (auto intro: calm_refl calm_trans calm_handlers.rel_env calm_handlers.rel_alloc_obj)

section \<open>Every wait is accounted for\<close>

definition attended :: "('l, 'v, 'f) world \<Rightarrow> ref multiset \<Rightarrow> bool" where
  "attended p R \<longleftrightarrow> (\<forall>q a. waiting p q a \<longrightarrow> TokenRef a \<in># R)"

lemma attended_mono: "attended p R \<Longrightarrow> R \<subseteq># R' \<Longrightarrow> attended p R'"
  unfolding attended_def by (meson mset_subset_eqD)

lemma attended_calm: "attended p R \<Longrightarrow> calm p p' \<Longrightarrow> attended p' R"
  unfolding attended_def using calm_waiting by blast

lemma attended_step:
  assumes A: "attended p (outstanding n D p)" and D: "D \<subseteq># ledger n (env p)" and g: "env_gains n X (env p) (env p')"
    and w: "\<And>q a. waiting p' q a \<Longrightarrow> waiting p q a \<or> TokenRef a \<in># X"
  shows "attended p' (outstanding n D p')"
  unfolding attended_def outstanding_grows [OF D g]
proof (intro allI impI)
  fix q a assume "waiting p' q a"
  from w [OF this] show "TokenRef a \<in># outstanding n D p + X" using A by (auto simp: attended_def)
qed

lemma attended_same:
  assumes "attended p (outstanding n D p)" and "calm p p'" and "env p' = env p"
  shows "attended p' (outstanding n D p')"
  using attended_calm [OF assms(1,2)] assms(3) by (simp only: outstanding_def)

text \<open>The token that a task waits for names it.\<close>

lemma waiting_names:
  assumes W: "well_formed S p" and w: "waiting p q a"
  shows "\<exists>tk. objs p a = Some (Token tk) \<and> chain_task tk = Some q \<and> default_op (tok_op tk) \<and> a \<noteq> multishot_token"
proof -
  obtain h f l where q: "in_range p q" "valid (task_at p q)" and h: "awaiting_handle (task_at p q) = Some h"
    "frames p h = Some f" "costate f = Suspended l (AwToken a)"
    using w by (auto simp: waiting_def)
  have "at_rest (frames p) (objs p) (S q) q (task_at p q)"
    by (rule others_at_rest [OF W [unfolded well_formed_def] q(1)]) simp
  then have "top_ok (frames p) (objs p) q h" using q(2) h(1) by (simp add: at_rest_def)
  then show ?thesis using h by (auto simp: top_ok_def aw_ok_def)
qed

section \<open>Runs of coroutines\<close>

lemma waiting_suspended:
  assumes s: "suspended_at ptr h f k w p p'" and U: "untouched S S' ptr p p'" and q: "waiting p' q a"
  shows "waiting p q a \<or> w = AwToken a"
proof (cases "w = AwToken a")
  case False
  obtain h' f' l where h': "in_range p' q" "awaiting_handle (task_at p' q) = Some h'" "frames p' h' = Some f'"
    "costate f' = Suspended l (AwToken a)"
    using q by (auto simp: waiting_def)
  then have "h' \<noteq> h" using s False by (auto simp: suspended_at_def)
  moreover from this have "q \<noteq> ptr" using h'(2) s by (auto simp: suspended_at_def)
  moreover have "in_range p q" using s h'(1) by (simp add: suspended_at_def)
  ultimately have "frames p h' = Some f'" "task_at p' q = task_at p q"
    using s U h'(3) by (auto simp: suspended_at_def untouched_def)
  then show ?thesis using q h' \<open>in_range p q\<close> by (simp add: waiting_def)
qed simp

lemma calm_enter:
  assumes "enter h p = Inr (c', p')"
  shows "calm p p'"
proof -
  obtain f w where f: "frames p h = Some f" and l: "loops p' = loops p" and F: "frames p' = entered h f w (frames p)"
    by (rule enter_effect [OF assms])
  have "frames p g = Some f'" if "frames p' g = Some f'" "costate f' = Suspended l (AwToken a)" for g f' l a
    using that by (auto simp: F entered_def split: awaiter.splits if_splits)
  then show ?thesis using l by (auto simp: calm_def in_range_def task_at_def)
qed

lemma calm_finish: "finish h g p = Inr (c', p') \<Longrightarrow> frames p h = Some f \<Longrightarrow> calm p p'"
  by (drule (1) finish_effect(1)) (auto simp: calm_def in_range_def task_at_def)

lemma calm_after_resume:
  assumes "after_resume ptr p = Inr p'" and "in_range p ptr"
  shows "calm p p'"
  using after_resume_effect [OF assms] by (auto simp: calm_def)

context ledger_code
begin

lemma perform_attends:
  assumes I: "ledger_run n D role S ptr (Exec h l inp) p" and e: "perform t h (code l inp) p = Inr (c', p')"
    and t: "t \<le> n" and U: "untouched S S' ptr p p'" and A: "attended p (outstanding n D p)"
  shows "attended p' (outstanding n D p')"
proof -
  have run: "run_inv S ptr (Exec h l inp) p" and D: "D \<subseteq># ledger n (env p)"
    using I by (auto simp: ledger_run_def accounted_for_def)
  obtain ys f where f: "frames p h = Some f" and b: "bounded p" and r: "in_range p ptr"
    and pk: "pr_ok ptr (if ys = [] then None else Some (last ys)) (promise f)"
    by (rule exec_facts [OF run])
  have tc: "this_chain_task (promise f) = Some ptr" using pk by (simp add: pr_ok_def)
  have acc: "accounted_action n role l (code l inp)" and sa: "safe_action (code l inp)"
    using accounted safe by (simp_all add: safe_code_def)
  show ?thesis
  proof (cases "code l inp")
    case (CoReturn v)
    then have e': "finish h (return_value v) p = Inr (c', p')" using e by (simp add: perform_def)
    show ?thesis by (rule attended_same [OF A calm_finish [OF e' f]]) (simp add: finish_effect(1) [OF e' f])
  next
    case (CoThrow x)
    then have e': "finish h (unhandled_exception x) p = Inr (c', p')" using e by (simp add: perform_def)
    show ?thesis by (rule attended_same [OF A calm_finish [OF e' f]]) (simp add: finish_effect(1) [OF e' f])
  next
    case (CoAwaitTask g k)
    have ne: "h \<noteq> fresh p" using bounded_frame [OF b f] by simp
    note p' = await_task_effect [OF e [unfolded CoAwaitTask] f ne]
    have "calm p p'" by (auto simp: calm_def p' in_range_def task_at_def)
    then show ?thesis using attended_same [OF A] p'(3) by blast
  next
    case (CoAwaitUring op' pr k)
    note p' = await_uring_effect [OF e [unfolded CoAwaitUring] f tc r]
    have "ledger_prep n pr" using acc CoAwaitUring by (simp add: accounted_action_def)
    then have "env_gains n {#TokenRef (fresh p)#} (env p) (env p')" using p'(4) t unfolding ledger_prep_def by blast
    then show ?thesis
      by (rule attended_step [OF A D]) (use waiting_suspended [OF p'(2) U] in auto)
  next
    case (CoAwaitPending k)
    note p' = await_pending_effect [OF e [unfolded CoAwaitPending] f tc r]
    have "env_gains n {#} (env p) (env p')" by (simp add: env_gains_same p'(3))
    then show ?thesis by (rule attended_step [OF A D]) (use waiting_suspended [OF p'(2) U] in auto)
  next
    case (CoAwaitMshot pr k)
    obtain tk where p': "suspended_at ptr h f k AwNothing p p'" "pr t multishot_token (env p) = Inr (env p')"
      by (rule await_mshot_effect [OF e [unfolded CoAwaitMshot] f tc r])
    have "ledger_prep n pr" using acc CoAwaitMshot by (simp add: accounted_action_def)
    then have "env_gains n {#TokenRef multishot_token#} (env p) (env p')"
      using p'(2) t unfolding ledger_prep_def by blast
    then show ?thesis by (rule attended_step [OF A D]) (use waiting_suspended [OF p'(1) U] in auto)
  next
    case (CoStep g k)
    obtain x where g: "g t p = Inr (x, p')" using e CoStep by (auto simp: perform_def bind_res_eq_Inr)
    have "grow p p'" using sa CoStep g unfolding safe_action_def safe_step_def by fastforce
    then have c: "calm p p'" by (rule grow_calm)
    have s: "adds n p p'" using acc CoStep g t unfolding accounted_action_def ledger_step_def by fastforce
    obtain X where X: "ledger n (env p') = ledger n (env p) + X" by (rule addsE [OF s])
    then have "env_gains n X (env p) (env p')" by (simp add: env_gains_def addsD(7) [OF s])
    then show ?thesis by (rule attended_step [OF A D]) (use calm_waiting [OF c] in blast)
  qed
qed

lemma cstep_attends:
  assumes I: "ledger_run n D role S ptr c p" and e: "cstep code t c p = Inr (c', p')" and t: "t \<le> n"
    and A: "attended p (outstanding n D p)"
  shows "attended p' (outstanding n D p')"
proof -
  have run: "run_inv S ptr c p" using I by (simp add: ledger_run_def)
  obtain S' where U: "untouched S S' ptr p p'" using cstep_ok [OF run safe, of t] e by (auto simp: step_ok_def)
  show ?thesis
  proof (cases c)
    case (Enter h)
    then have e': "enter h p = Inr (c', p')" using e by (simp add: cstep_def)
    have "env p' = env p" by (rule enter_effect [OF e'])
    then show ?thesis by (rule attended_same [OF A calm_enter [OF e']])
  next
    case (Exec h l inp)
    then show ?thesis using perform_attends [OF _ _ t U A] I e by (simp add: cstep_def)
  next
    case Back
    then show ?thesis using A e by (auto simp: cstep_def)
  qed
qed

text \<open>A pass of the task loop keeps the account in both directions.\<close>

lemma pass_attends:
  assumes I: "ledger_inv n D role S p" and t: "t \<le> n" and ret: "TaskLoop_run code t p = Some (Inr p')"
    and A: "attended p (outstanding n D p)"
  shows "\<exists>S'. ledger_inv n D role S' p' \<and> attended p' (outstanding n D p')"
proof (rule TaskLoop_run_from_keeps
    [where Q = "\<lambda>p. \<exists>S. ledger_inv n D role S p \<and> attended p (outstanding n D p)", OF ret [unfolded TaskLoop_run_def]])
  fix i p p1
  assume "\<exists>S. ledger_inv n D role S p \<and> attended p (outstanding n D p)" and i: "i < length (loops p t)" "runnable (loops p t ! i)"
    and res: "ScheduledTask_resume code (t, i) p = Some (Inr p1)"
  then obtain S where S: "ledger_inv n D role S p" and At: "attended p (outstanding n D p)" by blast
  have r: "in_range p (t, i)" "runnable (task_at p (t, i))" using i by (simp_all add: in_range_def task_at_def)
  obtain h p2 where h: "awaiting_handle (task_at p (t, i)) = Some h"
    and p2: "run_ctl code t (Enter h) p = Some (Inr p2)" "after_resume (t, i) p2 = Inr p1"
    using res by (auto simp: ScheduledTask_resume_def task_at_def split: option.splits sum.splits)
  let ?Q = "\<lambda>c p. \<exists>S. ledger_run n D role S (t, i) c p \<and> attended p (outstanding n D p)"
  have "?Q Back p2"
  proof (rule run_ctl_keeps [where Q = ?Q, OF p2(1)])
    show "?Q (Enter h) p" using ledger_inv_enter [OF S r h] At by blast
  qed (use cstep_keeps [OF _ _ t] cstep_attends [OF _ _ t] in blast)
  then obtain S2 where S2: "ledger_run n D role S2 (t, i) Back p2" and A2: "attended p2 (outstanding n D p2)" by blast
  have r2: "in_range p2 (t, i)" using S2 by (auto simp: ledger_run_def elim: run_invE)
  have "attended p1 (outstanding n D p1)"
    by (rule attended_same [OF A2 calm_after_resume [OF p2(2) r2]]) (rule after_resume_effect(3) [OF p2(2) r2])
  then show "\<exists>S. ledger_inv n D role S p1 \<and> attended p1 (outstanding n D p1)" using ledger_run_leave [OF S2 p2(2)] by blast
qed (use I A in blast)

end

section \<open>Handling completions\<close>

text \<open>Only its own completion takes the reference of an operation off, and it ends the wait.\<close>

lemma handle_request_wakes:
  assumes W: "well_formed S p" and w: "waiting p q a" and r: "TokenRef a \<in># cqe_refs c"
    and e: "handle_request L cl t c p = Inr p'"
  shows "\<not> pending (task_at p' q)"
proof -
  have c: "cqe_ref c = TokenRef a" "a \<noteq> nullptr" using r by (auto simp: cqe_refs_def split: if_splits)
  then have m: "\<not> is_msg RingTask c" "\<not> is_msg RingFuncTask c" "\<not> is_msg MultiAccTask c" "cqe_data c = a"
    by (auto simp: cqe_ref_def split: if_splits)
  obtain tk where tk: "objs p a = Some (Token tk)" "chain_task tk = Some q" "default_op (tok_op tk)"
    using waiting_names [OF W w] by blast
  have "wake (Some q) (p\<lparr>objs := (objs p)(a \<mapsto> Token (tk\<lparr>cqe_res := cqe_result c, cqe_flags := cqe_fl c\<rparr>))\<rparr>) = Inr p'"
    using e m c tk by (cases "tok_op tk") (simp_all add: handle_request_def token_at_def handle_token_def default_op_def)
  from wake_cases(7) [OF this, of q] show ?thesis by (simp add: set_pending_def)
qed

lemma handle_request_attends:
  assumes W: "well_formed S p" and A: "attended p (cqe_refs c + R)" and e: "handle_request L cl t c p = Inr p'"
  shows "attended p' R"
  unfolding attended_def
proof (intro allI impI)
  fix q a assume w: "waiting p' q a"
  have w0: "waiting p q a" by (rule calm_waiting [OF calm_handlers.rel_request [OF starts_anywhere e] w])
  have "TokenRef a \<notin># cqe_refs c"
    using handle_request_wakes [OF W w0 _ e] w by (auto simp: waiting_def)
  then show "TokenRef a \<in># R" using A w0 by (auto simp: attended_def)
qed

lemma handle_each_attends:
  "well_formed S p \<Longrightarrow> covers p (cqes_refs cs + R) \<Longrightarrow> armed_safe role p \<Longrightarrow> t \<le> n \<Longrightarrow>
   handle_each L cl t cs p = Inr p' \<Longrightarrow> attended p (cqes_refs cs + Q) \<Longrightarrow> attended p' Q"
proof (induction cs arbitrary: S p R)
  case (Cons c cs)
  obtain p1 where p1: "handle_request L cl t c p = Inr p1" "handle_each L cl t cs p1 = Inr p'"
    using Cons.prems(5) by (auto simp: bind_res_eq_Inr)
  have C: "covers p (cqe_refs c + (cqes_refs cs + R))" using Cons.prems(2) by (simp add: ac_simps)
  obtain S1 X where 1: "well_formed S1 p1" "covers p1 (cqes_refs cs + R + X)" "armed_safe role p1"
    using handle_request_account [OF Cons.prems(1) C Cons.prems(3,4) p1(1)] by blast
  have "attended p1 (cqes_refs cs + Q)"
    by (rule handle_request_attends [OF Cons.prems(1) _ p1(1)]) (use Cons.prems(6) in \<open>simp add: ac_simps\<close>)
  then show ?case using Cons.IH [OF 1(1) _ 1(3) Cons.prems(4) p1(2), of "R + X"] 1(2) by (simp add: ac_simps)
qed simp

lemma batch_goes_on:
  assumes "(if ring_stopped u then on_ring t (cancel_everything L during) else Inr)
      (p1\<lparr>env := (env p1)\<lparr>rings := (rings (env p1))(t := u)\<rparr>\<rparr>) = Inr p'"
    and "\<not> ring_stopped (ring_at p' t)"
  shows "\<not> ring_stopped u"
  using assms cancel_everything_stopped by (auto simp: ring_at_def on_ring_def on_env_def upd_ring_def bind_res_eq_Inr)

lemma process_batch_attends:
  assumes I: "ledger_inv n D role S p" and t: "t \<le> n" and e: "process_batch L cl t during p = Inr p'"
    and run: "\<not> ring_stopped (ring_at p' t)" and A: "attended p (outstanding n D p)"
  shows "attended p' (outstanding n D p')"
proof -
  let ?cq = "cq (rings (env p) t)"
  let ?ts = "take URING_PEEK_CQES_BATCH ?cq" and ?ds = "drop URING_PEEK_CQES_BATCH ?cq"
  have W: "well_formed S p" and R: "accounted_for n D p" and As: "armed_safe role p"
    using I by (simp_all add: ledger_inv_def)
  have cq: "?cq = ?ts @ ?ds" by simp
  obtain p1 u where p1: "handle_while_running L cl t ?ts p = Inr p1" and cq1: "cq (rings (env p1) t) = ?ts @ ?ds"
    and u0: "u = consume (length ?ts) (rings (env p1) t)"
    and u: "cq u = ?ds" "ring_refs u = ring_refs (rings (env p1) t)"
    and rest: "(if ring_stopped u then on_ring t (cancel_everything L during) else Inr)
      (p1\<lparr>env := (env p1)\<lparr>rings := (rings (env p1))(t := u)\<rparr>\<rparr>) = Inr p'"
    by (rule process_batch_cases [OF e])
  have ns: "\<not> ring_stopped u" by (rule batch_goes_on [OF rest run])
  then have p': "p' = p1\<lparr>env := (env p1)\<lparr>rings := (rings (env p1))(t := u)\<rparr>\<rparr>" using rest by simp
  have "\<not> ring_stopped (ring_at p1 t)" using ns by (simp add: u0 consume_def ring_at_def)
  then have each: "handle_each L cl t ?ts p = Inr p1" using p1 while_running_each by blast
  have C: "covers p (cqes_refs ?ts + (outstanding n D p - cqes_refs ?ts))" by (rule accounted_covers [OF R t cq])
  obtain S' X where g: "env_gains n X (env p) (env p1)"
    using handle_each_account [OF W C As t each] by blast
  have D: "D \<subseteq># ledger n (env p)" using R by (simp add: accounted_for_def)
  have "attended p1 (outstanding n D p - cqes_refs ?ts)"
    by (rule handle_each_attends [OF W C As t each]) (use A in \<open>simp add: queued_whole [OF t cq]\<close>)
  then have "attended p1 (outstanding n D p')"
    unfolding p' outstanding_handled(1) [OF D t cq g cq1 u] by (rule attended_mono) simp
  then show ?thesis by (simp add: attended_def p')
qed

lemma process_all_attends:
  assumes I: "ledger_inv n D role S p" and t: "t \<le> n" and e: "process_all L cl t p = Inr p'"
    and A: "attended p (outstanding n D p)"
  shows "attended p' (outstanding n D p')"
proof -
  let ?cq = "cq (rings (env p) t)"
  have W: "well_formed S p" and R: "accounted_for n D p" and As: "armed_safe role p"
    using I by (simp_all add: ledger_inv_def)
  have cq: "?cq = ?cq @ []" by simp
  obtain p1 u where each: "handle_each L cl t ?cq p = Inr p1" and cq1: "cq (rings (env p1) t) = ?cq @ []"
    and u: "cq u = []" "ring_refs u = ring_refs (rings (env p1) t)"
    and p': "p' = p1\<lparr>env := (env p1)\<lparr>rings := (rings (env p1))(t := u)\<rparr>\<rparr>"
    by (rule process_all_cases [OF e])
  have C: "covers p (cqes_refs ?cq + (outstanding n D p - cqes_refs ?cq))" by (rule accounted_covers [OF R t cq])
  obtain S' X where g: "env_gains n X (env p) (env p1)"
    using handle_each_account [OF W C As t each] by blast
  have D: "D \<subseteq># ledger n (env p)" using R by (simp add: accounted_for_def)
  have "attended p1 (outstanding n D p - cqes_refs ?cq)"
    by (rule handle_each_attends [OF W C As t each]) (use A in \<open>simp add: queued_whole [OF t cq]\<close>)
  then have "attended p1 (outstanding n D p')"
    unfolding p' outstanding_handled(1) [OF D t cq g cq1 u] by (rule attended_mono) simp
  then show ?thesis by (simp add: attended_def p')
qed

end
