(* ===== verification/Ledger_Library.thy ===== *)
theory Ledger_Library
  imports Ledger_Waits
begin

text \<open>
  The library's coroutines keep the account, whatever the user's code is, as long as that code waits for
  operations through the library and arms the multishot accept only through \<open>multishot_accept_then\<close>.
\<close>

section \<open>The awaiters\<close>

lemma ledger_prepare:
  assumes r: "request_refs r = {#}" and post: "\<And>e. entry_refs (post e) = entry_refs e"
  shows "ledger_prep n (prepare L w r post)"
  unfolding ledger_prep_def
proof (intro allI impI)
  fix t a s s' assume t: "t \<le> n" and e: "prepare L w r post t a s = Inr s'"
  have i: "ring_index w t \<le> n" using t by (cases w) (simp_all add: ring_index_def main_thread_def)
  let ?u = "rings s (ring_index w t)" and ?e = "post (set_data a (prep L r blank_sqe))"
  have room: "lu_room L (sq ?u)" using e prepare_full by fastforce
  have s': "s' = s\<lparr>rings := (rings s)(ring_index w t := ?u\<lparr>sq := sq ?u @ [?e]\<rparr>)\<rparr>"
    using e room by (simp add: prepare_def upd_ring_def get_sqe_room)
  have "ring_gains {#TokenRef a#} ?u (?u\<lparr>sq := sq ?u @ [?e]\<rparr>)"
    using ring_gains_sq [of "[?e]" ?u] r by (simp add: post)
  then show "env_gains n {#TokenRef a#} s s'" unfolding s' by (rule env_gains_ring [OF i])
qed

lemma entry_refs_group [simp]: "entry_refs (e\<lparr>sqe_buf_group := g\<rparr>) = entry_refs e"
  by (simp add: entry_refs_def)

lemma accounted_awaiters [simp]:
  assumes "role k \<noteq> Arming" and "request_refs r = {#}"
  shows "accounted_action n role l (AcceptAwaiter L w r k)" "accounted_action n role l (DirectAcceptAwaiter L w r k)"
    "accounted_action n role l (CloseAwaiter L w r k)" "accounted_action n role l (DirectCloseAwaiter L w r k)"
    "accounted_action n role l (DirectSocketAwaiter L w r k)" "accounted_action n role l (SocketAwaiter L w r k)"
    "accounted_action n role l (ReadAwaiter L w r k)" "accounted_action n role l (RecvRingBufAwaiter L w r k)"
    "accounted_action n role l (TimeoutAwaiter L w r k)" "accounted_action n role l (WriteAwaiter L w r k)"
  using assms by (auto simp: accounted_action_def awaiter_defs intro!: ledger_prepare)

lemma accounted_action_simps [simp]:
  "accounted_action n role l (CoReturn v)" "accounted_action n role l (CoThrow e)"
  "accounted_action n role l (CoAwaitTask g k) \<longleftrightarrow> role k \<noteq> Arming \<and> (role g = Arming \<longrightarrow> role k = Sending)"
  "accounted_action n role l (CoAwaitPending k) \<longleftrightarrow> role k \<noteq> Arming"
  "accounted_action n role l (CoStep f k) \<longleftrightarrow> role k \<noteq> Arming \<and> ledger_step n f"
  by (simp_all add: accounted_action_def)

section \<open>Plain code\<close>

lemma ledger_env_step:
  assumes "\<And>t p x p'. f t p = Inr (x, p') \<Longrightarrow> \<exists>s. p' = p\<lparr>env := s\<rparr> \<and> rings s = rings (env p)"
  shows "ledger_step n f"
  unfolding ledger_step_def
proof (intro allI impI)
  fix t p x p' assume "f t p = Inr (x, p')"
  then obtain s where "p' = p\<lparr>env := s\<rparr>" "rings s = rings (env p)" using assms by blast
  then show "adds n p p'" by (intro adds_same) simp_all
qed

lemma ledger_as_step:
  assumes "\<And>t p p'. t \<le> n \<Longrightarrow> f t p = Inr p' \<Longrightarrow> adds n p p'"
  shows "ledger_step n (\<lambda>t. as_step v (f t))"
  using assms by (auto simp: ledger_step_def as_step_def split: sum.splits fault.splits)

lemma ledger_spawn_steps [simp]:
  "ledger_step n (co_spawn l u)" "ledger_step n (\<lambda>t. as_step v (parallel_spawn L t l))"
  "ledger_step n (\<lambda>t. as_step v (parallel_spawn_conn L t g c))"
  "ledger_step n (\<lambda>t. as_step v (mshot_accept_send_awaiting_fd_and_process L f))"
proof -
  show "ledger_step n (co_spawn l u)"
    by (auto simp: ledger_step_def co_spawn_def bind_res_eq_Inr intro: adds_emplace)
qed (rule ledger_as_step; erule adds_parallel_spawn adds_parallel_spawn_conn adds_mshot_send)+

lemma take_received_rings: "take_received c r fl t s = Inr s' \<Longrightarrow> rings s' = rings s"
  by (auto simp: take_received_def Let_def bind_res_eq_Inr set_conn_def)

lemma env_rings_self: "\<exists>s. (p :: ('l, 'v, 'f) world) = p\<lparr>env := s\<rparr> \<and> rings s = rings (env p)"
  by (rule exI [of _ "env p"]) simp

lemma ledger_library_steps [simp]:
  "ledger_step n (load_socket c)" "ledger_step n (extend_step L)" "ledger_step n (received_step c r fl)"
  "ledger_step n (socket_step K fd a)" "ledger_step n (listen_step b s)" "ledger_step n (\<lambda>t p. Inl MissingReturn)"
proof -
  show "ledger_step n (load_socket c)" by (rule ledger_env_step) (auto simp: load_socket_def bind_res_eq_Inr intro: env_rings_self)
  show "ledger_step n (extend_step L)" by (rule ledger_env_step) (auto simp: extend_step_def split_beta)
  show "ledger_step n (received_step c r fl)"
    by (rule ledger_env_step) (auto simp: received_step_def bind_res_eq_Inr dest: take_received_rings)
  show "ledger_step n (socket_step K fd a)"
    by (rule ledger_env_step) (auto simp: socket_step_def intro: env_rings_self split: sum.splits fault.splits)
  show "ledger_step n (listen_step b s)" by (rule ledger_env_step) (auto simp: listen_step_def split_beta bind_res_eq_Inr)
qed (simp add: ledger_step_def)

text \<open>Sending accepted descriptors never throws.\<close>

lemma send_awaiting_raises: "send_awaiting L f fds p \<noteq> Inl (Throws e)"
proof (induction fds arbitrary: f p)
  case (Cons fd fds)
  have w: "pick_worker s \<noteq> Inl (Throws e)" for s by (auto simp: pick_worker_def Let_def)
  have a: "at_sqe i g u \<noteq> Inl (Throws e)" for i g u by (cases i) simp_all
  show ?case using Cons.IH w a by (auto simp: bind_res_eq_Inl Let_def split_beta)
qed simp

lemma mshot_send_raises: "mshot_accept_send_awaiting_fd_and_process L f p \<noteq> Inl (Throws e)"
  by (auto simp: mshot_accept_send_awaiting_fd_and_process_def bind_res_eq_Inl send_awaiting_raises)

section \<open>The coroutines of the library\<close>

fun lib_role :: "('u, 'f) label \<Rightarrow> role" where
  "lib_role (P (Multishot_accept_direct s)) = Arming"
| "lib_role (P Multishot_accept_direct_1) = Armed"
| "lib_role (N (Multishot_accept_then_1 f)) = Sending"
| "lib_role (N (Multishot_accept_then_2 f)) = Parking"
| "lib_role _ = Ordinary"

definition ledger_user :: "nat \<Rightarrow> ('u \<Rightarrow> lib_value resume_in \<Rightarrow> ('u, 'f) lib_action) \<Rightarrow> bool" where
  "ledger_user n user \<longleftrightarrow> (\<forall>l inp. safe_action (user l inp) \<and> accounted_action n lib_role (User l) (user l inp))"

lemma accounted_on_value: "(\<And>v. accounted_action n role l (g v)) \<Longrightarrow> accounted_action n role l (on_value g inp)"
  by (cases inp) (simp_all add: on_value_def)

lemma accounted_on_int: "(\<And>k. accounted_action n role l (g k)) \<Longrightarrow> accounted_action n role l (on_int g inp)"
  unfolding on_int_def by (rule accounted_on_value) (simp split: lib_value.splits)

lemma accounted_on_unit: "accounted_action n role l a \<Longrightarrow> accounted_action n role l (on_unit a inp)"
  by (cases inp) (simp_all add: on_unit_def)

lemma accounted_on_cqe: "(\<And>r fl. accounted_action n role l (g r fl)) \<Longrightarrow> accounted_action n role l (on_cqe g inp)"
  by (cases inp) (simp_all add: on_cqe_def)

lemmas accounted_ons = accounted_on_value accounted_on_int accounted_on_unit accounted_on_cqe

lemma accounted_prep_code: "accounted_action n lib_role (P l) (prep_code L l inp)"
proof (cases "(L, l, inp)" rule: prep_code.cases)
  case (13 L s inp)
  then show ?thesis
    by (auto simp: prep_multishot_accept_direct_def accounted_action_def [of n lib_role "P (Multishot_accept_direct s)"] intro: ledger_prepare)
qed (auto simp: prep_defs prep_result_defs intro!: accounted_ons)

lemma accounted_conn_code: "accounted_action n lib_role (C l) (conn_code L l inp)"
  by (cases "(L, l, inp)" rule: conn_code.cases)
    (auto simp: read_some_def read_some_1_def write_some_def write_some_1_def write_all_def write_all_1_def
      return_count_def conn_sleep_def ring_buf_receive_def ring_buf_receive_1_def ring_buf_receive_2_def
      ring_buf_receive_3_def ring_buf_receive_4_def split: lib_value.splits
      intro!: accounted_ons)

lemma accounted_net_code: "accounted_action n lib_role (N l) (net_code L K l inp)"
  by (cases "(L, K, l, inp)" rule: net_code.cases)
    (auto simp: create_tcp_socket_def create_tcp_socket_1_def create_tcp_socket_2_def create_udp_socket_def
      create_udp_socket_1_def listener_accept_def listener_accept_1_def listen_on_def listen_on_1_def
      listen_on_2_def multishot_accept_then_def multishot_accept_then_1_def multishot_accept_then_2_def
      Let_def split: lib_value.splits intro!: accounted_ons)

lemma lib_role_cases:
  "lib_role l = Armed \<Longrightarrow> l = P Multishot_accept_direct_1"
  "lib_role l = Sending \<Longrightarrow> \<exists>f. l = N (Multishot_accept_then_1 f)"
  "lib_role l = Parking \<Longrightarrow> \<exists>f. l = N (Multishot_accept_then_2 f)"
  by (cases l rule: lib_role.cases; simp)+

lemma on_unit_no_exn: "no_exn inp \<Longrightarrow> on_unit a inp = a"
  by (cases inp) (simp_all add: on_unit_def)

lemma library_ledger_code:
  assumes "ledger_user n user"
  shows "ledger_code (lib_code L K user) n lib_role"
proof
  show "safe_code (lib_code L K user)" by (rule lib_code_safe) (use assms in \<open>simp add: ledger_user_def\<close>)
  show "accounted_action n lib_role l (lib_code L K user l inp)" for l inp
    using assms by (cases l) (simp_all add: ledger_user_def accounted_prep_code accounted_conn_code accounted_net_code)
  show "\<exists>v. lib_code L K user l RUnit = CoReturn v" if "lib_role l = Armed" for l
    using lib_role_cases(1) [OF that] by (simp add: on_unit_def)
  show "\<exists>f k. lib_code L K user l inp = CoStep f k \<and> lib_role k = Parking \<and> (\<forall>t p x p'. f t p = Inr (x, p') \<longrightarrow> no_exn x)"
    if l: "lib_role l = Sending" "no_exn inp" for l inp
  proof -
    obtain f where f: "l = N (Multishot_accept_then_1 f)" using lib_role_cases(2) [OF l(1)] by blast
    have "no_exn x" if "as_step VUnit (mshot_accept_send_awaiting_fd_and_process L f) p = Inr (x, p')" for p x and p' :: "(('a, 'b) label, lib_value, 'b) world"
      using that by (auto simp: as_step_def mshot_send_raises split: sum.splits fault.splits)
    then show ?thesis using f l(2) by (auto simp: multishot_accept_then_1_def on_unit_no_exn)
  qed
  show "\<exists>k. lib_code L K user l inp = CoAwaitPending k \<and> lib_role k = Sending"
    if "lib_role l = Parking" "no_exn inp" for l inp
    using lib_role_cases(3) [OF that(1)] that(2) by (auto simp: multishot_accept_then_2_def on_unit_no_exn)
qed

text \<open>Every user's code, cut down to code that keeps the account.\<close>

definition accounted_user :: "nat \<Rightarrow> ('u \<Rightarrow> lib_value resume_in \<Rightarrow> ('u, 'f) lib_action) \<Rightarrow>
    'u \<Rightarrow> lib_value resume_in \<Rightarrow> ('u, 'f) lib_action" where
  "accounted_user n user = (if ledger_user n user then user else (\<lambda>l inp. CoReturn VUnit))"

lemma ledger_user_accounted: "ledger_user n (accounted_user n user)"
  by (auto simp: accounted_user_def ledger_user_def)

lemma accounted_user_id: "ledger_user n user \<Longrightarrow> accounted_user n user = user"
  by (simp add: accounted_user_def)

interpretation library_account: ledger_code "lib_code L K (accounted_user n user)" n lib_role
  for L K user n
  by (rule library_ledger_code [OF ledger_user_accounted])

end
