(* ===== verification/Ledger_System.thy ===== *)
theory Ledger_System
  imports Ledger_Library System_Properties
begin

text \<open>
  The threads of the program together with what the kernel has delivered so far. The kernel completes
  what has been queued, each entry once but for the multishot accept, and nothing else; under this
  contract every completion leads to a live object, which the theorems about the loops otherwise assume.
\<close>

section \<open>Steps under the contract of the kernel\<close>

definition pass_delivers ::
  "('l, 'v, 'f, sys_env) code \<Rightarrow> nat \<Rightarrow> ref multiset \<Rightarrow> nat \<Rightarrow> ('l, 'v, 'f) world \<Rightarrow> cqe list \<Rightarrow> bool" where
  "pass_delivers code n D t p arrived \<longleftrightarrow>
     (\<forall>p1. TaskLoop_run code t p = Some (Inr p1) \<longrightarrow> may_deliver n D p1 arrived)"

text \<open>
  The main thread is thread 0 and the workers are 1 to \<open>n\<close>. A ring that is stopping cancels what it
  has and waits; what arrives then may complete entries that the batch before it has queued, and is
  thrown away. An iteration that ends the loop gets no completions.
\<close>

definition thrown_away :: "nat \<Rightarrow> cqe list \<Rightarrow> ('l, 'v, 'f) world \<Rightarrow> cqe list" where
  "thrown_away t during p = (if ring_stopped (ring_at p t) then during else [])"

inductive tracked_step ::
  "liburing \<Rightarrow> ('l, 'f) client \<Rightarrow> ('l, 'v, 'f, sys_env) code \<Rightarrow> nat
   \<Rightarrow> ('l, 'v, 'f) world \<times> ref multiset \<Rightarrow> ('l, 'v, 'f) world \<times> ref multiset \<Rightarrow> bool" for L cl code n where
  tracked_main: "pass_delivers code n D main_thread p arrived \<Longrightarrow>
    run_iteration L cl code (ret, arrived, during) p = Some (Inr (True, p')) \<Longrightarrow>
    may_deliver n (D + delivered arrived) p' (thrown_away main_thread during p') \<Longrightarrow>
    tracked_step L cl code n (p, D) (p', D + delivered arrived + delivered (thrown_away main_thread during p'))"
| tracked_end: "pass_delivers code n D main_thread p arrived \<Longrightarrow>
    run_iteration L cl code (ret, arrived, during) p = Some (Inr (False, p')) \<Longrightarrow>
    tracked_step L cl code n (p, D) (p', D)"
| tracked_worker: "t \<in> {1..n} \<Longrightarrow> pass_delivers code n D t p arrived \<Longrightarrow>
    worker_iteration L cl code t arrived during p = Some (Inr (go_on, p')) \<Longrightarrow>
    may_deliver n (D + delivered arrived) p' (thrown_away t during p') \<Longrightarrow>
    tracked_step L cl code n (p, D) (p', D + delivered arrived + delivered (thrown_away t during p'))"
| tracked_terminate: "\<not> sys_stopped (env p) \<Longrightarrow>
    (\<forall>p3. quits_sent L p = Inr p3 \<longrightarrow> may_deliver n D p3 arrived) \<Longrightarrow>
    terminate_loop L cl arrived p = Inr p' \<Longrightarrow>
    tracked_step L cl code n (p, D) (p', D + delivered arrived)"

text \<open>The parts of an iteration of the main loop.\<close>

lemma run_iteration_ends:
  assumes "run_iteration L cl code (ret, arrived, during) p = Some (Inr (False, p'))"
  obtains "p' = p" | "TaskLoop_run code main_thread p = Some (Inr p')"
  using assms by (auto simp: run_iteration_def bind_res_eq_Inr split: option.splits if_splits)

lemma run_iteration_goes_on:
  assumes "run_iteration L cl code (ret, arrived, during) p = Some (Inr (True, p'))"
  obtains p1 where "TaskLoop_run code main_thread p = Some (Inr p1)"
    and "wait_and_handle L cl main_thread arrived during p1 = Inr p' \<or>
      p' = p1\<lparr>env := (env p1)\<lparr>rings := (rings (env p1))(main_thread := arrive arrived (submit_all L (rings (env p1) main_thread)))\<rparr>\<rparr>"
  using assms
  by (auto simp: run_iteration_def wait_and_handle_def bind_res_eq_Inr split: option.splits if_splits)

lemma worker_iteration_parts:
  assumes "worker_iteration L cl code t arrived during p = Some (Inr (go_on, p'))"
  obtains p1 where "TaskLoop_run code t p = Some (Inr p1)" and "wait_and_handle L cl t arrived during p1 = Inr p'"
proof -
  obtain r where r: "TaskLoop_run code t p = Some r"
    using assms by (cases "TaskLoop_run code t p") (auto simp: worker_iteration_def)
  then obtain p1 where "r = Inr p1" using assms by (cases r) (auto simp: worker_iteration_eq)
  then show thesis using that assms r by (auto simp: worker_iteration_eq [OF r] bind_res_eq_Inr)
qed

lemma terminate_parts:
  assumes "\<not> sys_stopped (env p)" and "terminate_loop L cl arrived p = Inr p'"
  obtains p3 where "quits_sent L p = Inr p3"
    and "process_all L cl main_thread (p3\<lparr>env := (env p3)\<lparr>rings := (rings (env p3))(main_thread := arrive arrived (submit_all L (rings (env p3) main_thread)))\<rparr>\<rparr>) = Inr p'"
  using assms(2) unfolding terminate_eq [OF assms(1)] by (auto simp: bind_res_eq_Inr)

definition fresh_rings :: "nat \<Rightarrow> sys_env \<Rightarrow> bool" where
  "fresh_rings n s \<longleftrightarrow> (\<forall>t \<le> n. submitted (rings s t) = [] \<and> sq (rings s t) = [] \<and> cq (rings s t) = [])"

definition tracked_start :: "'l \<Rightarrow> nat \<Rightarrow> ('l, 'v, 'f) world \<times> ref multiset \<Rightarrow> bool" where
  "tracked_start root n x \<longleftrightarrow> started root (fst x) \<and> fresh_rings n (env (fst x)) \<and> snd x = {#}"

section \<open>Completions that the contract allows\<close>

lemma covers_events:
  "covers p (cqes_refs cs + R) \<Longrightarrow> events_ok p cs"
proof (induction cs arbitrary: R)
  case Nil
  then show ?case by (simp add: events_ok_def single_use_def)
next
  case (Cons c cs)
  have cv: "covers p (cqe_refs c + (cqes_refs cs + R))" using Cons.prems by (simp add: ac_simps)
  have ev: "event_ok p c"
    using cv live_event [of p c] null_event [of c p] by (cases "cqe_ref c = TokenRef nullptr") (auto simp: covers_def cqe_refs_def)
  have ok: "events_ok p cs" by (rule Cons.IH [of R]) (rule covers_subset [OF cv], simp)
  have ref: "ref_address (cqe_ref x) = cqe_data x" for x by (simp add: cqe_ref_def)
  have nn: "cqe_refs x = {#cqe_ref x#}" if "message_address (cqe_data x)" for x
  proof -
    have "cqe_ref x \<noteq> TokenRef nullptr" using ref [of x] that by (auto simp: message_address_def)
    then show ?thesis by (simp add: cqe_refs_def)
  qed
  have "cqe_data c \<notin> set (single_use cs)" if c: "message_address (cqe_data c)"
  proof
    assume "cqe_data c \<in> set (single_use cs)"
    then obtain x where x: "x \<in> set cs" "cqe_data x = cqe_data c" by (auto simp: single_use_def)
    have "cqe_ref x \<in># cqe_refs x" using x(2) c nn [of x] by simp
    then have "cqe_ref x \<in># cqes_refs cs" using x(1) by (auto simp: cqes_refs_def)
    then show False
      using covers_apart [of p "cqe_ref c" "cqes_refs cs + R" "cqe_ref x"] cv nn [OF c] c x ref by simp
  qed
  then show ?case using ev ok by (auto simp: events_ok_def single_use_def)
qed

lemma account_events:
  assumes R: "accounted_for n D p" and t: "t \<le> n" and m: "may_deliver n D p cs"
  shows "events_ok p (cq (ring_at p t) @ cs)"
proof -
  let ?u = "arrive cs (rings (env p) t)" let ?s = "(env p)\<lparr>rings := (rings (env p))(t := ?u)\<rparr>"
  have "accounted_for n (D + delivered cs) (p\<lparr>env := ?s\<rparr>)"
    by (rule accounted_arrive [OF R t m]) (simp_all add: arrive_def)
  moreover have "cq (rings (env (p\<lparr>env := ?s\<rparr>)) t) = cq ?u @ []" by simp
  ultimately have "covers (p\<lparr>env := ?s\<rparr>) (cqes_refs (cq ?u) +
      (outstanding n (D + delivered cs) (p\<lparr>env := ?s\<rparr>) - cqes_refs (cq ?u)))"
    by (rule accounted_covers [OF _ t])
  then have "events_ok p (cq ?u)" by (intro covers_events) (simp only: covers_env)
  then show ?thesis by (simp add: arrive_def ring_at_def)
qed

section \<open>The invariant\<close>

lemma inv_arrive:
  assumes I: "ledger_inv n D role S p" and t: "t \<le> n" and m: "may_deliver n D p cs"
  shows "ledger_inv n (D + delivered cs) role S
    (p\<lparr>env := (env p)\<lparr>rings := (rings (env p))(t := arrive cs (submit_all L (rings (env p) t)))\<rparr>\<rparr>)"
proof -
  have "accounted_for n D p" using I by (simp add: ledger_inv_def)
  from accounted_arrive [OF this t m] show ?thesis
    using I by (simp add: ledger_inv_def arrive_def submit_all_def Let_def flip: ring_refs_submit [of L "rings (env p) t"])
qed

lemma inv_less:
  assumes I: "ledger_inv n D role S p" and D: "D \<subseteq># D'" "may_deliver n D' p ds" "TokenRef multishot_token \<notin># D'"
  shows "ledger_inv n (D' + delivered ds) role S p"
proof -
  have "D \<subseteq># D' + delivered ds" using D(1) by (simp add: subset_mset.add_increasing2)
  then have "accounted_for n (D' + delivered ds) (p\<lparr>env := env p\<rparr>)"
    using I D by (intro accounted_less) (simp_all add: ledger_inv_def may_deliver_def)
  then show ?thesis using I by (simp add: ledger_inv_def)
qed

lemma inv_wait:
  assumes I: "ledger_inv n D role S p" and t: "t \<le> n" and m: "may_deliver n D p arrived"
    and e: "wait_and_handle L cl t arrived during p = Inr p'" and m': "may_deliver n (D + delivered arrived) p' later"
  shows "\<exists>S'. ledger_inv n (D + delivered arrived + delivered later) role S' p'"
  using process_batch_account [OF inv_arrive [OF I t m, of L] t _ m'] e by (simp add: wait_and_handle_def)

lemma inv_no_multishot: "ledger_inv n D role S p \<Longrightarrow> TokenRef multishot_token \<notin># D + delivered cs"
  by (simp add: ledger_inv_def accounted_for_def)

lemma quits_sent_adds:
  assumes "quits_sent L p = Inr p'"
  shows "adds n p p'"
proof -
  let ?p = "p\<lparr>env := Workers_stop ((env p)\<lparr>sys_stopped := True\<rparr>)\<rparr>"
  obtain p1 where p1: "notify_workers_to_stop L main_thread (uring_fds (env ?p)) ?p = Inr p1"
    "notify_self_quit L main_thread p1 = Inr p'"
    using assms by (auto simp: quits_sent_def Let_def bind_res_eq_Inr)
  have "adds n p ?p" by (rule adds_env) (simp add: env_gains_same Workers_stop_def)
  moreover have "adds n ?p p1" by (rule adds_notify_workers [OF p1(1)]) simp
  moreover have "adds n p1 p'" using p1(2) by (simp add: notify_self_quit_def adds_send_quit)
  ultimately show ?thesis using adds_trans by blast
qed

lemma inv_quits:
  assumes I: "ledger_inv n D role S p" and q: "quits_sent L p = Inr p'"
  shows "\<exists>S'. ledger_inv n D role S' p'"
proof -
  have W: "well_formed S p" using I by (simp add: ledger_inv_def)
  then have b: "bounded p" by (simp add: well_formed_def others_def)
  note s = quits_sent_adds [OF q, of n]
  obtain S' where "well_formed S' p'" using grow_kept [OF W quits_sent_grow(1) [OF q]] by (auto simp: kept_def)
  then have "ledger_inv n D role S' p'"
    using I accounted_adds [OF s b] armed_safe_adds [OF _ s b] by (simp add: ledger_inv_def)
  then show ?thesis by blast
qed

definition tracked_inv :: "nat \<Rightarrow> (('u, 'f) label, lib_value, 'f) world \<times> ref multiset \<Rightarrow> bool" where
  "tracked_inv n x \<longleftrightarrow> (\<exists>S. ledger_inv n (snd x) lib_role S (fst x))"

lemma tracked_start_inv:
  assumes "tracked_start root n x"
  shows "tracked_inv n x"
proof -
  obtain p where x: "x = (p, {#})" and st: "started root p" and fr: "fresh_rings n (env p)"
    using assms by (cases x) (auto simp: tracked_start_def)
  obtain s where e: "emplace_back main_thread root (initial_proc s) = Inr p" using st by (auto simp: started_def)
  have p: "objs p = [multishot_token \<mapsto> Token default_token]" "env p = s"
    "\<And>h f. frames p h = Some f \<Longrightarrow> caller (promise f) = None"
    using e by (auto simp: emplace_back_def create_coroutine_def enqueue_def upd_promise_def Let_def initial_proc_def
        new_promise_def set_chain_root_def split: if_splits)
  obtain S where S: "well_formed S p" using started_well_formed [OF st] by blast
  have z: "ledger n s = {#}" "queued n s = {#}"
    using fr p(2) by (auto simp: ledger_def queued_def ring_refs_def queue_of_def fresh_rings_def)
  have "accounted_for n {#} p" using z p(2) by (simp add: accounted_for_def outstanding_def covers_def)
  moreover have "armed_safe lib_role p"
    using p by (auto simp: armed_safe_def arming_ok_def armed_task_def default_token_def)
  ultimately show ?thesis using S x by (auto simp: tracked_inv_def ledger_inv_def)
qed

lemma tracked_step_inv:
  assumes I: "tracked_inv n x" and st: "tracked_step L cl (lib_code L K (accounted_user n user)) n x y"
  shows "tracked_inv n y"
  using st
proof (cases rule: tracked_step.cases)
  case (tracked_main D p arrived ret during p')
  obtain S where S: "ledger_inv n D lib_role S p" using I tracked_main by (auto simp: tracked_inv_def)
  obtain p1 where p1: "TaskLoop_run (lib_code L K (accounted_user n user)) main_thread p = Some (Inr p1)"
    and rest: "wait_and_handle L cl main_thread arrived during p1 = Inr p' \<or>
      p' = p1\<lparr>env := (env p1)\<lparr>rings := (rings (env p1))(main_thread := arrive arrived (submit_all L (rings (env p1) main_thread)))\<rparr>\<rparr>"
    by (rule run_iteration_goes_on [OF tracked_main(4)])
  obtain S1 where S1: "ledger_inv n D lib_role S1 p1" using library_account.pass_keeps [OF S main_le p1] by blast
  have m: "may_deliver n D p1 arrived" using tracked_main(3) p1 by (simp add: pass_delivers_def)
  from rest show ?thesis
  proof
    assume "wait_and_handle L cl main_thread arrived during p1 = Inr p'"
    from inv_wait [OF S1 main_le m this tracked_main(5)] show ?thesis using tracked_main(2) by (auto simp: tracked_inv_def)
  next
    assume "p' = p1\<lparr>env := (env p1)\<lparr>rings := (rings (env p1))(main_thread := arrive arrived (submit_all L (rings (env p1) main_thread)))\<rparr>\<rparr>"
    then have "ledger_inv n (D + delivered arrived) lib_role S1 p'" using inv_arrive [OF S1 main_le m, of L] by simp
    then show ?thesis
      using inv_less [OF _ _ tracked_main(5) inv_no_multishot [OF S1]] tracked_main(2) by (auto simp: tracked_inv_def)
  qed
next
  case (tracked_end D p arrived ret during p')
  then obtain S where S: "ledger_inv n D lib_role S p" using I by (auto simp: tracked_inv_def)
  from tracked_end(4) show ?thesis
  proof (rule run_iteration_ends)
    assume "p' = p"
    then show ?thesis using S tracked_end(2) by (auto simp: tracked_inv_def)
  next
    assume "TaskLoop_run (lib_code L K (accounted_user n user)) main_thread p = Some (Inr p')"
    from library_account.pass_keeps [OF S main_le this] show ?thesis using tracked_end(2) by (auto simp: tracked_inv_def)
  qed
next
  case (tracked_worker t D p arrived during go_on p')
  obtain S where S: "ledger_inv n D lib_role S p" using I tracked_worker by (auto simp: tracked_inv_def)
  have t: "t \<le> n" using tracked_worker(3) by simp
  obtain p1 where p1: "TaskLoop_run (lib_code L K (accounted_user n user)) t p = Some (Inr p1)"
    and w: "wait_and_handle L cl t arrived during p1 = Inr p'"
    by (rule worker_iteration_parts [OF tracked_worker(5)])
  obtain S1 where S1: "ledger_inv n D lib_role S1 p1" using library_account.pass_keeps [OF S t p1] by blast
  have m: "may_deliver n D p1 arrived" using tracked_worker(4) p1 by (simp add: pass_delivers_def)
  show ?thesis using inv_wait [OF S1 t m w tracked_worker(6)] tracked_worker(2) by (auto simp: tracked_inv_def)
next
  case (tracked_terminate p D arrived p')
  obtain S where S: "ledger_inv n D lib_role S p" using I tracked_terminate by (auto simp: tracked_inv_def)
  obtain p3 where p3: "quits_sent L p = Inr p3"
    and pa: "process_all L cl main_thread (p3\<lparr>env := (env p3)\<lparr>rings := (rings (env p3))(main_thread := arrive arrived (submit_all L (rings (env p3) main_thread)))\<rparr>\<rparr>) = Inr p'"
    by (rule terminate_parts [OF tracked_terminate(3,5)])
  obtain S3 where S3: "ledger_inv n D lib_role S3 p3" using inv_quits [OF S p3] by blast
  have m: "may_deliver n D p3 arrived" using tracked_terminate(4) p3 by simp
  show ?thesis
    using process_all_account [OF inv_arrive [OF S3 main_le m, of L] main_le pa] tracked_terminate(2) by (simp add: tracked_inv_def)
qed

interpretation tracked: transition_invariant "tracked_start root n"
    "tracked_step L cl (lib_code L K (accounted_user n user)) n" "tracked_inv n"
  for root n L cl K user
  by unfold_locales (auto intro: tracked_start_inv tracked_step_inv)

end
