(* ===== verification/Ledger_Properties.thy ===== *)
theory Ledger_Properties
  imports Ledger_System
begin

text \<open>
  What the account gives for the program: no completion that the kernel's contract allows leads to an
  object that is gone, every operation that the kernel still holds belongs to a coroutine that waits for
  it, and the runs under the contract are runs of the system.
\<close>

declare split_paired_All [simp del] split_paired_Ex [simp del]

section \<open>Reachable states\<close>

lemma tracked_reachable:
  assumes "ledger_user n user" and "started root p0" and "fresh_rings n (env p0)"
    and "(tracked_step L cl (lib_code L K user) n)\<^sup>*\<^sup>* (p0, {#}) (p, D)"
  obtains S where "ledger_inv n D lib_role S p"
proof -
  have "tracked_start root n (p0, {#})" using assms(2,3) by (simp add: tracked_start_def)
  moreover have "(tracked_step L cl (lib_code L K (accounted_user n user)) n)\<^sup>*\<^sup>* (p0, {#}) (p, D)"
    using assms(4) by (simp add: accounted_user_id [OF assms(1)])
  ultimately have "tracked_inv n (p, D)" by (rule tracked.reachable_inv)
  then show thesis using that by (auto simp: tracked_inv_def)
qed

lemma contract_arrivals:
  assumes I: "ledger_inv n D lib_role S p" and t: "t \<le> n"
    and d: "pass_delivers (lib_code L K (accounted_user n user)) n D t p arrived"
  shows "arrivals_ok (lib_code L K (accounted_user n user)) t p arrived"
  unfolding arrivals_ok_def
proof (intro allI impI)
  fix p1 assume run: "TaskLoop_run (lib_code L K (accounted_user n user)) t p = Some (Inr p1)"
  obtain S1 where "ledger_inv n D lib_role S1 p1" using library_account.pass_keeps [OF I t run] by blast
  then have "accounted_for n D p1" by (simp add: ledger_inv_def)
  moreover have "may_deliver n D p1 arrived" using d run by (simp add: pass_delivers_def)
  ultimately show "events_ok p1 (cq (ring_at p1 t) @ arrived)" by (rule account_events [OF _ t])
qed

lemma tracked_is_system_step:
  assumes I: "ledger_inv n D lib_role S p"
    and st: "tracked_step L cl (lib_code L K (accounted_user n user)) n (p, D) (p', D')"
  shows "system_step L cl (lib_code L K (accounted_user n user)) n p p'"
  using st
proof (cases rule: tracked_step.cases)
  case (tracked_main arrived ret during)
  then show ?thesis by (intro step_main [OF contract_arrivals [OF I main_le]])
next
  case (tracked_end arrived ret during)
  then show ?thesis by (intro step_main [OF contract_arrivals [OF I main_le]])
next
  case (tracked_worker t arrived during go_on)
  then show ?thesis by (intro step_worker [OF _ contract_arrivals [OF I]]) auto
next
  case (tracked_terminate arrived)
  have "events_ok p3 (cq (ring_at p3 main_thread) @ arrived)" if p3: "quits_sent L p = Inr p3" for p3
  proof -
    obtain S3 where "ledger_inv n D lib_role S3 p3" using inv_quits [OF I p3] by blast
    then have "accounted_for n D p3" by (simp add: ledger_inv_def)
    moreover have "may_deliver n D p3 arrived" using tracked_terminate p3 by simp
    ultimately show ?thesis by (rule account_events [OF _ main_le])
  qed
  then show ?thesis using tracked_terminate by (intro step_terminate)
qed

lemma outstanding_once:
  assumes I: "ledger_inv n D role S p" and r: "TokenRef a \<in># outstanding n D p" and ne: "a \<noteq> multishot_token"
  shows "live_ref p (TokenRef a)" and "count (outstanding n D p) (TokenRef a) = 1"
proof -
  have C: "covers p (outstanding n D p)" using I by (simp add: ledger_inv_def accounted_for_def)
  show L: "live_ref p (TokenRef a)" using C r unfolding covers_def by blast
  then have m: "message_address (ref_address (TokenRef a))" using ne by (simp add: message_address_def)
  have "count (outstanding n D p) (TokenRef a) \<le> 1"
  proof (rule ccontr)
    assume "\<not> ?thesis"
    then have "{#TokenRef a, TokenRef a#} \<subseteq># outstanding n D p" by (simp add: subseteq_mset_def)
    from covers_subset [OF C this] show False using covers_apart [OF _ _ m, of p "{#TokenRef a#}" "TokenRef a"] by simp
  qed
  moreover have "0 < count (outstanding n D p) (TokenRef a)" using r by (simp only: count_greater_zero_iff)
  ultimately show "count (outstanding n D p) (TokenRef a) = 1" by linarith
qed

section \<open>A first iteration\<close>

text \<open>
  A first iteration in which one entry is queued and nothing arrives, and the account after it.
\<close>

lemma quiet_iteration:
  assumes "TaskLoop_run code main_thread p = Some (Inr p1)" and "\<not> sys_stopped (env p)"
    and "\<not> TaskLoop_empty main_thread p1" and "cq (ring_at p1 main_thread) = []" and "\<not> ring_stopped (ring_at p1 main_thread)"
  shows "run_iteration L cl code (0, [], []) p = Some (Inr (True,
    p1\<lparr>env := (env p1)\<lparr>rings := (rings (env p1))(main_thread := submit_all L (ring_at p1 main_thread))\<rparr>\<rparr>))"
proof -
  let ?p = "p1\<lparr>env := (env p1)\<lparr>rings := (rings (env p1))(main_thread := submit_all L (ring_at p1 main_thread))\<rparr>\<rparr>"
  have "process_batch L cl main_thread [] ?p = Inr ?p"
    by (rule quiet_batch) (use assms(4,5) in \<open>simp_all add: ring_at_def submit_all_def Let_def\<close>)
  moreover have "arrive [] u = u" for u by (cases u) (simp add: arrive_def)
  ultimately show ?thesis using assms(1-3) by (simp add: run_iteration_def ring_at_def)
qed

lemma delivered_simps [simp]: "delivered [] = {#}"
  by (simp add: delivered_def)

lemma may_deliver_nothing [simp]: "may_deliver n {#} p []"
  by (simp add: may_deliver_def)

lemma quiet_tracked:
  assumes "run_iteration L cl code (0, [], []) p = Some (Inr (True, p'))"
  shows "tracked_step L cl code n (p, {#}) (p', {#})"
proof -
  have d: "pass_delivers code n {#} main_thread p []" by (simp add: pass_delivers_def)
  have "may_deliver n ({#} + delivered []) p' (thrown_away main_thread [] p')"
    by (simp add: thrown_away_def)
  from tracked_main [OF d assms this] show ?thesis by (simp add: thrown_away_def)
qed

lemma first_entry_ledger:
  assumes "fresh_rings n s" and "submitted u = [e]" "sq u = []" "cq u = []"
  shows "ledger n (s\<lparr>rings := (rings s)(main_thread := u)\<rparr>) = entry_refs e"
    and "queued n (s\<lparr>rings := (rings s)(main_thread := u)\<rparr>) = {#}"
proof -
  have z: "ledger n s = {#}" "queued n s = {#}" "ring_refs (rings s main_thread) = {#}" "cq (rings s main_thread) = []"
    using assms(1) by (simp_all add: fresh_rings_def ledger_def queued_def ring_refs_def queue_of_def main_thread_def)
  have u: "ring_refs u = ring_refs (rings s main_thread) + entry_refs e" using assms(2,3) z(3) by (simp add: ring_refs_def)
  show "ledger n (s\<lparr>rings := (rings s)(main_thread := u)\<rparr>) = entry_refs e"
    using ledger_upd [OF main_le u] z(1) by simp
  show "queued n (s\<lparr>rings := (rings s)(main_thread := u)\<rparr>) = {#}"
    using queued_upd [OF main_le, of u s n] assms(4) z(2,4) by simp
qed

section \<open>A coroutine that sleeps\<close>

text \<open>One task that waits for a timer, before and after the first iteration of the main loop.\<close>

abbreviation sleep_root :: "(nat, nat) label" where
  "sleep_root \<equiv> P (Sleep_for (lit_s 1) 1 default_timeout_flags)"

definition sleeper :: "((nat, nat) label, lib_value, nat) world" where
  "sleeper =
     \<lparr>frames = [2 \<mapsto> \<lparr>promise = set_chain_root (Some (0, 0)) new_promise, costate = Suspended sleep_root AwInitial\<rparr>],
      objs = [1 \<mapsto> Token default_token], fresh = 3,
      loops = (\<lambda>t. [])(0 := [fresh_task_of 2]), env = sample_env\<rparr>"

definition sleep_entry :: sqe where
  "sleep_entry = entry (PrepTimeout (lit_s 1) 1 (sint default_timeout_flags)) 0 (Some 3)"

definition sleeping :: "uring \<Rightarrow> ((nat, nat) label, lib_value, nat) world" where
  "sleeping u =
     \<lparr>frames = [2 \<mapsto> \<lparr>promise = set_chain_root (Some (0, 0)) new_promise, costate = Suspended (P Sleep_for_1) (AwToken 3)\<rparr>],
      objs = [1 \<mapsto> Token default_token, 3 \<mapsto> Token (default_token\<lparr>tok_op := Op_Timeout, chain_task := Some (0, 0)\<rparr>)],
      fresh = 4, loops = (\<lambda>t. [])(0 := [set_pending True (fresh_task_of 2)]),
      env = sample_env\<lparr>rings := (rings sample_env)(0 := u)\<rparr>\<rparr>"

lemma sleeper_started: "started sleep_root sleeper" "fresh_rings n (env sleeper)"
proof -
  have "emplace_back main_thread sleep_root (initial_proc sample_env) = Inr sleeper"
    by (simp add: emplace_back_def create_coroutine_def enqueue_def upd_promise_def Let_def initial_proc_def
        sleeper_def main_thread_def multishot_token_def numeral_2_eq_2 numeral_3_eq_3 fresh_task_of_def)
  then show "started sleep_root sleeper" unfolding started_def by blast
  show "fresh_rings n (env sleeper)"
    by (simp add: fresh_rings_def sleeper_def sample_env_def sample_ring_def new_uring_def)
qed

abbreviation sleep_ring :: uring where
  "sleep_ring \<equiv> sample_ring\<lparr>ring_fd := 3, sq := [sleep_entry]\<rparr>"

lemma sleeper_steps:
  "cstep sample_lib 0 (Enter 2) sleeper = Inr (Exec 2 sleep_root RStart, sleeper\<lparr>frames :=
     [2 \<mapsto> \<lparr>promise = set_chain_root (Some (0, 0)) new_promise, costate = Running\<rparr>]\<rparr>)"
  "cstep sample_lib 0 (Exec 2 sleep_root RStart) (sleeper\<lparr>frames :=
     [2 \<mapsto> \<lparr>promise = set_chain_root (Some (0, 0)) new_promise, costate = Running\<rparr>]\<rparr>) = Inr (Back, sleeping sleep_ring)"
proof -
  show "cstep sample_lib 0 (Enter 2) sleeper = Inr (Exec 2 sleep_root RStart, sleeper\<lparr>frames :=
     [2 \<mapsto> \<lparr>promise = set_chain_root (Some (0, 0)) new_promise, costate = Running\<rparr>]\<rparr>)"
    by (simp add: cstep_def enter_def set_costate_def await_resume_def sleeper_def)
  let ?p = "sleeper\<lparr>frames := [2 \<mapsto> \<lparr>promise = set_chain_root (Some (0, 0)) new_promise, costate = Running\<rparr>]\<rparr>"
  have "prepare (documented_liburing 128) LocalRing (PrepTimeout (lit_s 1) 1 (sint default_timeout_flags)) (\<lambda>s. s) 0 3 sample_env =
      Inr (sample_env\<lparr>rings := (rings sample_env)(0 := sleep_ring)\<rparr>)"
    by (subst prepare_room) (simp_all add: ring_index_def sample_env_def sample_ring_def new_uring_def sleep_entry_def documented_liburing)
  then show "cstep sample_lib 0 (Exec 2 sleep_root RStart) ?p = Inr (Back, sleeping sleep_ring)"
    by (simp add: cstep_def perform_def async_sleep_for_def TimeoutAwaiter_def UringAwaiter_ctor_def alloc_obj_def
        sleeper_def set_costate_def UringAwaiter_await_suspend_def promise_at_def set_chain_root_def new_promise_def
        deref_task_def upd_task_def Let_def token_at_def sleeping_def fresh_task_of_def set_awaiting_handle_def set_pending_def)
qed

lemma sleeper_pass: "TaskLoop_run sample_lib main_thread sleeper = Some (Inr (sleeping sleep_ring))"
proof -
  have ret: "run_ctl sample_lib 0 Back p = Some (Inr p)" for p by (subst run_ctl.simps) simp
  have exec: "run_ctl sample_lib 0 (Exec 2 sleep_root RStart) (sleeper\<lparr>frames :=
     [2 \<mapsto> \<lparr>promise = set_chain_root (Some (0, 0)) new_promise, costate = Running\<rparr>]\<rparr>) = Some (Inr (sleeping sleep_ring))"
    by (subst run_ctl.simps) (simp only: sleeper_steps(2) ctl.case sum.case fst_conv snd_conv ret)
  have run: "run_ctl sample_lib 0 (Enter 2) sleeper = Some (Inr (sleeping sleep_ring))"
    by (subst run_ctl.simps) (simp only: sleeper_steps(1) ctl.case sum.case fst_conv snd_conv exec)
  have after: "after_resume (0, 0) (sleeping sleep_ring) = Inr (sleeping sleep_ring)"
    by (simp add: after_resume_def sleeping_def fresh_task_of_def set_pending_def Task_done_def)
  have "ScheduledTask_resume sample_lib (0, 0) sleeper = Some (Inr (sleeping sleep_ring))"
    using run after by (simp add: ScheduledTask_resume_def sleeper_def fresh_task_of_def)
  moreover have "loops sleeper 0 = [fresh_task_of 2]" "length (loops (sleeping sleep_ring) 0) = 1"
    by (simp_all add: sleeper_def sleeping_def)
  moreover have "TaskLoop_run_from sample_lib 0 1 (sleeping sleep_ring) = Some (Inr (sleeping sleep_ring))"
    by (subst TaskLoop_run_from.simps) (simp add: sleeping_def)
  ultimately show ?thesis
    by (simp add: TaskLoop_run_def main_thread_def TaskLoop_run_from.simps [of _ 0 0] runnable_def fresh_task_of_def)
qed

abbreviation slept :: "((nat, nat) label, lib_value, nat) world" where
  "slept \<equiv> sleeping (submit_all (documented_liburing 128) sleep_ring)"

lemma sleeper_iteration:
  "run_iteration (documented_liburing 128) cl sample_lib (0, [], []) sleeper = Some (Inr (True, slept))"
proof -
  have "(sleeping sleep_ring)\<lparr>env := (env (sleeping sleep_ring))\<lparr>rings := (rings (env (sleeping sleep_ring)))
        (main_thread := submit_all (documented_liburing 128) (ring_at (sleeping sleep_ring) main_thread))\<rparr>\<rparr> = slept"
    by (simp add: sleeping_def ring_at_def main_thread_def)
  moreover note quiet_iteration [OF sleeper_pass, where L = "documented_liburing 128" and cl = cl]
  ultimately show ?thesis
    by (simp add: sleeper_def sleeping_def sample_env_def ring_at_def main_thread_def sample_ring_def new_uring_def TaskLoop_empty_def)
qed

lemma sample_user_ledger: "ledger_user n sample_user"
  by (simp add: ledger_user_def sample_user_safe) (simp add: sample_user_def)

lemma slept_ledger: "ledger n (env slept) = {#TokenRef 3#}" "queued n (env slept) = {#}"
proof -
  let ?u = "submit_all (documented_liburing 128) sleep_ring"
  have e: "env slept = sample_env\<lparr>rings := (rings sample_env)(main_thread := ?u)\<rparr>" by (simp add: sleeping_def main_thread_def)
  have f: "fresh_rings n sample_env" using sleeper_started(2) by (simp add: sleeper_def)
  have u: "submitted ?u = [sleep_entry]" "sq ?u = []" "cq ?u = []"
    by (simp_all add: submit_all_def Let_def documented_liburing_def sample_ring_def new_uring_def)
  show "ledger n (env slept) = {#TokenRef 3#}" "queued n (env slept) = {#}"
    unfolding e using first_entry_ledger [OF f u] by (simp_all add: sleep_entry_def)
qed

lemma slept_step: "tracked_step (documented_liburing 128) cl sample_lib n (sleeper, {#}) (slept, {#})"
  by (rule quiet_tracked [OF sleeper_iteration])

lemma slept_tracked:
  "(tracked_step (documented_liburing 128) cl sample_lib n)\<^sup>*\<^sup>* (sleeper, {#}) (slept, {#})"
  using slept_step by (rule r_into_rtranclp)

text \<open>The timer expires.\<close>

definition timer_cqe :: cqe where
  "timer_cqe = \<lparr>cqe_result = - ETIME, cqe_fl = 0, cqe_data = 3\<rparr>"

lemma timer_refs: "cqe_refs timer_cqe = {#TokenRef 3#}"
  by (simp add: timer_cqe_def cqe_refs_def cqe_ref_def nullptr_def)

lemma slept_pass: "TaskLoop_run sample_lib main_thread slept = Some (Inr slept)"
  by (rule idle_pass) (simp add: sleeping_def main_thread_def runnable_def set_pending_def)

lemma slept_delivers: "pass_delivers sample_lib 2 {#} main_thread slept [timer_cqe]"
proof -
  have r: "cqes_refs [timer_cqe] = {#TokenRef 3#}" by (simp add: timer_refs)
  then have "may_deliver 2 {#} slept [timer_cqe]"
    unfolding may_deliver_def delivered_def r slept_ledger by (simp add: multishot_token_def)
  then show ?thesis by (simp add: pass_delivers_def slept_pass)
qed

section \<open>Properties\<close>



text \<open>
  C5. Every operation that the kernel holds belongs to a coroutine that waits for it. In every state
  that is reached under the contract of the kernel, each token whose address is in an entry that has not
  been completed, or in a completion that has not been handled, is referred to once, is alive, and, if
  it is the token of an awaited operation, its task is in its list, waits, and is suspended in exactly
  that operation.
\<close>

theorem outstanding_operations_wait:
  assumes "ledger_user n user" and "started root p0" and "fresh_rings n (env p0)"
    and "(tracked_step L cl (lib_code L K user) n)\<^sup>*\<^sup>* (p0, {#}) (p, D)"
    and "TokenRef a \<in># ledger n (env p) - D + queued n (env p)" and "a \<noteq> multishot_token"
  shows "count (ledger n (env p) - D + queued n (env p)) (TokenRef a) = 1 \<and>
    (\<exists>tk. objs p a = Some (Token tk) \<and> (default_op (tok_op tk) \<longrightarrow>
      (\<exists>q h f l. chain_task tk = Some q \<and> in_range p q \<and> valid (task_at p q) \<and> pending (task_at p q) \<and>
         awaiting_handle (task_at p q) = Some h \<and> frames p h = Some f \<and> costate f = Suspended l (AwToken a))))"
proof -
  obtain S where S: "ledger_inv n D lib_role S p" by (rule tracked_reachable [OF assms(1-4)])
  have "TokenRef a \<in># outstanding n D p" using assms(5) by (simp only: outstanding_def)
  from outstanding_once [OF S this assms(6)] show ?thesis by (auto simp: outstanding_def waiting_def)
qed

lemma outstanding_operations_wait_witness:
  "count (ledger 2 (env slept) - {#} + queued 2 (env slept)) (TokenRef 3) = 1 \<and> pending (task_at slept (0, 0))"
proof -
  have "TokenRef 3 \<in># ledger 2 (env slept) - {#} + queued 2 (env slept)" by (simp add: slept_ledger)
  from outstanding_operations_wait [OF sample_user_ledger sleeper_started slept_tracked this]
  show ?thesis by (auto simp: multishot_token_def sleeping_def default_op_def)
qed



end
