(* ===== verification/Ledger_Wakeups.thy ===== *)
theory Ledger_Wakeups
  imports Ledger_Properties
begin

text \<open>
  No wake-up is lost: as long as no ring has been told to quit, every task that waits for an operation
  has exactly one reference to its token among the entries the kernel still holds and the completions
  that lie in the queues; and a completion that is handled makes its task runnable with its result.
\<close>

declare split_paired_All [simp del] split_paired_Ex [simp del]

section \<open>Steps while all rings go on\<close>

definition serving :: "nat \<Rightarrow> ('l, 'v, 'f) world \<Rightarrow> bool" where
  "serving n p \<longleftrightarrow> (\<forall>t \<le> n. \<not> ring_stopped (ring_at p t))"

definition serving_step ::
  "liburing \<Rightarrow> ('l, 'f) client \<Rightarrow> ('l, 'v, 'f, sys_env) code \<Rightarrow> nat
   \<Rightarrow> ('l, 'v, 'f) world \<times> ref multiset \<Rightarrow> ('l, 'v, 'f) world \<times> ref multiset \<Rightarrow> bool" where
  "serving_step L cl code n x y \<longleftrightarrow> tracked_step L cl code n x y \<and> serving n (fst y)"

definition attended_inv :: "nat \<Rightarrow> (('u, 'f) label, lib_value, 'f) world \<times> ref multiset \<Rightarrow> bool" where
  "attended_inv n x \<longleftrightarrow>
     (\<exists>S. ledger_inv n (snd x) lib_role S (fst x)) \<and> attended (fst x) (outstanding n (snd x) (fst x))"

lemma arrive_attends:
  assumes A: "attended p (outstanding n D p)" and t: "t \<le> n" and m: "may_deliver n D p cs"
    and p': "p' = p\<lparr>env := (env p)\<lparr>rings := (rings (env p))(t := arrive cs (submit_all L (rings (env p) t)))\<rparr>\<rparr>"
  shows "attended p' (outstanding n (D + delivered cs) p')"
proof -
  let ?u = "arrive cs (submit_all L (rings (env p) t))"
  have u: "cq ?u = cq (rings (env p) t) @ cs" "ring_refs ?u = ring_refs (rings (env p) t)"
    by (simp_all add: arrive_def)
  have "attended p (outstanding n (D + delivered cs) p')"
    unfolding p' outstanding_arrive(1) [OF t m u] by (rule attended_mono [OF A]) simp
  then show ?thesis by (simp add: attended_def p')
qed

lemma quits_attends:
  assumes I: "ledger_inv n D role S p" and q: "quits_sent L p = Inr p'" and A: "attended p (outstanding n D p)"
  shows "attended p' (outstanding n D p')"
proof -
  have D: "D \<subseteq># ledger n (env p)" using I by (simp add: ledger_inv_def accounted_for_def)
  note s = quits_sent_adds [OF q, of n]
  obtain X where X: "ledger n (env p') = ledger n (env p) + X" by (rule addsE [OF s])
  have "env_gains n X (env p) (env p')" by (simp add: env_gains_def X addsD(7) [OF s])
  then show ?thesis
    by (rule attended_step [OF A D]) (use calm_waiting [OF calm_handlers.rel_quits [OF q]] in blast)
qed

lemma wait_attends:
  assumes I: "ledger_inv n D role S p" and t: "t \<le> n" and m: "may_deliver n D p arrived"
    and e: "wait_and_handle L cl t arrived during p = Inr p'" and run: "\<not> ring_stopped (ring_at p' t)"
    and A: "attended p (outstanding n D p)"
  shows "attended p' (outstanding n (D + delivered arrived) p')"
  using process_batch_attends [OF inv_arrive [OF I t m, of L] t _ run arrive_attends [OF A t m refl, of L]] e
  by (simp add: wait_and_handle_def)

lemma attended_start:
  assumes "tracked_start root n x"
  shows "attended_inv n x"
proof -
  obtain p where x: "x = (p, {#})" and st: "started root p" using assms by (cases x) (auto simp: tracked_start_def)
  obtain s where e: "emplace_back main_thread root (initial_proc s) = Inr p" using st by (auto simp: started_def)
  have "calm (initial_proc s) p" by (rule grow_calm [OF grow.grow_spawn [OF grow.grow_refl e]])
  then have "attended p R" for R using calm_waiting [of _ p]
    by (fastforce simp: attended_def waiting_def in_range_def initial_proc_def)
  then show ?thesis using tracked_start_inv [OF assms] x by (simp add: attended_inv_def tracked_inv_def)
qed

lemma serving_step_inv:
  assumes I: "attended_inv n x" and s: "serving_step L cl (lib_code L K (accounted_user n user)) n x y"
  shows "attended_inv n y"
proof -
  let ?code = "lib_code L K (accounted_user n user)"
  have st: "tracked_step L cl ?code n x y" and run: "serving n (fst y)" using s by (simp_all add: serving_step_def)
  have "tracked_inv n y"
    by (rule tracked_step_inv [OF _ st]) (use I in \<open>simp add: attended_inv_def tracked_inv_def\<close>)
  moreover have "attended (fst y) (outstanding n (snd y) (fst y))"
    using st
  proof (cases rule: tracked_step.cases)
    case (tracked_main D p arrived ret during p')
    obtain S where S: "ledger_inv n D lib_role S p" and A: "attended p (outstanding n D p)"
      using I tracked_main by (auto simp: attended_inv_def)
    have run': "\<not> ring_stopped (ring_at p' main_thread)" using run tracked_main(2) main_le by (simp add: serving_def)
    obtain p1 where p1: "TaskLoop_run ?code main_thread p = Some (Inr p1)"
      and rest: "wait_and_handle L cl main_thread arrived during p1 = Inr p' \<or>
        p' = p1\<lparr>env := (env p1)\<lparr>rings := (rings (env p1))(main_thread := arrive arrived (submit_all L (rings (env p1) main_thread)))\<rparr>\<rparr>"
      by (rule run_iteration_goes_on [OF tracked_main(4)])
    obtain S1 where S1: "ledger_inv n D lib_role S1 p1" and A1: "attended p1 (outstanding n D p1)"
      using library_account.pass_attends [OF S main_le p1 A] by blast
    have m: "may_deliver n D p1 arrived" using tracked_main(3) p1 by (simp add: pass_delivers_def)
    have "attended p' (outstanding n (D + delivered arrived) p')"
      using rest wait_attends [OF S1 main_le m _ run' A1] arrive_attends [OF A1 main_le m, of _ L] by auto
    then show ?thesis using tracked_main(2) run' by (simp add: thrown_away_def)
  next
    case (tracked_end D p arrived ret during p')
    then obtain S where S: "ledger_inv n D lib_role S p" and A: "attended p (outstanding n D p)"
      using I by (auto simp: attended_inv_def)
    from tracked_end(4) show ?thesis
    proof (rule run_iteration_ends)
      assume "TaskLoop_run ?code main_thread p = Some (Inr p')"
      from library_account.pass_attends [OF S main_le this A] show ?thesis using tracked_end(2) by auto
    qed (use A tracked_end(2) in simp)
  next
    case (tracked_worker t D p arrived during go_on p')
    obtain S where S: "ledger_inv n D lib_role S p" and A: "attended p (outstanding n D p)"
      using I tracked_worker by (auto simp: attended_inv_def)
    have t: "t \<le> n" using tracked_worker(3) by simp
    have run': "\<not> ring_stopped (ring_at p' t)" using run tracked_worker(2) t by (simp add: serving_def)
    obtain p1 where p1: "TaskLoop_run ?code t p = Some (Inr p1)" and w: "wait_and_handle L cl t arrived during p1 = Inr p'"
      by (rule worker_iteration_parts [OF tracked_worker(5)])
    obtain S1 where S1: "ledger_inv n D lib_role S1 p1" and A1: "attended p1 (outstanding n D p1)"
      using library_account.pass_attends [OF S t p1 A] by blast
    have m: "may_deliver n D p1 arrived" using tracked_worker(4) p1 by (simp add: pass_delivers_def)
    show ?thesis using wait_attends [OF S1 t m w run' A1] tracked_worker(2) run' by (simp add: thrown_away_def)
  next
    case (tracked_terminate p D arrived p')
    obtain S where S: "ledger_inv n D lib_role S p" and A: "attended p (outstanding n D p)"
      using I tracked_terminate by (auto simp: attended_inv_def)
    obtain p3 where p3: "quits_sent L p = Inr p3"
      and pa: "process_all L cl main_thread (p3\<lparr>env := (env p3)\<lparr>rings := (rings (env p3))(main_thread := arrive arrived (submit_all L (rings (env p3) main_thread)))\<rparr>\<rparr>) = Inr p'"
      by (rule terminate_parts [OF tracked_terminate(3,5)])
    obtain S3 where S3: "ledger_inv n D lib_role S3 p3" using inv_quits [OF S p3] by blast
    have m: "may_deliver n D p3 arrived" using tracked_terminate(4) p3 by simp
    show ?thesis
      using process_all_attends [OF inv_arrive [OF S3 main_le m, of L] main_le pa
          arrive_attends [OF quits_attends [OF S p3 A] main_le m refl, of L]] tracked_terminate(2) by simp
  qed
  ultimately show ?thesis by (simp add: attended_inv_def tracked_inv_def)
qed

interpretation served: transition_invariant "tracked_start root n"
    "serving_step L cl (lib_code L K (accounted_user n user)) n" "attended_inv n"
  for root n L cl K user
  by unfold_locales (auto intro: attended_start serving_step_inv)

section \<open>From a completion to its coroutine\<close>

text \<open>Task \<open>q\<close> is suspended at \<open>l\<close> in the operation whose token is at \<open>a\<close>.\<close>

definition suspended_on :: "('l, 'v, 'f) world \<Rightarrow> task_ptr \<Rightarrow> handle \<Rightarrow> ('l, 'v) frame \<Rightarrow> 'l \<Rightarrow> address \<Rightarrow> bool" where
  "suspended_on p q h f l a \<longleftrightarrow> in_range p q \<and> valid (task_at p q) \<and> awaiting_handle (task_at p q) = Some h \<and>
     frames p h = Some f \<and> costate f = Suspended l (AwToken a)"

lemma suspended_waiting: "suspended_on p q h f l a \<Longrightarrow> pending (task_at p q) \<Longrightarrow> waiting p q a"
  by (auto simp: suspended_on_def waiting_def)

lemma suspended_env [simp]: "suspended_on (p\<lparr>env := s\<rparr>) q h f l a = suspended_on p q h f l a"
  by (simp add: suspended_on_def)

lemma suspended_chain: "well_formed S p \<Longrightarrow> suspended_on p q h f l a \<Longrightarrow> h = last (S q) \<and> h \<in> set (S q)"
  using wf_task [of S p q] by (auto simp: suspended_on_def at_rest_def)

lemma suspended_handled:
  assumes W: "well_formed S p" and s: "suspended_on p q h f l a" and u: "undisturbed S S' p p'"
  shows "suspended_on p' q h f l a"
proof -
  have r: "in_range p q" using s by (simp add: suspended_on_def)
  obtain b where b: "task_at p' q = (task_at p q)\<lparr>pending := b\<rparr>" "in_range p' q" "frames p' h = frames p h"
    using u r suspended_chain [OF W s] unfolding undisturbed_def by blast
  then show ?thesis using s by (simp add: suspended_on_def)
qed

text \<open>A pass of the task loop leaves a task that waits alone.\<close>

lemma suspended_pass:
  assumes W: "well_formed S p" and s: "suspended_on p q h f l a" and w: "pending (task_at p q)" and code: "safe_code code"
    and ret: "TaskLoop_run code t p = Some (Inr p')"
  shows "suspended_on p' q h f l a" and "pending (task_at p' q)"
proof -
  have "loop_ok S (idle_from p t 0) p (Inr p')" by (rule TaskLoop_run_from_ok [OF code _ W]) (use ret in \<open>simp add: TaskLoop_run_def\<close>)
  moreover have r: "in_range p q" and "idle_from p t 0 q" using s w by (simp_all add: suspended_on_def idle_from_def runnable_def)
  ultimately have "task_at p' q = task_at p q" "in_range p' q" "frames p' h = frames p h"
    using suspended_chain [OF W s] unfolding loop_ok_def sum.case by blast+
  then show "suspended_on p' q h f l a" "pending (task_at p' q)" using s w by (simp_all add: suspended_on_def)
qed

text \<open>The result of a completion has been written and its task is runnable.\<close>

definition completed :: "('l, 'v, 'f) world \<Rightarrow> task_ptr \<Rightarrow> handle \<Rightarrow> ('l, 'v) frame \<Rightarrow> 'l \<Rightarrow> cqe \<Rightarrow> bool" where
  "completed p q h f l c \<longleftrightarrow> suspended_on p q h f l (cqe_data c) \<and> \<not> pending (task_at p q) \<and>
     (\<exists>tk. objs p (cqe_data c) = Some (Token tk) \<and> cqe_res tk = cqe_result c \<and> cqe_flags tk = cqe_fl c)"

lemma completed_env [simp]: "completed (p\<lparr>env := s\<rparr>) q h f l c = completed p q h f l c"
  by (simp add: completed_def)

lemma completed_resumes:
  assumes "completed p q h f l c"
  shows "runnable (task_at p q) \<and>
    (\<exists>p'. cstep code (fst q) (Enter h) p = Inr (Exec h l (RCqe (cqe_result c) (cqe_fl c)), p'))"
  using assms by (auto simp: completed_def suspended_on_def runnable_def cstep_def enter_def set_costate_def
      await_resume_def UringAwaiter_await_resume_def token_at_def)

lemma handle_request_completes:
  assumes W: "well_formed S p" and s: "suspended_on p q h f l a" and c: "cqe_ref c = TokenRef a" "a \<noteq> nullptr"
    and e: "handle_request L cl t c p = Inr p'"
  shows "completed p' q h f l c"
proof -
  have m: "\<not> is_msg RingTask c" "\<not> is_msg RingFuncTask c" "\<not> is_msg MultiAccTask c" "cqe_data c = a"
    using c by (auto simp: cqe_ref_def split: if_splits)
  have "at_rest (frames p) (objs p) (S q) q (task_at p q)" by (rule wf_task [OF W]) (use s in \<open>simp add: suspended_on_def\<close>)
  then have "top_ok (frames p) (objs p) q h" using s by (simp add: suspended_on_def at_rest_def)
  then obtain tk where tk: "objs p a = Some (Token tk)" "chain_task tk = Some q" "default_op (tok_op tk)"
    using s by (auto simp: suspended_on_def top_ok_def aw_ok_def)
  have "wake (Some q) (p\<lparr>objs := (objs p)(a \<mapsto> Token (tk\<lparr>cqe_res := cqe_result c, cqe_flags := cqe_fl c\<rparr>))\<rparr>) = Inr p'"
    using e m c tk by (cases "tok_op tk") (simp_all add: handle_request_def token_at_def handle_token_def default_op_def)
  from wake_cases [OF this] show ?thesis using s m by (simp add: completed_def suspended_on_def set_pending_def)
qed

lemma completed_stays:
  assumes W: "well_formed S p" and d: "completed p q h f l c" and ok: "event_ok p c'" and ne: "cqe_data c' \<noteq> cqe_data c"
    and e: "handle_request L cl t c' p = Inr p'"
  shows "completed p' q h f l c"
proof -
  obtain S' where H: "handled S S' (cqe_data c') p p'"
    using handle_request_done [OF W ok, of L cl t] e by (auto simp: event_done_def)
  have "suspended_on p' q h f l (cqe_data c)"
    using suspended_handled [OF W _ handled_undisturbed [OF H]] d by (simp add: completed_def)
  moreover have "\<not> pending (task_at p' q)"
    using calm_handlers.rel_request [OF starts_anywhere e] d calculation
    unfolding calm_def completed_def suspended_on_def by blast
  moreover have "objs p' (cqe_data c) = objs p (cqe_data c)"
    using H d ne unfolding handled_def completed_def by metis
  ultimately show ?thesis using d by (auto simp: completed_def)
qed

lemma completed_batch:
  "well_formed S p \<Longrightarrow> events_ok p cs \<Longrightarrow> completed p q h f l c \<Longrightarrow> \<forall>c' \<in> set cs. cqe_data c' \<noteq> cqe_data c \<Longrightarrow>
   handle_each L cl t cs p = Inr p' \<Longrightarrow> completed p' q h f l c"
proof (induction cs arbitrary: S p)
  case (Cons x cs)
  obtain p1 where p1: "handle_request L cl t x p = Inr p1" "handle_each L cl t cs p1 = Inr p'"
    using Cons.prems(5) by (auto simp: bind_res_eq_Inr)
  have x: "event_ok p x" using Cons.prems(2) by (simp add: events_ok_def)
  obtain S1 where W1: "well_formed S1 p1" and H: "handled S S1 (cqe_data x) p p1"
    using handle_request_done [OF Cons.prems(1) x, of L cl t] p1(1) by (auto simp: event_done_def)
  have "completed p1 q h f l c" by (rule completed_stays [OF Cons.prems(1,3) x _ p1(1)]) (use Cons.prems(4) in simp)
  then show ?case using Cons.IH [OF W1 events_ok_step [OF Cons.prems(2) H]] Cons.prems(4) p1(2) by simp
qed simp

lemma handle_each_completes:
  "well_formed S p \<Longrightarrow> events_ok p cs \<Longrightarrow> suspended_on p q h f l a \<Longrightarrow> c \<in> set cs \<Longrightarrow> cqe_ref c = TokenRef a \<Longrightarrow>
   message_address a \<Longrightarrow> handle_each L cl t cs p = Inr p' \<Longrightarrow> completed p' q h f l c"
proof (induction cs arbitrary: S p)
  case (Cons x cs)
  obtain p1 where p1: "handle_request L cl t x p = Inr p1" "handle_each L cl t cs p1 = Inr p'"
    using Cons.prems(7) by (auto simp: bind_res_eq_Inr)
  have x: "event_ok p x" using Cons.prems(2) by (simp add: events_ok_def)
  obtain S1 where W1: "well_formed S1 p1" and H: "handled S S1 (cqe_data x) p p1"
    using handle_request_done [OF Cons.prems(1) x, of L cl t] p1(1) by (auto simp: event_done_def)
  have ok: "events_ok p1 cs" by (rule events_ok_step [OF Cons.prems(2) H])
  have ca: "cqe_data c = a" using Cons.prems(5) by (auto simp: cqe_ref_def split: if_splits)
  show ?case
  proof (cases "x = c")
    case True
    have "completed p1 q h f l c"
      by (rule handle_request_completes [OF Cons.prems(1,3,5) _ p1(1) [unfolded True]])
        (use Cons.prems(6) in \<open>simp add: message_address_def\<close>)
    moreover have "cqe_data c \<notin> cqe_data ` set cs"
      using Cons.prems(2,6) True ca by (simp add: events_ok_def single_use_def)
    then have "\<forall>c' \<in> set cs. cqe_data c' \<noteq> cqe_data c" by (metis image_eqI)
    ultimately show ?thesis using completed_batch [OF W1 ok] p1(2) by blast
  next
    case False
    then show ?thesis
      using Cons.IH [OF W1 ok suspended_handled [OF Cons.prems(1,3) handled_undisturbed [OF H]]] Cons.prems p1(2) by simp
  qed
qed simp

text \<open>A whole iteration of a worker, or of the main loop when its wait succeeds.\<close>

definition iterates ::
  "liburing \<Rightarrow> ('l, 'f) client \<Rightarrow> ('l, 'v, 'f, sys_env) code \<Rightarrow> nat \<Rightarrow> nat \<Rightarrow> cqe list \<Rightarrow> cqe list
   \<Rightarrow> ('l, 'v, 'f) world \<Rightarrow> ('l, 'v, 'f) world \<Rightarrow> bool" where
  "iterates L cl code n t arrived during p p' \<longleftrightarrow>
     (if t = main_thread then run_iteration L cl code (0, arrived, during) p = Some (Inr (True, p'))
      else t \<le> n \<and> (\<exists>go_on. worker_iteration L cl code t arrived during p = Some (Inr (go_on, p'))))"

lemma iterates_parts:
  assumes "iterates L cl code n t arrived during p p'"
  shows "t \<le> n \<and> (\<exists>p1. TaskLoop_run code t p = Some (Inr p1) \<and> wait_and_handle L cl t arrived during p1 = Inr p')"
proof (cases "t = main_thread")
  case True
  then have "run_iteration L cl code (0, arrived, during) p = Some (Inr (True, p'))" using assms by (simp add: iterates_def)
  then show ?thesis using True main_le
    by (auto simp: run_iteration_def wait_and_handle_def bind_res_eq_Inr split: option.splits if_splits)
next
  case False
  then obtain go_on where "worker_iteration L cl code t arrived during p = Some (Inr (go_on, p'))" "t \<le> n"
    using assms by (auto simp: iterates_def)
  then show ?thesis using worker_iteration_parts by metis
qed

lemma iteration_completes:
  assumes I: "ledger_inv n D lib_role S p" and d: "pass_delivers (lib_code L K (accounted_user n user)) n D t p arrived"
    and s: "suspended_on p q h f l a" "pending (task_at p q)"
    and c: "c \<in> set arrived" "TokenRef a \<in># cqe_refs c"
    and fits: "\<forall>p1. TaskLoop_run (lib_code L K (accounted_user n user)) t p = Some (Inr p1) \<longrightarrow>
      length (cq (ring_at p1 t) @ arrived) \<le> URING_PEEK_CQES_BATCH"
    and e: "iterates L cl (lib_code L K (accounted_user n user)) n t arrived during p p'"
    and run: "\<not> ring_stopped (ring_at p' t)"
  shows "completed p' q h f l c"
proof -
  let ?code = "lib_code L K (accounted_user n user)"
  have W: "well_formed S p" using I by (simp add: ledger_inv_def)
  obtain p1 where tn: "t \<le> n" and p1: "TaskLoop_run ?code t p = Some (Inr p1)"
    and w: "wait_and_handle L cl t arrived during p1 = Inr p'"
    using iterates_parts [OF e] by blast
  obtain S1 where S1: "ledger_inv n D lib_role S1 p1" using library_account.pass_keeps [OF I tn p1] by blast
  then have W1: "well_formed S1 p1" by (simp add: ledger_inv_def)
  note s1 = suspended_pass [OF W s library_account.safe p1]
  have m: "message_address a"
  proof -
    have "a \<noteq> multishot_token" "\<exists>tk. objs p1 a = Some (Token tk)"
      using waiting_names [OF W1 suspended_waiting [OF s1]] by blast+
    moreover have "a \<noteq> nullptr" using c(2) by (auto simp: cqe_refs_def split: if_splits)
    ultimately show ?thesis by (simp add: message_address_def)
  qed
  have r: "cqe_ref c = TokenRef a" using c(2) by (auto simp: cqe_refs_def split: if_splits)
  let ?pa = "p1\<lparr>env := (env p1)\<lparr>rings := (rings (env p1))(t := arrive arrived (submit_all L (rings (env p1) t)))\<rparr>\<rparr>"
  let ?cs = "cq (ring_at p1 t) @ arrived"
  have ev: "events_ok p1 ?cs"
    using contract_arrivals [OF I tn d] p1 by (simp add: arrivals_ok_def)
  have cq: "cq (rings (env ?pa) t) = ?cs" by (simp add: arrive_def ring_at_def)
  have len: "take URING_PEEK_CQES_BATCH ?cs = ?cs" using fits p1 by simp
  have pb: "process_batch L cl t during ?pa = Inr p'" using w by (simp add: wait_and_handle_def)
  obtain p2 u where p2: "handle_while_running L cl t (take URING_PEEK_CQES_BATCH (cq (rings (env ?pa) t))) ?pa = Inr p2"
    and u: "u = consume (length (take URING_PEEK_CQES_BATCH (cq (rings (env ?pa) t)))) (rings (env p2) t)"
    and rest: "(if ring_stopped u then on_ring t (cancel_everything L during) else Inr)
      (p2\<lparr>env := (env p2)\<lparr>rings := (rings (env p2))(t := u)\<rparr>\<rparr>) = Inr p'"
    by (rule process_batch_cases [OF pb])
  have ns: "\<not> ring_stopped u" by (rule batch_goes_on [OF rest run])
  then have p': "p' = p2\<lparr>env := (env p2)\<lparr>rings := (rings (env p2))(t := u)\<rparr>\<rparr>" using rest by simp
  have "\<not> ring_stopped (ring_at p2 t)" using ns by (simp add: u consume_def ring_at_def)
  then have each: "handle_each L cl t ?cs ?pa = Inr p2" using p2 while_running_each unfolding cq len by blast
  have "completed p2 q h f l c"
    by (rule handle_each_completes [OF _ _ _ _ r m each, of S1]) (use W1 ev s1 c in \<open>simp_all add: well_formed_env\<close>)
  then show ?thesis by (simp add: p')
qed

section \<open>Properties\<close>

text \<open>The sleeping coroutine is woken.\<close>

lemma slept_suspended:
  "in_range slept (0, 0)" "valid (task_at slept (0, 0))" "pending (task_at slept (0, 0))"
  "awaiting_handle (task_at slept (0, 0)) = Some 2"
  "frames slept 2 = Some \<lparr>promise = set_chain_root (Some (0, 0)) new_promise, costate = Suspended (P Sleep_for_1) (AwToken 3)\<rparr>"
  by (simp_all add: in_range_def task_at_def sleeping_def fresh_task_of_def set_pending_def)

lemma timer_handled:
  "\<exists>p'. process_batch (documented_liburing 128) cl main_thread []
     (slept\<lparr>env := (env slept)\<lparr>rings := (rings (env slept))(main_thread := arrive [timer_cqe] (rings (env slept) main_thread))\<rparr>\<rparr>) = Inr p' \<and>
     \<not> ring_stopped (ring_at p' main_thread)"
  by (auto simp: process_batch_def Let_def ring_at_def arrive_def sleeping_def main_thread_def submit_all_def sample_ring_def
      new_uring_def URING_PEEK_CQES_BATCH_def handle_request_def timer_cqe_def token_at_def handle_token_def wake_def
      deref_task_def upd_task_def consume_def nullptr_def sample_env_def)

lemma slept_woken:
  obtains p' where "iterates (documented_liburing 128) cl sample_lib 2 main_thread [timer_cqe] [] slept p'"
    and "\<not> ring_stopped (ring_at p' main_thread)"
proof -
  obtain p' where p': "process_batch (documented_liburing 128) cl main_thread []
     (slept\<lparr>env := (env slept)\<lparr>rings := (rings (env slept))(main_thread := arrive [timer_cqe] (rings (env slept) main_thread))\<rparr>\<rparr>) = Inr p'"
    "\<not> ring_stopped (ring_at p' main_thread)"
    using timer_handled by blast
  have "submit_all (documented_liburing 128) (rings (env slept) main_thread) = rings (env slept) main_thread"
    by (simp add: sleeping_def main_thread_def submit_all_def Let_def documented_liburing_def)
  then have "iterates (documented_liburing 128) cl sample_lib 2 main_thread [timer_cqe] [] slept p'"
    using p'(1) slept_pass by (simp add: iterates_def run_iteration_def TaskLoop_empty_def) (simp add: sleeping_def main_thread_def sample_env_def)
  then show thesis using that p'(2) by blast
qed

lemma slept_served:
  "(serving_step (documented_liburing 128) cl sample_lib n)\<^sup>*\<^sup>* (sleeper, {#}) (slept, {#})"
proof -
  have "serving n slept"
    by (simp add: serving_def ring_at_def sleeping_def submit_all_def Let_def sample_env_def sample_ring_def new_uring_def)
  then have "serving_step (documented_liburing 128) cl sample_lib n (sleeper, {#}) (slept, {#})"
    by (simp add: serving_step_def slept_step)
  then show ?thesis by (rule r_into_rtranclp)
qed

text \<open>
  C2. No wake-up is lost. Let a system of user code that waits through the library run in any
  interleaving under the contract of the kernel, while no ring has been told to quit. Then for every
  task that waits for an operation, exactly one reference to its token is outstanding: either the
  kernel still holds the entry, and will complete it, or the completion lies in the queue of a ring.
\<close>

theorem no_lost_wakeup:
  assumes "ledger_user n user" and "started root p0" and "fresh_rings n (env p0)"
    and "(serving_step L cl (lib_code L K user) n)\<^sup>*\<^sup>* (p0, {#}) (p, D)"
    and "in_range p q" and "valid (task_at p q)" and "pending (task_at p q)"
    and "awaiting_handle (task_at p q) = Some h" and "frames p h = Some f" and "costate f = Suspended l (AwToken a)"
  shows "count (ledger n (env p) - D + queued n (env p)) (TokenRef a) = 1"
proof -
  have "tracked_start root n (p0, {#})" using assms(2,3) by (simp add: tracked_start_def)
  moreover have "(serving_step L cl (lib_code L K (accounted_user n user)) n)\<^sup>*\<^sup>* (p0, {#}) (p, D)"
    using assms(4) by (simp add: accounted_user_id [OF assms(1)])
  ultimately have "attended_inv n (p, D)" by (rule served.reachable_inv)
  then obtain S where S: "ledger_inv n D lib_role S p" and A: "attended p (outstanding n D p)"
    by (auto simp: attended_inv_def)
  have w: "waiting p q a" using assms(5-10) by (auto simp: waiting_def)
  then have "TokenRef a \<in># outstanding n D p" using A by (simp add: attended_def)
  moreover have "a \<noteq> multishot_token" using waiting_names [OF _ w] S by (auto simp: ledger_inv_def)
  ultimately show ?thesis using outstanding_once [OF S] by (simp add: outstanding_def)
qed

lemma no_lost_wakeup_witness:
  "count (ledger 2 (env slept) - {#} + queued 2 (env slept)) (TokenRef 3) = 1"
  by (rule no_lost_wakeup [OF sample_user_ledger sleeper_started slept_served slept_suspended]) simp

text \<open>
  C3. A completed operation resumes its coroutine. In a state that is reached under the contract of the
  kernel, let task q wait at l for the operation with the token at a, and let the completion c of that
  operation arrive during an iteration of a worker whose queue fits into one batch and whose ring is
  not told to quit. Then after the iteration the task is runnable, and the next resume enters the
  coroutine that waited, at l, with exactly the result and the flags of c.
\<close>

theorem completed_operation_resumes:
  assumes "ledger_user n user" and "started root p0" and "fresh_rings n (env p0)"
    and "(tracked_step L cl (lib_code L K user) n)\<^sup>*\<^sup>* (p0, {#}) (p, D)"
    and "in_range p q" and "valid (task_at p q)" and "pending (task_at p q)"
    and "awaiting_handle (task_at p q) = Some h" and "frames p h = Some f" and "costate f = Suspended l (AwToken a)"
    and "pass_delivers (lib_code L K user) n D t p arrived" and "c \<in> set arrived" and "TokenRef a \<in># cqe_refs c"
    and "\<forall>p1. TaskLoop_run (lib_code L K user) t p = Some (Inr p1) \<longrightarrow>
      length (cq (ring_at p1 t) @ arrived) \<le> URING_PEEK_CQES_BATCH"
    and "iterates L cl (lib_code L K user) n t arrived during p p'"
    and "\<not> ring_stopped (ring_at p' t)"
  shows "runnable (task_at p' q) \<and> awaiting_handle (task_at p' q) = Some h \<and>
    (\<exists>p''. cstep (lib_code L K user) (fst q) (Enter h) p' = Inr (Exec h l (RCqe (cqe_result c) (cqe_fl c)), p''))"
proof -
  obtain S where S: "ledger_inv n D lib_role S p" by (rule tracked_reachable [OF assms(1-4)])
  have s: "suspended_on p q h f l a" using assms(5,6,8-10) by (simp add: suspended_on_def)
  note whole = iteration_completes [where user = user and n = n, unfolded accounted_user_id [OF assms(1)]]
  have "completed p' q h f l c"
    by (rule whole [OF S assms(11) s assms(7,12-16)])
  then show ?thesis using completed_resumes [of p' q h f l c] by (auto simp: completed_def suspended_on_def)
qed

lemma completed_operation_resumes_witness:
  "\<exists>p' p''. runnable (task_at p' (0, 0)) \<and>
     cstep sample_lib 0 (Enter 2) p' = Inr (Exec 2 (P Sleep_for_1) (RCqe (- ETIME) 0), p'')"
proof -
  obtain p' where p': "iterates (documented_liburing 128) \<lparr>call_func = \<lambda>g c. User g, hops = 1\<rparr> sample_lib 2 main_thread [timer_cqe] [] slept p'"
    "\<not> ring_stopped (ring_at p' main_thread)"
    by (rule slept_woken)
  have fits: "\<forall>p1. TaskLoop_run sample_lib main_thread slept = Some (Inr p1) \<longrightarrow>
      length (cq (ring_at p1 main_thread) @ [timer_cqe]) \<le> URING_PEEK_CQES_BATCH"
    by (simp add: slept_pass) (simp add: ring_at_def sleeping_def main_thread_def submit_all_def Let_def sample_ring_def
      new_uring_def URING_PEEK_CQES_BATCH_def)
  have "timer_cqe \<in> set [timer_cqe]" "TokenRef 3 \<in># cqe_refs timer_cqe" by (simp_all add: timer_refs)
  from completed_operation_resumes [OF sample_user_ledger sleeper_started slept_tracked slept_suspended _ slept_delivers this fits p']
  show ?thesis by (auto simp: timer_cqe_def)
qed

end
