(* ===== verification/Served.thy ===== *)
theory Served
  imports Transfers Ledger_Wakeups
begin

text \<open>
  Transfers in a running system: what an iteration of a thread leaves of the coroutines of a task that
  waits, and so the way of a result from the completion through the operation and the member function to
  the caller.
\<close>

declare split_paired_All [simp del] split_paired_Ex [simp del]

section \<open>What an iteration leaves of a task that waits\<close>

definition chain_kept :: "chains \<Rightarrow> task_ptr \<Rightarrow> ('l, 'v, 'f, 's) proc \<Rightarrow> ('l, 'v, 'f, 's) proc \<Rightarrow> bool" where
  "chain_kept S q p p' \<longleftrightarrow> in_range p' q \<and> (\<forall>h \<in> set (S q). frames p' h = frames p h)"

lemma chain_kept_env [simp]: "chain_kept S q p (p'\<lparr>env := s\<rparr>) = chain_kept S q p p'"
  by (simp add: chain_kept_def)

lemma pass_keeps_chain:
  assumes "safe_code code" and W: "well_formed S p" and q: "in_range p q" "pending (task_at p q)"
    and ret: "TaskLoop_run code t p = Some (Inr p')"
  obtains S' where "well_formed S' p'" and "S' q = S q" and "chain_kept S q p p'"
proof -
  have "loop_ok S (idle_from p t 0) p (Inr p')"
    by (rule TaskLoop_run_from_ok [OF assms(1) _ W]) (use ret in \<open>simp add: TaskLoop_run_def\<close>)
  moreover have "idle_from p t 0 q" using q by (simp add: idle_from_def runnable_def)
  ultimately show thesis using q that unfolding loop_ok_def sum.case chain_kept_def by blast
qed

lemma handling_keeps_chain:
  assumes W: "well_formed S p" and ev: "events_ok p (cq (ring_at p t) @ arrived)" and q: "in_range p q"
    and w: "wait_and_handle L cl t arrived during p = Inr p'"
  shows "chain_kept S q p p'"
proof -
  let ?p = "p\<lparr>env := (env p)\<lparr>rings := (rings (env p))(t := arrive arrived (submit_all L (rings (env p) t)))\<rparr>\<rparr>"
  have "cq (ring_at ?p t) = cq (ring_at p t) @ arrived" by (simp add: ring_at_def arrive_def)
  then have "batch_ok S ?p (process_batch L cl t during ?p)" by (intro process_batch_ok) (use W ev in auto)
  moreover have "process_batch L cl t during ?p = Inr p'" using w by (simp add: wait_and_handle_def)
  ultimately obtain S' where "undisturbed S S' ?p p'" by (auto simp: batch_ok_def)
  then show ?thesis using q by (auto simp: undisturbed_def chain_kept_def in_range_def)
qed

lemma iteration_keeps_chain:
  assumes I: "ledger_inv n D lib_role S p" and d: "pass_delivers (lib_code L K (accounted_user n user)) n D t p arrived"
    and q: "in_range p q" "pending (task_at p q)"
    and e: "iterates L cl (lib_code L K (accounted_user n user)) n t arrived during p p'"
  shows "chain_kept S q p p'"
proof -
  let ?code = "lib_code L K (accounted_user n user)"
  obtain p1 where tn: "t \<le> n" and p1: "TaskLoop_run ?code t p = Some (Inr p1)"
    and w: "wait_and_handle L cl t arrived during p1 = Inr p'"
    using iterates_parts [OF e] by blast
  have W: "well_formed S p" using I by (simp add: ledger_inv_def)
  obtain S1 where S1: "well_formed S1 p1" "S1 q = S q" "chain_kept S q p p1"
    by (rule pass_keeps_chain [OF library_account.safe W q p1])
  have "events_ok p1 (cq (ring_at p1 t) @ arrived)"
    using contract_arrivals [OF I tn d] p1 by (simp add: arrivals_ok_def)
  then have "chain_kept S1 q p1 p'" by (rule handling_keeps_chain [OF S1(1) _ _ w]) (use S1(3) in \<open>simp add: chain_kept_def\<close>)
  then show ?thesis using S1(2,3) by (simp add: chain_kept_def)
qed

text \<open>The coroutine that waits and its caller are in the chain of the task.\<close>

lemma waiting_chain:
  assumes W: "well_formed S p" and q: "in_range p q" "valid (task_at p q)" "awaiting_handle (task_at p q) = Some hw"
    and f: "frames p hw = Some fw" "caller (promise fw) = Some h"
  shows "hw \<in> set (S q)" and "h \<in> set (S q)"
proof -
  have ne: "S q \<noteq> []" and L: "linked (frames p) q None (S q)" and lh: "last (S q) = hw"
    using wf_task [OF W q(1)] q(2,3) by (auto simp: at_rest_def)
  then show "hw \<in> set (S q)" by auto
  obtain f' where "frames p (last (S q)) = Some f'"
    and "pr_ok q (if butlast (S q) = [] then None else Some (last (butlast (S q)))) (promise f')"
    by (rule linked_last [OF L ne])
  then have "butlast (S q) \<noteq> [] \<and> last (butlast (S q)) = h" using f lh by (auto simp: pr_ok_def split: if_splits)
  then show "h \<in> set (S q)" using in_set_butlastD last_in_set by fastforce
qed

section \<open>The way of the result\<close>

text \<open>The points at which the member function and the operation wait.\<close>

fun transfer_points :: "conn_label \<Rightarrow> (conn_label \<times> prep_label) option" where
  "transfer_points (Read_some c n) = Some (Read_some_2, Read_1)"
| "transfer_points (Write_some c buf n) = Some (Write_2, Write_1)"
| "transfer_points (Write_all c buf) = Some (Write_2, Write_1)"
| "transfer_points _ = None"

lemma transfer_point_code:
  assumes "transfer_of l = Some (c, g, msg)" and "transfer_points l = Some (l2, k)"
  shows "lib_code L K user (P k) (RCqe x fl) = outcome (transfer_result msg x)"
    and "lib_code L K user (C l2) (deliver (transfer_result msg x)) = outcome (transfer_result msg x)"
    and "operation_of (g fd) = Some (w, r, fl', k') \<Longrightarrow> k' = k"
  using assms by (cases l; auto simp: return_count_def on_int_def on_value_def on_cqe_def
    prep_read_result_def prep_write_result_def transfer_result_def outcome_def deliver_def)+

lemma transfer_goes_on:
  assumes I: "ledger_inv n D lib_role S p" and d: "pass_delivers (lib_code L K (accounted_user n user)) n D t p arrived"
    and q: "in_range p q" "valid (task_at p q)" "pending (task_at p q)" "awaiting_handle (task_at p q) = Some hw"
    and T: "in_transfer h l2 hw k a h0 p"
    and e: "iterates L cl (lib_code L K (accounted_user n user)) n t arrived during p p'"
  shows "in_transfer h l2 hw k a h0 p'"
proof -
  have W: "well_formed S p" using I by (simp add: ledger_inv_def)
  obtain fw where fw: "frames p hw = Some fw" "caller (promise fw) = Some h" using T by (auto simp: in_transfer_def)
  have "frames p' h = frames p h \<and> frames p' hw = frames p hw"
    using iteration_keeps_chain [OF I d q(1,3) e] waiting_chain [OF W q(1,2,4) fw] by (simp add: chain_kept_def)
  then show ?thesis using T by (simp add: in_transfer_def)
qed

section \<open>A coroutine that writes\<close>

text \<open>
  The user's coroutine 0 writes three bytes to the connection 50, which holds the descriptor 9 of the
  main ring; before and after the first iteration of the main loop.
\<close>

definition writing_user :: "nat \<Rightarrow> lib_value resume_in \<Rightarrow> (nat, nat) lib_action" where
  "writing_user l inp = (if l = 0 then CoAwaitTask (C (Write_all 50 [1, 2, 3])) (User 1) else CoReturn VUnit)"

abbreviation writing_lib :: "((nat, nat) label, lib_value, nat, sys_env) code" where
  "writing_lib \<equiv> lib_code (documented_liburing 128) sample_libc writing_user"

abbreviation writing_env :: sys_env where
  "writing_env \<equiv> sample_env\<lparr>conns := [50 \<mapsto> TcpConnection_ctor 9]\<rparr>"

abbreviation writer :: "((nat, nat) label, lib_value, nat) world" where
  "writer \<equiv> sample_main\<lparr>env := writing_env\<rparr>"

abbreviation write_entry :: sqe where
  "write_entry \<equiv> entry (PrepWrite 9 [1, 2, 3] 3) IOSQE_FIXED_FILE (Some 5)"

abbreviation writing_frames :: "(nat, nat) label costate \<Rightarrow> ((nat, nat) label, lib_value) frames" where
  "writing_frames c \<equiv>
     [2 \<mapsto> \<lparr>promise = set_chain_root (Some (0, 0)) new_promise, costate = Suspended (User 1) (AwTask 3)\<rparr>,
      3 \<mapsto> \<lparr>promise = set_chain_root (Some (0, 0)) (set_caller (Some 2) new_promise), costate = c\<rparr>]"

definition writing :: "uring \<Rightarrow> ((nat, nat) label, lib_value, nat) world" where
  "writing u =
     \<lparr>frames = (writing_frames (Suspended (C Write_2) (AwTask 4)))
        (4 \<mapsto> \<lparr>promise = set_chain_root (Some (0, 0)) (set_caller (Some 3) new_promise),
              costate = Suspended (P Write_1) (AwToken 5)\<rparr>),
      objs = [1 \<mapsto> Token default_token, 5 \<mapsto> Token (default_token\<lparr>tok_op := Op_Send, chain_task := Some (0, 0)\<rparr>)],
      fresh = 6, loops = (\<lambda>t. [])(0 := [set_pending True (set_awaiting_handle 4 (fresh_task_of 2))]),
      env = writing_env\<lparr>rings := (rings sample_env)(0 := u)\<rparr>\<rparr>"

abbreviation write_ring :: uring where
  "write_ring \<equiv> sample_ring\<lparr>ring_fd := 3, sq := [write_entry]\<rparr>"

lemma call_step:
  assumes "bounded p" and "frames p h = Some f" and "costate f = Running" and "code l inp = CoAwaitTask g k" and "c = fresh p"
    and "p' = p\<lparr>frames := (frames p)(h \<mapsto> f\<lparr>costate := Suspended k (AwTask c)\<rparr>,
       c \<mapsto> \<lparr>promise = set_chain_root (this_chain_task (promise f)) (set_caller (Some h) new_promise), costate = Running\<rparr>),
       fresh := Suc c\<rparr>"
  shows "csteps code t (Exec h l inp) p (Exec c g RStart) p'"
proof -
  obtain p1 where p1: "csteps code t (Exec h l inp) p (Exec (fresh p) g RStart) p1"
    "frames p1 = (frames p)(h \<mapsto> f\<lparr>costate := Suspended k (AwTask (fresh p))\<rparr>,
       fresh p \<mapsto> \<lparr>promise = set_chain_root (this_chain_task (promise f)) (set_caller (Some h) new_promise), costate = Running\<rparr>)"
    "objs p1 = objs p" "env p1 = env p" "loops p1 = loops p" "fresh p1 = Suc (fresh p)"
    by (rule await_call [where code = code and t = t, OF assms(1-4)])
  have "p1 = p'" by (rule proc.equality) (use p1(2-6) assms(5,6) in simp_all)
  then show ?thesis using p1(1) assms(5) by simp
qed

lemma writer_steps: "csteps writing_lib 0 (Enter 2) writer Back (writing write_ring)"
proof -
  let ?p1 = "writer\<lparr>frames := [2 \<mapsto> \<lparr>promise = set_chain_root (Some (0, 0)) new_promise, costate = Running\<rparr>]\<rparr>"
  let ?p2 = "writer\<lparr>frames := writing_frames Running, fresh := 4\<rparr>"
  let ?p3 = "writer\<lparr>frames := (writing_frames (Suspended (C Write_2) (AwTask 4)))
        (4 \<mapsto> \<lparr>promise = set_chain_root (Some (0, 0)) (set_caller (Some 3) new_promise), costate = Running\<rparr>), fresh := 5\<rparr>"
  have 1: "cstep writing_lib 0 (Enter 2) writer = Inr (Exec 2 (User 0) RStart, ?p1)"
    by (simp add: cstep_def enter_def set_costate_def await_resume_def sample_main_def)
  have 2: "csteps writing_lib 0 (Exec 2 (User 0) RStart) ?p1 (Exec 3 (C (Write_all 50 [1, 2, 3])) RStart) ?p2"
    by (rule call_step) (auto simp: writing_user_def sample_main_def bounded_def multishot_token_def set_chain_root_def
      set_caller_def new_promise_def split: if_splits)
  have 3: "cstep writing_lib 0 (Exec 3 (C (Write_all 50 [1, 2, 3])) RStart) ?p2 =
      Inr (Exec 3 (C (Write_all_1 [1, 2, 3])) (RVal (VInt 9)), ?p2)"
    by (simp add: cstep_def perform_def write_all_def load_socket_def conn_at_def TcpConnection_ctor_def)
  have 4: "csteps writing_lib 0 (Exec 3 (C (Write_all_1 [1, 2, 3])) (RVal (VInt 9))) ?p2 (Exec 4 (P (Write 9 [1, 2, 3])) RStart) ?p3"
    by (rule call_step) (auto simp: write_all_1_def on_int_def on_value_def sample_main_def bounded_def multishot_token_def
      set_chain_root_def set_caller_def new_promise_def split: if_splits)
  have pr: "prepare (documented_liburing 128) LocalRing (PrepWrite 9 [1, 2, 3] (Suc (Suc (Suc 0)))) (or_flags IOSQE_FIXED_FILE) 0 5 writing_env =
      Inr (writing_env\<lparr>rings := (rings sample_env)(0 := write_ring)\<rparr>)"
    by (subst prepare_room) (simp_all add: ring_index_def sample_env_def sample_ring_def new_uring_def documented_liburing numeral_3_eq_3)
  have 5: "cstep writing_lib 0 (Exec 4 (P (Write 9 [1, 2, 3])) RStart) ?p3 = Inr (Back, writing write_ring)"
    by (simp add: cstep_def perform_def prep_write_def WriteAwaiter_def UringAwaiter_ctor_def alloc_obj_def pr
        sample_main_def set_costate_def UringAwaiter_await_suspend_def promise_at_def set_chain_root_def set_caller_def
        new_promise_def deref_task_def upd_task_def Let_def token_at_def writing_def fresh_task_of_def set_awaiting_handle_def
        set_pending_def)
  show ?thesis
    by (rule csteps_trans [OF csteps_one [OF 1] csteps_trans [OF 2 csteps_trans [OF csteps_one [OF 3]
      csteps_trans [OF 4 csteps_one [OF 5]]]]])
qed

abbreviation written :: "((nat, nat) label, lib_value, nat) world" where
  "written \<equiv> writing (submit_all (documented_liburing 128) write_ring)"

lemma writer_pass: "TaskLoop_run writing_lib main_thread writer = Some (Inr (writing write_ring))"
proof -
  have "run_ctl writing_lib 0 (Enter 2) writer = Some (Inr (writing write_ring))"
    unfolding run_ctl_csteps [OF writer_steps] by (subst run_ctl.simps) simp
  moreover have "after_resume (0, 0) (writing write_ring) = Inr (writing write_ring)"
    by (simp add: after_resume_def writing_def fresh_task_of_def set_pending_def set_awaiting_handle_def Task_done_def)
  ultimately have "ScheduledTask_resume writing_lib (0, 0) writer = Some (Inr (writing write_ring))"
    by (simp add: ScheduledTask_resume_def sample_main_def)
  moreover have "TaskLoop_run_from writing_lib 0 1 (writing write_ring) = Some (Inr (writing write_ring))"
    by (subst TaskLoop_run_from.simps) (simp add: writing_def)
  ultimately show ?thesis
    by (simp add: TaskLoop_run_def main_thread_def TaskLoop_run_from.simps [of _ 0 0] runnable_def sample_main_def)
qed

lemma writer_started: "started (User 0) writer" "fresh_rings n (env writer)"
proof -
  have "emplace_back main_thread (User 0) (initial_proc writing_env) = Inr writer"
    by (simp add: emplace_back_def create_coroutine_def enqueue_def upd_promise_def Let_def initial_proc_def
        sample_main_def main_thread_def multishot_token_def numeral_2_eq_2 numeral_3_eq_3)
  then show "started (User 0) writer" unfolding started_def by blast
  show "fresh_rings n (env writer)" by (simp add: fresh_rings_def sample_env_def sample_ring_def new_uring_def)
qed

lemma writing_user_ledger: "ledger_user n writing_user"
  by (simp add: ledger_user_def writing_user_def)

lemma written_tracked:
  "(tracked_step (documented_liburing 128) cl writing_lib n)\<^sup>*\<^sup>* (writer, {#}) (written, {#})"
proof -
  have "run_iteration (documented_liburing 128) cl writing_lib (0, [], []) writer = Some (Inr (True,
      (writing write_ring)\<lparr>env := (env (writing write_ring))\<lparr>rings := (rings (env (writing write_ring)))
        (main_thread := submit_all (documented_liburing 128) (ring_at (writing write_ring) main_thread))\<rparr>\<rparr>))"
    by (rule quiet_iteration [OF writer_pass])
      (simp_all add: writing_def sample_env_def ring_at_def main_thread_def sample_ring_def new_uring_def TaskLoop_empty_def)
  moreover have "(writing write_ring)\<lparr>env := (env (writing write_ring))\<lparr>rings := (rings (env (writing write_ring)))
        (main_thread := submit_all (documented_liburing 128) (ring_at (writing write_ring) main_thread))\<rparr>\<rparr> = written"
    by (simp add: writing_def ring_at_def main_thread_def)
  ultimately show ?thesis using quiet_tracked by (metis r_into_rtranclp)
qed

text \<open>The kernel has written two of the three bytes.\<close>

definition short_cqe :: cqe where
  "short_cqe = \<lparr>cqe_result = 2, cqe_fl = 0, cqe_data = 5\<rparr>"

lemma short_refs: "cqe_refs short_cqe = {#TokenRef 5#}"
  by (simp add: short_cqe_def cqe_refs_def cqe_ref_def nullptr_def)

lemma written_pass: "TaskLoop_run writing_lib main_thread written = Some (Inr written)"
  by (rule idle_pass) (simp add: writing_def main_thread_def runnable_def set_pending_def)

lemma written_delivers: "pass_delivers writing_lib n {#} main_thread written [short_cqe]"
proof -
  have "env written = (writing_env\<lparr>rings := (rings sample_env)\<rparr>)
      \<lparr>rings := (rings writing_env)(main_thread := submit_all (documented_liburing 128) write_ring)\<rparr>"
    by (simp add: writing_def main_thread_def)
  moreover have "entry_refs write_entry = {#TokenRef 5#}" by simp
  ultimately have "ledger n (env written) = {#TokenRef 5#}"
    using first_entry_ledger(1) [of n writing_env "submit_all (documented_liburing 128) write_ring" write_entry] writer_started(2) [of n]
    by (simp add: submit_all_def Let_def documented_liburing_def sample_ring_def new_uring_def)
  then have "may_deliver n {#} written [short_cqe]"
    by (simp add: may_deliver_def delivered_def short_refs multishot_token_def)
  then show ?thesis by (simp add: pass_delivers_def written_pass)
qed

lemma written_handled:
  obtains p' where "iterates (documented_liburing 128) cl writing_lib 2 main_thread [short_cqe] [] written p'"
    and "\<not> ring_stopped (ring_at p' main_thread)"
proof -
  have "\<exists>p'. process_batch (documented_liburing 128) cl main_thread []
     (written\<lparr>env := (env written)\<lparr>rings := (rings (env written))(main_thread := arrive [short_cqe] (rings (env written) main_thread))\<rparr>\<rparr>) = Inr p' \<and>
     \<not> ring_stopped (ring_at p' main_thread)"
    by (auto simp: process_batch_def Let_def ring_at_def arrive_def writing_def main_thread_def submit_all_def sample_ring_def
      new_uring_def URING_PEEK_CQES_BATCH_def handle_request_def short_cqe_def token_at_def handle_token_def wake_def
      deref_task_def upd_task_def consume_def nullptr_def sample_env_def)
  then obtain p' where p': "process_batch (documented_liburing 128) cl main_thread []
     (written\<lparr>env := (env written)\<lparr>rings := (rings (env written))(main_thread := arrive [short_cqe] (rings (env written) main_thread))\<rparr>\<rparr>) = Inr p'"
     "\<not> ring_stopped (ring_at p' main_thread)" by blast
  have "submit_all (documented_liburing 128) (rings (env written) main_thread) = rings (env written) main_thread"
    by (simp add: writing_def main_thread_def submit_all_def Let_def documented_liburing_def)
  then have "iterates (documented_liburing 128) cl writing_lib 2 main_thread [short_cqe] [] written p'"
    using p'(1) written_pass by (simp add: iterates_def run_iteration_def TaskLoop_empty_def) (simp add: writing_def main_thread_def sample_env_def)
  then show thesis using that p'(2) by blast
qed

section \<open>Property\<close>

text \<open>
  C4. A completed transfer returns to its caller. In a state that is reached under the contract of the
  kernel, let the chain of task q end with a read_some, write_some or write_all that was called by h0
  and the operation it waits for, and let the completion c of that operation arrive during an iteration
  of a thread whose queue fits into one batch and whose ring is not told to quit. Then after the
  iteration the task is runnable, and its next resume runs through the operation and the member
  function, with no effect on the rings, and enters h0, which gets the number of c, or the exception if
  that number is negative.
\<close>

theorem completed_transfer_returns:
  assumes "ledger_user n user" and "started root p0" and "fresh_rings n (env p0)"
    and "(tracked_step L cl (lib_code L K user) n)\<^sup>*\<^sup>* (p0, {#}) (p, D)"
    and "in_range p q" and "valid (task_at p q)" and "pending (task_at p q)"
    and "awaiting_handle (task_at p q) = Some hw"
    and "transfer_of l = Some (x, g, msg)" and "transfer_points l = Some (l2, k)"
    and "in_transfer h (C l2) hw (P k) a h0 p"
    and "pass_delivers (lib_code L K user) n D t p arrived" and "c \<in> set arrived" and "TokenRef a \<in># cqe_refs c"
    and "\<forall>p1. TaskLoop_run (lib_code L K user) t p = Some (Inr p1) \<longrightarrow>
      length (cq (ring_at p1 t) @ arrived) \<le> URING_PEEK_CQES_BATCH"
    and "iterates L cl (lib_code L K user) n t arrived during p p'"
    and "\<not> ring_stopped (ring_at p' t)"
  shows "runnable (task_at p' q) \<and> awaiting_handle (task_at p' q) = Some hw \<and>
    (\<exists>p'' f'. csteps (lib_code L K user) (fst q) (Enter hw) p' (Enter h0) p'' \<and> env p'' = env p' \<and>
       frames p'' h = Some f' \<and> costate f' = AtFinal \<and>
       (if cqe_result c < 0 then exn_ptr (promise f') = Some (RuntimeError msg)
        else exn_ptr (promise f') = None \<and> slot (promise_res (promise f')) = Some (VInt (cqe_result c))))"
proof -
  obtain S where S: "ledger_inv n D lib_role S p" by (rule tracked_reachable [OF assms(1-4)])
  obtain fw where "frames p hw = Some fw" "costate fw = Suspended (P k) (AwToken a)"
    using assms(11) by (auto simp: in_transfer_def)
  then have s: "suspended_on p q hw fw (P k) a" using assms(5,6,8) by (simp add: suspended_on_def)
  note plain = accounted_user_id [OF assms(1)]
  have c: "completed p' q hw fw (P k) c"
    using iteration_completes [where user = user and n = n, unfolded plain, OF S assms(12) s assms(7,13-17)] .
  have T: "in_transfer h (C l2) hw (P k) a h0 p'"
    using transfer_goes_on [where user = user and n = n, unfolded plain, OF S assms(12,5-8,11,16)] .
  obtain tk where tk: "objs p' (cqe_data c) = Some (Token tk)" "cqe_res tk = cqe_result c" using c by (auto simp: completed_def)
  have "cqe_data c = a" using assms(14) by (auto simp: cqe_refs_def cqe_ref_def split: if_splits)
  then have tk': "objs p' a = Some (Token tk)" using tk by simp
  from transfer_ends [where t = "fst q", OF T tk' transfer_point_code(1,2) [OF assms(9,10), of L K user]]
  have "\<exists>p'' f'. csteps (lib_code L K user) (fst q) (Enter hw) p' (Enter h0) p'' \<and> env p'' = env p' \<and>
       frames p'' h = Some f' \<and> costate f' = AtFinal \<and>
       (if cqe_result c < 0 then exn_ptr (promise f') = Some (RuntimeError msg)
        else exn_ptr (promise f') = None \<and> slot (promise_res (promise f')) = Some (VInt (cqe_result c)))"
    using tk(2) by (fastforce simp: transfer_result_def split: if_splits)
  then show ?thesis using c completed_resumes [OF c] by (simp add: completed_def suspended_on_def)
qed

lemma completed_transfer_returns_witness:
  "\<exists>p' p'' f'. csteps writing_lib 0 (Enter 4) p' (Enter 2) p'' \<and> frames p'' 3 = Some f' \<and> costate f' = AtFinal \<and>
     slot (promise_res (promise f')) = Some (VInt 2)"
proof -
  obtain p' where p': "iterates (documented_liburing 128) \<lparr>call_func = \<lambda>g c. User g, hops = 1\<rparr> writing_lib 2 main_thread [short_cqe] [] written p'"
    "\<not> ring_stopped (ring_at p' main_thread)"
    by (rule written_handled)
  have fits: "\<forall>p1. TaskLoop_run writing_lib main_thread written = Some (Inr p1) \<longrightarrow>
      length (cq (ring_at p1 main_thread) @ [short_cqe]) \<le> URING_PEEK_CQES_BATCH"
    by (simp add: written_pass) (simp add: ring_at_def writing_def main_thread_def submit_all_def Let_def sample_ring_def
      new_uring_def URING_PEEK_CQES_BATCH_def)
  have task: "in_range written (0, 0)" "valid (task_at written (0, 0))" "pending (task_at written (0, 0))"
    "awaiting_handle (task_at written (0, 0)) = Some 4"
    by (simp_all add: in_range_def task_at_def writing_def fresh_task_of_def set_pending_def set_awaiting_handle_def)
  have l: "transfer_of (Write_all 50 [1, 2, 3]) = Some (50, \<lambda>fd. Write fd [1, 2, 3], ''io_uring prep write failed.'')"
    "transfer_points (Write_all 50 [1, 2, 3]) = Some (Write_2, Write_1)" by simp_all
  have T: "in_transfer 3 (C Write_2) 4 (P Write_1) 5 2 written"
    by (simp add: in_transfer_def writing_def set_chain_root_def set_caller_def new_promise_def)
  have "short_cqe \<in> set [short_cqe]" "TokenRef 5 \<in># cqe_refs short_cqe" by (simp_all add: short_refs)
  from completed_transfer_returns [OF writing_user_ledger writer_started written_tracked task l T written_delivers this fits p']
  show ?thesis by (fastforce simp: short_cqe_def)
qed

end
