(* ===== verification/Accepted.thy ===== *)
theory Accepted
  imports Handover
begin

text \<open>
  Descriptors that a multishot accept yields: how they are sent to the workers and what the workers do
  with them.
\<close>

section \<open>Sending\<close>

definition accepted_entries :: "int \<Rightarrow> int \<Rightarrow> address \<Rightarrow> sqe list" where
  "accepted_entries w fd a =
     [entry (PrepMsgRingFdAlloc w fd a) (IOSQE_CQE_SKIP_SUCCESS OR IOSQE_IO_LINK) None,
      entry (PrepMsgRingCqeFlags w (ring_msg_code MultiAccTask) (Suc a) NET_IORING_CQE_F_TASK)
        (IOSQE_CQE_SKIP_SUCCESS OR IOSQE_IO_LINK) None,
      entry (PrepCloseDirect fd) IOSQE_CQE_SKIP_SUCCESS None]"

definition accepted_objs :: "'f option \<Rightarrow> address \<Rightarrow> 'f heap \<Rightarrow> 'f heap" where
  "accepted_objs f a H =
     H(a \<mapsto> Token (control_token Op_MultishotAcceptFdReceiver),
       Suc a \<mapsto> MAccTask (MultishotAcceptTaskToken Op_MultishotAcceptTaskReceiver f))"

lemma send_one_accepted:
  assumes L: "fills_entry L" "queue_room L n" and q: "length (sq (ring_at p main_thread)) + 3 \<le> n"
    and w: "pick_worker (env p) = Inr (w, s)"
  shows "send_awaiting L f (fd # fds) p = send_awaiting L None fds (p\<lparr>
      objs := accepted_objs f (fresh p) (objs p), fresh := Suc (Suc (fresh p)),
      env := s\<lparr>rings := (rings s)(main_thread := (ring_at p main_thread)\<lparr>
        sq := sq (ring_at p main_thread) @ accepted_entries w fd (fresh p)\<rparr>)\<rparr>\<rparr>)"
proof -
  have "lu_room L (sq (ring_at p main_thread))" "lu_room L (sq (ring_at p main_thread) @ [blank_sqe])"
    "lu_room L (sq (ring_at p main_thread) @ [blank_sqe, blank_sqe])"
    using L(2) q by (simp_all add: queue_room_def)
  then show ?thesis
    using L(1) w pick_worker_rings [OF w]
    by (simp add: Let_def alloc_obj_def ring_at_def get_sqe_room on_ring_def on_env_def upd_ring_def
        list_update_append nth_append accepted_entries_def accepted_objs_def del: ring_msg_code.simps)
qed

section \<open>Receiving\<close>

text \<open>The main ring after \<open>n\<close> moved-from connections that it owns have been destroyed.\<close>

definition main_closes :: "nat \<Rightarrow> sys_env \<Rightarrow> sys_env" where
  "main_closes n s = s\<lparr>rings := (rings s)(main_thread := (rings s main_thread)\<lparr>
     submitted := submitted (rings s main_thread) @ replicate n (close_entry (- 1))\<rparr>)\<rparr>"

lemma main_closes_0 [simp]: "main_closes 0 s = s"
  by (simp add: main_closes_def)

lemma main_closes_add [simp]: "main_closes m (main_closes n s) = main_closes (n + m) s"
  by (simp add: main_closes_def replicate_add)

lemma main_closes_sq [simp]: "sq (rings (main_closes n s) k) = sq (rings s k)"
  by (simp add: main_closes_def)

lemma uring_empty_sq: "sq u = [] \<Longrightarrow> u\<lparr>sq := [], submitted := es\<rparr> = u\<lparr>submitted := es\<rparr>"
  by (cases u) simp

lemma dtor_main_shell:
  assumes "fills_entry L" "submits_all L" "lu_room L []" and "sq (rings s main_thread) = []"
    and "ownership_in_sys_ring c" "conn_socket c = - 1"
  shows "TcpConnection_dtor L t c s = Inr (c\<lparr>conn_socket := - 1, direct_fd_in_sys_ring := - 1\<rparr>, main_closes 1 s)"
  using assms
  by (simp add: TcpConnection_dtor_def upd_ring_def close_direct_socket_ok main_closes_def close_entry_def
      uring_empty_sq)

lemma drop_main_shells:
  assumes "fills_entry L" "submits_all L" "lu_room L []" and "sq (rings s main_thread) = []"
    and "ownership_in_sys_ring c" "conn_socket c = - 1"
  shows "drop_shells L t n c s = Inr (main_closes n s)"
  using assms(4-6)
proof (induction n arbitrary: c s)
  case (Suc n)
  then show ?case using dtor_main_shell [OF assms(1-3) Suc.prems, of t] by simp
qed simp

definition spawned_frames :: "nat \<Rightarrow> nat \<Rightarrow> address \<Rightarrow> 'l list \<Rightarrow> ('l, 'v) frames \<Rightarrow> ('l, 'v) frames" where
  "spawned_frames t n a ls F =
     (\<lambda>h. if a \<le> h \<and> h < a + length ls then Some (scheduled_frame (t, n + (h - a)) (ls ! (h - a))) else F h)"

lemma spawned_frames_Nil [simp]: "spawned_frames t n a [] F = F"
  by (rule ext) (auto simp: spawned_frames_def)

lemma spawned_frames_Cons:
  "spawned_frames t n a (l # ls) F = spawned_frames t (Suc n) (Suc a) ls (F(a \<mapsto> scheduled_frame (t, n) l))"
proof (rule ext)
  fix h
  consider "h < a" | "h = a" | d where "h = Suc (a + d)" by (metis less_imp_Suc_add linorder_neqE_nat)
  then show "spawned_frames t n a (l # ls) F h =
      spawned_frames t (Suc n) (Suc a) ls (F(a \<mapsto> scheduled_frame (t, n) l)) h"
    by cases (auto simp: spawned_frames_def Suc_diff_le)
qed

lemma macc_spawn_all:
  assumes L: "fills_entry L" "submits_all L" "lu_room L []"
  shows "sq (ring_at p main_thread) = [] \<Longrightarrow> macc_spawn L cl t (Some g) fds p = Inr (p\<lparr>
      frames := spawned_frames t (length (loops p t)) (fresh p)
        (map (\<lambda>fd. call_func cl g (TcpConnection_ctor fd)) fds) (frames p),
      fresh := fresh p + length fds,
      loops := (loops p)(t := loops p t @ map fresh_task_of [fresh p ..< fresh p + length fds]),
      env := main_closes (length fds * Suc (hops cl)) (env p)\<rparr>)"
proof (induction fds arbitrary: p)
  case Nil
  show ?case by simp
next
  case (Cons fd fds)
  let ?conn = "TcpConnection_ctor fd" and ?shell = "snd (TcpConnection_move_ctor (TcpConnection_ctor fd))"
  have shell: "ownership_in_sys_ring ?shell" "conn_socket ?shell = - 1"
    by (simp_all add: TcpConnection_move_ctor_def TcpConnection_ctor_def)
  have q: "sq (rings (env p) main_thread) = []" using Cons.prems by (simp add: ring_at_def)
  let ?l = "call_func cl g ?conn"
  let ?p1 = "(snd (create_coroutine ?l p))\<lparr>env := main_closes (Suc (hops cl)) (env p)\<rparr>"
  have inv: "invoke_with_conn L cl t (Some g) ?conn p = Inr (\<lparr>task_handle = Some (fresh p)\<rparr>, ?shell,
      (snd (create_coroutine ?l p))\<lparr>env := main_closes (hops cl) (env p)\<rparr>)"
    using drop_main_shells [OF L q shell] q
    by (simp add: invoke_with_conn_def split_beta create_coroutine_def on_env_def)
  have des: "on_env (\<lambda>s. bind_res (TcpConnection_dtor L t ?shell s) (\<lambda>(c', s'). Inr s'))
      ((snd (create_coroutine ?l p))\<lparr>env := main_closes (hops cl) (env p)\<rparr>) = Inr ?p1"
    using dtor_main_shell [OF L _ shell, of "main_closes (hops cl) (env p)" t] q by (simp add: on_env_def)
  let ?p2 = "?p1\<lparr>frames := (frames p)(fresh p \<mapsto> scheduled_frame (t, length (loops p t)) ?l),
      loops := (loops p)(t := loops p t @ [fresh_task_of (fresh p)])\<rparr>"
  have enq: "enqueue t \<lparr>task_handle = Some (fresh p)\<rparr> ?p1 = Inr ?p2"
    by (subst enqueue_new [where l = ?l]) (simp_all add: create_coroutine_def)
  have "sq (ring_at ?p2 main_thread) = []" using q by (simp add: ring_at_def)
  note ih = Cons.IH [OF this]
  have "macc_spawn L cl t (Some g) (fd # fds) p = macc_spawn L cl t (Some g) fds ?p2"
    using inv des enq by simp
  then show ?case
    unfolding ih by (simp add: spawned_frames_Cons create_coroutine_def upt_conv_Cons fun_upd_def add_ac del: upt_Suc cong: if_cong)
qed

text \<open>The message that carries the function, handled by a thread that has received descriptors.\<close>

text \<open>
  C26. A worker spawns again for descriptors it has already served. Handling the message that carries the
  function of a multishot accept spawns the function for every descriptor in the thread's list and
  leaves the list as it is, so the next such message spawns it for all of them again. The connections
  it makes belong to the main ring although their descriptors are the worker's; every temporary that
  such a connection is moved out of closes slot -1 of the main ring when it is destroyed.
\<close>

theorem macc_task_handled:
  assumes L: "fills_entry L" "submits_all L" "lu_room L []" and q: "sq (ring_at p main_thread) = []"
    and m: "objs p a = Some (MAccTask (MultishotAcceptTaskToken Op_MultishotAcceptTaskReceiver (Some g)))"
  shows "\<exists>p'. handle_request L cl t
      \<lparr>cqe_result = ring_msg_code MultiAccTask, cqe_fl = NET_IORING_CQE_F_TASK, cqe_data = a\<rparr> p = Inr p' \<and>
    (let fds = awaiting_direct_fd (ring_at p t) in
      awaiting_direct_fd (ring_at p' t) = fds \<and>
      loops p' = (loops p)(t := loops p t @ map fresh_task_of [fresh p ..< fresh p + length fds]) \<and>
      (\<forall>i < length fds. frames p' (fresh p + i) = Some (scheduled_frame (t, length (loops p t) + i)
         (call_func cl g (TcpConnection_ctor (fds ! i))))) \<and>
      env p' = main_closes (length fds * Suc (hops cl)) (env p))"
proof -
  let ?p = "delete_obj a p" and ?fds = "awaiting_direct_fd (ring_at p t)"
  have "sq (ring_at ?p main_thread) = []" using q by (simp add: delete_obj_def ring_at_def)
  note sp = macc_spawn_all [OF L this, of cl t g ?fds]
  have aw: "awaiting_direct_fd (rings (main_closes n s) t) = awaiting_direct_fd (rings s t)" for n s
    by (simp add: main_closes_def)
  have "handle_request L cl t
      \<lparr>cqe_result = ring_msg_code MultiAccTask, cqe_fl = NET_IORING_CQE_F_TASK, cqe_data = a\<rparr> p =
      macc_spawn L cl t (Some g) ?fds ?p"
    using m by (simp add: handle_request_def impl_handle_macc_task_def macc_task_at_def MAccTaskToken_move_out_def
        MultishotAcceptTaskToken_def ring_at_def delete_obj_def del: ring_msg_code.simps)
  then show ?thesis
    unfolding sp by (simp add: Let_def ring_at_def aw delete_obj_def spawned_frames_def)
qed

definition sample_served :: "(nat, nat, nat) world" where
  "sample_served = sample_waiting\<lparr>
     objs := [7 \<mapsto> MAccTask (MultishotAcceptTaskToken Op_MultishotAcceptTaskReceiver (Some 11))],
     env := sample_env\<lparr>rings := (rings sample_env)(1 := sample_ring\<lparr>awaiting_direct_fd := [20, 21]\<rparr>)\<rparr>\<rparr>"

lemma macc_task_handled_witness:
  "\<exists>p'. handle_request (documented_liburing 128) sample_client 1
      \<lparr>cqe_result = ring_msg_code MultiAccTask, cqe_fl = NET_IORING_CQE_F_TASK, cqe_data = 7\<rparr> sample_served = Inr p' \<and>
    awaiting_direct_fd (ring_at p' 1) = [20, 21] \<and> loops p' 1 = [fresh_task_of 4, fresh_task_of 5] \<and>
    env p' = main_closes 4 (env sample_served)"
proof -
  have q: "sq (ring_at sample_served main_thread) = []"
    and m: "objs sample_served 7 = Some (MAccTask (MultishotAcceptTaskToken Op_MultishotAcceptTaskReceiver (Some 11)))"
    and aw: "awaiting_direct_fd (ring_at sample_served 1) = [20, 21]"
    and l: "loops sample_served = loops sample_waiting" "fresh sample_served = 4" "loops sample_waiting 1 = []"
      "hops sample_client = 1"
    by (simp_all add: sample_served_def ring_at_def main_thread_def sample_waiting_def sample_client_def)
  have u: "[4..<4 + length [20 :: int, 21]] = [4, 5]" by (simp add: upt_rec)
  have "lu_room (documented_liburing 128) []" by simp
  note h = macc_task_handled [OF documented_liburing(3,2) this q m, of sample_client 1, unfolded Let_def aw l u]
  from h show ?thesis by (auto simp: eval_nat_numeral simp del: ring_msg_code.simps)
qed

lemma macc_task_empty:
  assumes "objs p a = Some (MAccTask (MultishotAcceptTaskToken Op_MultishotAcceptTaskReceiver None))"
    and "awaiting_direct_fd (ring_at p t) \<noteq> []"
  shows "handle_request L cl t
      \<lparr>cqe_result = ring_msg_code MultiAccTask, cqe_fl = NET_IORING_CQE_F_TASK, cqe_data = a\<rparr> p = Inl BadFunctionCall"
  using assms
  by (cases "awaiting_direct_fd (ring_at p t)")
    (simp_all add: handle_request_def impl_handle_macc_task_def macc_task_at_def MAccTaskToken_move_out_def
        MultishotAcceptTaskToken_def ring_at_def delete_obj_def invoke_with_conn_def del: ring_msg_code.simps)

lemma handle_accepted_fd:
  assumes "objs p a = Some (Token (control_token Op_MultishotAcceptFdReceiver))" and "a \<noteq> nullptr" and "0 \<le> new_fd"
  shows "handle_request L cl t \<lparr>cqe_result = new_fd, cqe_fl = 0, cqe_data = a\<rparr> p =
    Inr (p\<lparr>objs := (objs p)(a := None), env := (env p)\<lparr>rings := (rings (env p))(t :=
      (ring_at p t)\<lparr>awaiting_direct_fd := awaiting_direct_fd (ring_at p t) @ [new_fd]\<rparr>)\<rparr>\<rparr>)"
  using assms
  by (simp add: handle_request_def token_at_def handle_token_def control_token_def push_awaiting_def on_ring_def
      on_env_def upd_ring_def ring_at_def delete_obj_def)

section \<open>Two descriptors at once\<close>

text \<open>
  C25. Only the first of several accepted descriptors is served. The function is moved into the message
  for the first descriptor inside the loop, so when two descriptors are waiting and go to different
  workers, sending them succeeds and empties the list, but handling the messages of the second one on
  its worker calls an empty function.
\<close>

theorem second_accepted_fails:
  assumes L: "fills_entry L" "submits_all L" "queue_room L n" "6 \<le> n" and q: "sq (ring_at p main_thread) = []"
    and aw: "awaiting_direct_fd (ring_at p main_thread) = [fd1, fd2]"
    and w: "pick_worker (env p) = Inr (w1, s1)" "pick_worker s1 = Inr (w2, s2)" "w1 \<noteq> w2" and "0 \<le> new_fd"
    and "bounded p"
  shows "\<exists>p1. mshot_accept_send_awaiting_fd_and_process L g p = Inr p1 \<and>
    awaiting_direct_fd (ring_at p1 main_thread) = [] \<and>
    handle_each L cl k (messages_for w2 new_fd (new_entries main_thread p p1)) p1 = Inl BadFunctionCall"
proof -
  let ?m = main_thread and ?a = "fresh p" and ?b = "Suc (Suc (fresh p))"
  let ?u = "ring_at p ?m"
  have rs: "rings s1 = rings (env p)" "rings s2 = rings (env p)"
    using pick_worker_rings [OF w(1)] pick_worker_rings [OF w(2)] by simp_all
  let ?p1 = "p\<lparr>objs := accepted_objs (Some g) ?a (objs p), fresh := ?b,
      env := s1\<lparr>rings := (rings s1)(?m := ?u\<lparr>sq := accepted_entries w1 fd1 ?a\<rparr>)\<rparr>\<rparr>"
  have step1: "send_awaiting L (Some g) [fd1, fd2] p = send_awaiting L None [fd2] ?p1"
    using send_one_accepted [OF L(1,3) _ w(1), of "Some g" fd1 "[fd2]"] q L(4) by simp
  have w2: "pick_worker (env ?p1) = Inr (w2, s2\<lparr>rings := (rings s1)(?m := ?u\<lparr>sq := accepted_entries w1 fd1 ?a\<rparr>)\<rparr>)"
    using w(2) by (auto simp: pick_worker_def Let_def split: if_splits)
  let ?es = "accepted_entries w1 fd1 ?a @ accepted_entries w2 fd2 ?b"
  let ?p2 = "?p1\<lparr>objs := accepted_objs None ?b (objs ?p1), fresh := Suc (Suc ?b),
      env := s2\<lparr>rings := (rings s1)(?m := ?u\<lparr>sq := ?es\<rparr>)\<rparr>\<rparr>"
  have l1: "length (sq (ring_at ?p1 ?m)) + 3 \<le> n" using L(4) by (simp add: ring_at_def accepted_entries_def)
  have step2: "send_awaiting L None [fd2] ?p1 = Inr ?p2"
    using send_one_accepted [OF L(1,3) l1 w2, of None fd2 "[]"] by (simp add: ring_at_def)
  let ?p3 = "?p2\<lparr>env := s2\<lparr>rings := (rings s1)(?m := ?u\<lparr>awaiting_direct_fd := [], sq := [],
      submitted := submitted ?u @ ?es\<rparr>)\<rparr>\<rparr>"
  have sent: "mshot_accept_send_awaiting_fd_and_process L g p = Inr ?p3"
    using step1 step2 aw
    by (simp add: mshot_accept_send_awaiting_fd_and_process_def on_ring_def on_env_def upd_ring_def
        submit_all_all [OF L(2)] ring_at_def del: send_awaiting.simps ring_msg_code.simps)
  have new: "new_entries ?m p ?p3 = ?es" by (simp add: new_entries_def ring_at_def)
  have msgs: "messages_for w2 new_fd ?es =
      [\<lparr>cqe_result = new_fd, cqe_fl = 0, cqe_data = ?b\<rparr>,
       \<lparr>cqe_result = ring_msg_code MultiAccTask, cqe_fl = NET_IORING_CQE_F_TASK, cqe_data = Suc ?b\<rparr>]"
    using w(3) by (simp add: accepted_entries_def del: ring_msg_code.simps)
  have "objs ?p3 ?b = Some (Token (control_token Op_MultishotAcceptFdReceiver))" by (simp add: accepted_objs_def)
  note recv = handle_accepted_fd [OF this _ assms(10), of L cl k]
  have "handle_each L cl k (messages_for w2 new_fd ?es) ?p3 = Inl BadFunctionCall"
    unfolding msgs using recv
    by (simp add: nullptr_def macc_task_empty accepted_objs_def ring_at_def del: ring_msg_code.simps)
  then show ?thesis
    using sent new by (intro exI [of _ ?p3]) (simp add: ring_at_def)
qed

definition sample_accepted :: "(nat, nat, nat) world" where
  "sample_accepted = sample_waiting\<lparr>
     env := sample_env\<lparr>rings := (rings sample_env)(0 := sample_ring\<lparr>awaiting_direct_fd := [20, 21]\<rparr>)\<rparr>\<rparr>"

lemma second_accepted_fails_witness:
  "\<exists>p1. mshot_accept_send_awaiting_fd_and_process (documented_liburing 128) 11 sample_accepted = Inr p1 \<and>
     handle_each (documented_liburing 128) sample_client 2
       (messages_for 5 6 (new_entries main_thread sample_accepted p1)) p1 = Inl BadFunctionCall"
proof -
  let ?s = "(env sample_accepted)\<lparr>current_worker_uring_idx := 0\<rparr>"
  have B: "bounded sample_accepted" using sample_waiting_bounded by (simp add: sample_accepted_def bounded_def)
  have q: "sq (ring_at sample_accepted main_thread) = []" "awaiting_direct_fd (ring_at sample_accepted main_thread) = [20, 21]"
    by (simp_all add: sample_accepted_def ring_at_def main_thread_def sample_ring_def new_uring_def)
  have w: "pick_worker (env sample_accepted) = Inr (4, ?s)"
    "pick_worker ?s = Inr (5, ?s\<lparr>current_worker_uring_idx := 1\<rparr>)"
    by (simp_all add: sample_accepted_def pick_worker_def sample_env_def)
  show ?thesis
    using second_accepted_fails [OF documented_liburing(3,2,1) _ q w _ _ B, of 128 6 11 sample_client 2] by auto
qed

end
