(* ===== verification/Control.thy ===== *)
theory Control
  imports Machine_Runs System_Properties Handler_Relations
begin

text \<open>
  The flags that end the loops: no coroutine of the library and no handler of completions touches them,
  so a thread that has been asked to stop ends with the iteration it is in.
\<close>

definition control_of :: "sys_env \<Rightarrow> (nat \<Rightarrow> bool) \<times> bool \<times> int list" where
  "control_of s = (stop_requested s, sys_stopped s, uring_fds s)"

definition same_control :: "sys_env \<Rightarrow> sys_env \<Rightarrow> bool" where
  "same_control s s' \<longleftrightarrow> control_of s' = control_of s"

definition action_keeps :: "('s \<Rightarrow> 's \<Rightarrow> bool) \<Rightarrow> nat \<Rightarrow> ('l, 'v, 'f, 's) action \<Rightarrow> bool" where
  "action_keeps R t act =
     (case act of
        CoAwaitUring op' pr k \<Rightarrow> \<forall>a s s'. pr t a s = Inr s' \<longrightarrow> R s s'
      | CoAwaitMshot pr k \<Rightarrow> \<forall>a s s'. pr t a s = Inr s' \<longrightarrow> R s s'
      | CoStep f k \<Rightarrow> \<forall>p x p'. f t p = Inr (x, p') \<longrightarrow> R (env p) (env p')
      | _ \<Rightarrow> True)"

lemma action_keeps_simps [simp]:
  "action_keeps R t (CoReturn v)" "action_keeps R t (CoThrow e)" "action_keeps R t (CoAwaitTask g k)"
  "action_keeps R t (CoAwaitPending k)"
  "action_keeps R t (CoAwaitUring op' pr k) \<longleftrightarrow> (\<forall>a s s'. pr t a s = Inr s' \<longrightarrow> R s s')"
  "action_keeps R t (CoAwaitMshot pr k) \<longleftrightarrow> (\<forall>a s s'. pr t a s = Inr s' \<longrightarrow> R s s')"
  "action_keeps R t (CoStep f k) \<longleftrightarrow> (\<forall>p x p'. f t p = Inr (x, p') \<longrightarrow> R (env p) (env p'))"
  by (simp_all add: action_keeps_def)

lemma same_control_refl [simp]: "same_control s s"
  by (simp add: same_control_def)

lemma same_control_trans: "same_control s s' \<Longrightarrow> same_control s' s'' \<Longrightarrow> same_control s s''"
  by (simp add: same_control_def)

lemma control_of_upd [simp]:
  "control_of (s\<lparr>rings := r\<rparr>) = control_of s" "control_of (s\<lparr>buffers := b\<rparr>) = control_of s"
  "control_of (s\<lparr>conns := c\<rparr>) = control_of s" "control_of (s\<lparr>posix := lg\<rparr>) = control_of s"
  "control_of (s\<lparr>current_worker_uring_idx := i\<rparr>) = control_of s"
  by (simp_all add: control_of_def)

lemma prepare_control: "prepare L w r post t a s = Inr s' \<Longrightarrow> control_of s' = control_of s"
  by (auto simp: prepare_def upd_ring_def bind_res_eq_Inr)

lemma pick_worker_control: "pick_worker s = Inr (w, s') \<Longrightarrow> control_of s' = control_of s"
  by (auto simp: pick_worker_def Let_def split: if_splits)

lemma on_ring_control: "on_ring t f p = Inr p' \<Longrightarrow> control_of (env p') = control_of (env p)"
  by (auto simp: on_ring_def on_env_Inr upd_ring_def bind_res_eq_Inr)

lemma alloc_obj_env [simp]: "env (snd (alloc_obj ob p)) = env p"
  by (simp add: alloc_obj_def)

lemma send_awaiting_control: "send_awaiting L f fds p = Inr p' \<Longrightarrow> control_of (env p') = control_of (env p)"
proof (induction fds arbitrary: f p)
  case (Cons fd fds)
  then show ?case
    by (auto simp: bind_res_eq_Inr Let_def split_beta dest!: Cons.IH pick_worker_control)
qed simp

lemma mshot_send_control:
  "mshot_accept_send_awaiting_fd_and_process L f p = Inr p' \<Longrightarrow> control_of (env p') = control_of (env p)"
  by (auto simp: mshot_accept_send_awaiting_fd_and_process_def bind_res_eq_Inr dest: send_awaiting_control)

lemma as_step_env:
  assumes "as_step v f p = Inr (x, p')" and "\<And>p'. f p = Inr p' \<Longrightarrow> control_of (env p') = control_of (env p)"
  shows "control_of (env p') = control_of (env p)"
  using assms by (auto simp: as_step_def split: sum.splits fault.splits)

lemma library_step_control:
  "load_socket c t p = Inr (x, p') \<Longrightarrow> same_control (env p) (env p')"
  "extend_step L t p = Inr (x, p') \<Longrightarrow> same_control (env p) (env p')"
  "received_step c r fl t p = Inr (x, p') \<Longrightarrow> same_control (env p) (env p')"
  "socket_step K fd a t p = Inr (x, p') \<Longrightarrow> same_control (env p) (env p')"
  "listen_step n sk t p = Inr (x, p') \<Longrightarrow> same_control (env p) (env p')"
  "as_step v (mshot_accept_send_awaiting_fd_and_process L f) p = Inr (x, p') \<Longrightarrow> same_control (env p) (env p')"
  by (auto simp: same_control_def load_socket_def extend_step_def received_step_def take_received_def socket_step_def
      listen_step_def set_conn_def split_beta bind_res_eq_Inr Let_def
      split: sum.splits fault.splits dest: as_step_env [OF _ mshot_send_control])

lemma keeps_on_value: "(\<And>v. action_keeps R t (g v)) \<Longrightarrow> action_keeps R t (on_value g inp)"
  by (cases inp) (simp_all add: on_value_def)

lemma keeps_on_int: "(\<And>n. action_keeps R t (g n)) \<Longrightarrow> action_keeps R t (on_int g inp)"
  unfolding on_int_def by (rule keeps_on_value) (simp split: lib_value.splits)

lemma keeps_on_unit: "action_keeps R t a \<Longrightarrow> action_keeps R t (on_unit a inp)"
  by (cases inp) (simp_all add: on_unit_def)

lemma keeps_on_cqe: "(\<And>r fl. action_keeps R t (g r fl)) \<Longrightarrow> action_keeps R t (on_cqe g inp)"
  by (cases inp) (simp_all add: on_cqe_def)

text \<open>User code that leaves the flags alone.\<close>

definition user_control :: "nat \<Rightarrow> ('u \<Rightarrow> lib_value resume_in \<Rightarrow> ('u, 'f) lib_action) \<Rightarrow> bool" where
  "user_control t user \<longleftrightarrow> (\<forall>l inp. action_keeps same_control t (user l inp))"

lemma lib_code_control:
  assumes "user_control t user"
  shows "action_keeps same_control t (lib_code L K user l inp)"
proof (cases l)
  case (User u)
  then show ?thesis using assms by (simp add: user_control_def)
next
  case (P pl)
  have "action_keeps same_control t (prep_code L pl inp)"
    by (cases "(L, pl, inp)" rule: prep_code.cases)
      (auto simp: prep_defs awaiter_defs prep_result_defs same_control_def dest: prepare_control intro!: keeps_on_cqe keeps_on_unit)
  then show ?thesis using P by simp
next
  case (C cl)
  have "action_keeps same_control t (conn_code L cl inp)"
    by (cases "(L, cl, inp)" rule: conn_code.cases)
      (auto simp: read_some_def read_some_1_def write_some_def write_some_1_def write_all_def write_all_1_def
        return_count_def conn_sleep_def ring_buf_receive_def ring_buf_receive_1_def ring_buf_receive_2_def
        ring_buf_receive_3_def ring_buf_receive_4_def split: lib_value.splits
        intro: library_step_control intro!: keeps_on_value keeps_on_int keeps_on_unit)
  then show ?thesis using C by simp
next
  case (N nl)
  have "action_keeps same_control t (net_code L K nl inp)"
    by (cases "(L, K, nl, inp)" rule: net_code.cases)
      (auto simp: create_tcp_socket_def create_tcp_socket_1_def create_tcp_socket_2_def create_udp_socket_def
        create_udp_socket_1_def listener_accept_def listener_accept_1_def listen_on_def listen_on_1_def
        listen_on_2_def multishot_accept_then_def multishot_accept_then_1_def multishot_accept_then_2_def
        Let_def split: lib_value.splits
        intro: library_step_control intro!: keeps_on_value keeps_on_int keeps_on_unit)
  then show ?thesis using N by simp
qed

interpretation control: env_steps "lib_code L K user" t "\<lambda>s s'. user_control t user \<longrightarrow> same_control s s'"
  for L K user t
proof unfold_locales
  have act: "action_keeps same_control t (lib_code L K user l inp)" if "user_control t user" for l inp
    by (rule lib_code_control [OF that])
  show "user_control t user \<longrightarrow> same_control s s'"
    if "lib_code L K user l inp = CoAwaitUring op' pr k" "pr t a s = Inr s'" for l inp op' pr k a s s'
    using act [of l inp] that by auto
  show "user_control t user \<longrightarrow> same_control s s'"
    if "lib_code L K user l inp = CoAwaitMshot pr k" "pr t a s = Inr s'" for l inp pr k a s s'
    using act [of l inp] that by auto
  show "user_control t user \<longrightarrow> same_control (env p) (env p')"
    if "lib_code L K user l inp = CoStep f k" "f t p = Inr (x, p')" for l inp f k p x p'
    using act [of l inp] that by auto
qed (auto intro: same_control_trans)

section \<open>Ending a thread\<close>

lemma while_running_control:
  "handle_while_running L cl t cs p = Inr p' \<Longrightarrow> control_of (env p') = control_of (env p)"
  by (drule ring_adv.while_running_effect) (auto simp: ring_adv.effect_def)

lemma process_batch_control: "process_batch L cl t during p = Inr p' \<Longrightarrow> control_of (env p') = control_of (env p)"
  by (auto simp: process_batch_def Let_def bind_res_eq_Inr split: if_splits
      dest!: while_running_control dest: on_ring_control)

lemma wait_and_handle_control:
  "wait_and_handle L cl t arrived during p = Inr p' \<Longrightarrow> control_of (env p') = control_of (env p)"
  by (auto simp: wait_and_handle_def dest!: process_batch_control)

lemma worker_iteration_control:
  assumes "user_control t user" and "worker_iteration L cl (lib_code L K user) t arrived during p = Some (Inr (go_on, p'))"
  shows "control_of (env p') = control_of (env p) \<and> go_on = (\<not> stop_requested (env p) t)"
proof -
  obtain p1 where p1: "TaskLoop_run (lib_code L K user) t p = Some (Inr p1)"
    using assms(2) by (auto simp: worker_iteration_def bind_res_eq_Inr split: option.splits)
  have c1: "control_of (env p1) = control_of (env p)"
    using control.pass_env [OF p1] assms(1) by (simp add: same_control_def)
  have "wait_and_handle L cl t arrived during p1 = Inr p'" "go_on = (\<not> stop_requested (env p') t)"
    using assms(2) unfolding worker_iteration_eq [OF p1] by (auto simp: bind_res_eq_Inr)
  then show ?thesis using wait_and_handle_control c1 by (fastforce simp: control_of_def)
qed

text \<open>
  A thread that has been asked to stop stops. When a stop has been requested, the next iteration
  of the worker's loop returns, and unless it ends with a fault it is the last one: neither the
  coroutines that run in it nor the completions it handles can take the request back.
\<close>

theorem worker_stops:
  assumes "\<And>l inp. safe_action (user l inp)" and "user_ranked L K user t ur" and "user_control t user"
    and "well_formed S p" and "stop_requested (env p) t"
  shows "\<exists>res. worker_iteration L cl (lib_code L K user) t arrived during p = Some res \<and>
    (\<forall>go_on p'. res = Inr (go_on, p') \<longrightarrow> \<not> go_on \<and> stop_requested (env p') t)"
proof -
  have code: "safe_code (lib_code L K user)" by (rule lib_code_safe [OF assms(1)])
  obtain r where r: "TaskLoop_run (lib_code L K user) t p = Some r"
    using pass_returns [OF code lib_code_ranked [OF assms(2)] assms(4) refl, of 0] by (auto simp: TaskLoop_run_def)
  show ?thesis
    using worker_iteration_eq [OF r, of L cl arrived during] worker_iteration_control [OF assms(3)] assms(5)
    by (fastforce simp: control_of_def)
qed

lemma sample_user_control: "user_control t sample_user"
  by (auto simp: user_control_def sample_user_def same_control_def co_spawn_def emplace_back_def enqueue_def
      create_coroutine_def upd_promise_def Let_def bind_res_eq_Inr)

lemma worker_stops_witness:
  "\<exists>res. worker_iteration (documented_liburing 128) \<lparr>call_func = \<lambda>g c. User g, hops = 1\<rparr> sample_lib 0 [] []
     (sample_main\<lparr>env := sample_env\<lparr>stop_requested := (\<lambda>t. True)\<rparr>\<rparr>) = Some res \<and> (\<forall>p'. res \<noteq> Inr (True, p'))"
proof -
  obtain S where "well_formed S sample_main" using sample_main_wf by blast
  then have W: "well_formed S (sample_main\<lparr>env := sample_env\<lparr>stop_requested := (\<lambda>t. True)\<rparr>\<rparr>)" by simp
  have "stop_requested (env (sample_main\<lparr>env := sample_env\<lparr>stop_requested := (\<lambda>t. True)\<rparr>\<rparr>)) 0" by simp
  from worker_stops [OF sample_user_safe sample_user_ranked sample_user_control W this]
  show ?thesis by blast
qed

section \<open>After the end\<close>

definition shut_down :: "nat \<Rightarrow> ('l, 'v, 'f) world \<Rightarrow> bool" where
  "shut_down n p \<longleftrightarrow> sys_stopped (env p) \<and> (\<forall>t \<in> {1..n}. stop_requested (env p) t)"

lemma shut_down_control: "control_of (env p') = control_of (env p) \<Longrightarrow> shut_down n p' = shut_down n p"
  by (simp add: shut_down_def control_of_def)

lemma quits_sent_control: "quits_sent L p = Inr p' \<Longrightarrow>
    control_of (env p') = control_of (Workers_stop ((env p)\<lparr>sys_stopped := True\<rparr>))"
  by (drule quits_sent_queued) (auto simp: quits_queued_def)

lemma process_all_control: "process_all L cl t p = Inr p' \<Longrightarrow> control_of (env p') = control_of (env p)"
  by (auto simp: process_all_def Let_def bind_res_eq_Inr ring_adv.effect_def dest!: ring_adv.handle_each_effect dest: on_ring_control)

lemma terminate_shuts_down:
  assumes "terminate_loop L cl arrived p = Inr p'" and "\<not> sys_stopped (env p)"
  shows "shut_down (length (uring_fds (env p))) p'"
proof -
  obtain p3 where p3: "quits_sent L p = Inr p3"
    and t: "bind_res (on_ring main_thread (\<lambda>u. Inr (arrive arrived (submit_all L u))) p3) (process_all L cl main_thread) = Inr p'"
    using assms(1) unfolding terminate_eq [OF assms(2)] by (auto simp: bind_res_eq_Inr)
  have "control_of (env p') = control_of (env p3)" using t by (auto dest!: process_all_control)
  with quits_sent_control [OF p3] show ?thesis by (simp add: shut_down_def control_of_def Workers_stop_def)
qed

lemma shut_down_step:
  assumes "\<And>t. user_control t user" and "shut_down n p" and st: "system_step L cl (lib_code L K user) n p p'"
  shows "shut_down n p'"
  using st
proof (cases rule: system_step.cases)
  case (step_main arrived ret during go_on)
  then show ?thesis using assms(2) by (simp add: run_iteration_def shut_down_def)
next
  case (step_worker t arrived during go_on)
  then show ?thesis
    using worker_iteration_control [OF assms(1) step_worker(3)] assms(2) shut_down_control by blast
next
  case (step_terminate arrived)
  then show ?thesis using assms(2) by (simp add: shut_down_def)
qed

text \<open>
  C23. A shutdown is final. Once terminate has returned, then however the threads go on, and whatever
  completions they handle: the main loop does not run another iteration, no iteration of a worker's
  loop is followed by another, and terminate, which the destructor calls again, does nothing.
\<close>

theorem shutdown_is_final:
  assumes "\<And>t. user_control t user" and "\<not> sys_stopped (env p)" and "terminate_loop L cl arrived p = Inr p1"
    and "(system_step L cl (lib_code L K user) (length (uring_fds (env p))))\<^sup>*\<^sup>* p1 p2"
  shows "run_iteration L cl (lib_code L K user) w p2 = Some (Inr (False, p2)) \<and>
    (\<forall>t \<in> {1..length (uring_fds (env p))}. \<forall>as ds go_on p3.
       worker_iteration L cl (lib_code L K user) t as ds p2 = Some (Inr (go_on, p3)) \<longrightarrow> \<not> go_on) \<and>
    terminate_loop L cl later p2 = Inr p2"
proof -
  let ?n = "length (uring_fds (env p))"
  have "shut_down ?n p2"
    using assms(4)
  proof (induction rule: rtranclp_induct)
    case base
    show ?case by (rule terminate_shuts_down [OF assms(3,2)])
  next
    case (step y z)
    then show ?case using shut_down_step [OF assms(1)] by blast
  qed
  then have t: "stop_requested (env p2) t" if "t \<in> {1..?n}" for t
    using that by (simp add: shut_down_def)
  have w: "\<not> go_on" if "t \<in> {1..?n}" "worker_iteration L cl (lib_code L K user) t as ds p2 = Some (Inr (go_on, p3))"
    for t as ds go_on p3
    using worker_iteration_control [OF assms(1) that(2)] t [OF that(1)] by simp
  have "sys_stopped (env p2)" using \<open>shut_down ?n p2\<close> by (simp add: shut_down_def)
  then have "run_iteration L cl (lib_code L K user) w p2 = Some (Inr (False, p2))" "terminate_loop L cl later p2 = Inr p2"
    by (simp_all add: run_iteration_def terminate_loop_def)
  then show ?thesis using w by blast
qed

lemma shutdown_is_final_witness:
  "\<exists>p1. terminate_loop (documented_liburing 128) \<lparr>call_func = \<lambda>g c. User g, hops = 1\<rparr> [] sample_main = Inr p1 \<and>
     run_iteration (documented_liburing 128) \<lparr>call_func = \<lambda>g c. User g, hops = 1\<rparr> sample_lib (0, [], []) p1 = Some (Inr (False, p1))"
proof -
  obtain p1 where p1: "terminate_loop (documented_liburing 128) \<lparr>call_func = \<lambda>g c. User g, hops = 1\<rparr> [] sample_main = Inr p1"
  proof -
    have "\<exists>p1. terminate_loop (documented_liburing 128) \<lparr>call_func = \<lambda>g c. User g, hops = 1\<rparr> [] sample_main = Inr p1"
      by (simp add: terminate_loop_def sample_main_def sample_env_def Workers_stop_def Let_def send_quit_ok
        documented_liburing_def ring_at_def sample_ring_def new_uring_def main_thread_def notify_self_quit_def
        process_all_def noexcept_def arrive_def submit_all_def on_ring_def on_env_def upd_ring_def)
    then show thesis using that by blast
  qed
  have "\<not> sys_stopped (env sample_main)" by (simp add: sample_main_def sample_env_def)
  from shutdown_is_final [OF sample_user_control this p1 rtranclp.rtrancl_refl] p1 show ?thesis by blast
qed

end
