(* ===== verification/Typed_Machine.thy ===== *)
theory Typed_Machine
  imports Machine_Runs Direct_Style
begin

text \<open>
  Typing of the coroutine machine. Every point of the code has the type of what its coroutine returns
  and a set of things it accepts when it is resumed; if every action keeps to that, then the machine
  only ever resumes a point with something it accepts.
\<close>

definition same_result :: "('l, 'v) frame \<Rightarrow> ('l, 'v) frame \<Rightarrow> bool" where
  "same_result f f' \<longleftrightarrow> costate f' = costate f \<and> promise_res (promise f') = promise_res (promise f) \<and>
     exn_ptr (promise f') = exn_ptr (promise f)"

definition start_frame :: "('l \<Rightarrow> 'v resume_in \<Rightarrow> bool) \<Rightarrow> ('l, 'v) frame \<Rightarrow> bool" where
  "start_frame accepts f \<longleftrightarrow> slot (promise_res (promise f)) = None \<and> exn_ptr (promise f) = None \<and>
     (\<exists>l. costate f = Suspended l AwInitial \<and> accepts l RStart)"

definition new_frames ::
  "('l \<Rightarrow> 'v resume_in \<Rightarrow> bool) \<Rightarrow> ('l, 'v, 'f, 's) proc \<Rightarrow> ('l, 'v, 'f, 's) proc \<Rightarrow> bool" where
  "new_frames accepts p p' \<longleftrightarrow> fresh p \<le> fresh p' \<and>
     (\<forall>h f'. frames p' h = Some f' \<longrightarrow>
        (\<exists>f. frames p h = Some f \<and> same_result f f') \<or>
        fresh p \<le> h \<and> h < fresh p' \<and> start_frame accepts f')"

lemma same_result_refl [simp]: "same_result f f"
  by (simp add: same_result_def)

lemma same_result_trans: "same_result f g \<Longrightarrow> same_result g h \<Longrightarrow> same_result f h"
  by (simp add: same_result_def)

lemma start_frame_same: "same_result f g \<Longrightarrow> start_frame acc f \<Longrightarrow> start_frame acc g"
  by (simp add: same_result_def start_frame_def)

definition action_typed ::
  "('v \<Rightarrow> 'ty \<Rightarrow> bool) \<Rightarrow> ('l \<Rightarrow> 'ty) \<Rightarrow> ('l \<Rightarrow> 'v resume_in \<Rightarrow> bool) \<Rightarrow> (exn \<Rightarrow> bool) \<Rightarrow> nat \<Rightarrow> 'ty
   \<Rightarrow> ('l, 'v, 'f, 's) action \<Rightarrow> bool" where
  "action_typed has_ty ret accepts ok t ty act =
     (case act of
        CoReturn v \<Rightarrow> has_ty v ty
      | CoThrow e \<Rightarrow> ok e
      | CoAwaitTask g k \<Rightarrow> ret k = ty \<and> accepts g RStart \<and> (\<forall>v. has_ty v (ret g) \<longrightarrow> accepts k (RVal v)) \<and>
          (\<forall>e. ok e \<longrightarrow> accepts k (RExn e))
      | CoAwaitUring op' pr k \<Rightarrow> ret k = ty \<and> (\<forall>r fl. accepts k (RCqe r fl))
      | CoAwaitPending k \<Rightarrow> ret k = ty \<and> accepts k RUnit
      | CoAwaitMshot pr k \<Rightarrow> ret k = ty \<and> accepts k RUnit
      | CoStep f k \<Rightarrow> ret k = ty \<and>
          (\<forall>p x p'. f t p = Inr (x, p') \<longrightarrow> accepts k x \<and> new_frames accepts p p'))"

locale typed_code =
  fixes code :: "('l, 'v, 'f, 's) code" and t :: nat and has_ty :: "'v \<Rightarrow> 'ty \<Rightarrow> bool"
    and ret :: "'l \<Rightarrow> 'ty" and accepts :: "'l \<Rightarrow> 'v resume_in \<Rightarrow> bool" and ok :: "exn \<Rightarrow> bool"
  assumes typed: "accepts l inp \<Longrightarrow> action_typed has_ty ret accepts ok t (ret l) (code l inp)"
begin

text \<open>\<open>T h\<close> is the type of what the coroutine at address \<open>h\<close> returns.\<close>

fun waits_for :: "address \<Rightarrow> (handle \<Rightarrow> 'ty) \<Rightarrow> 'l \<Rightarrow> awaiter \<Rightarrow> bool" where
  "waits_for n T l AwInitial = accepts l RStart"
| "waits_for n T l (AwTask c) =
     (c < n \<and> (\<forall>v. has_ty v (T c) \<longrightarrow> accepts l (RVal v)) \<and> (\<forall>e. ok e \<longrightarrow> accepts l (RExn e)))"
| "waits_for n T l (AwToken a) = (\<forall>r fl. accepts l (RCqe r fl))"
| "waits_for n T l AwNothing = accepts l RUnit"

definition frame_typed :: "address \<Rightarrow> (handle \<Rightarrow> 'ty) \<Rightarrow> handle \<Rightarrow> ('l, 'v) frame \<Rightarrow> bool" where
  "frame_typed n T h f \<longleftrightarrow> h < n \<and>
     (\<forall>v. slot (promise_res (promise f)) = Some v \<longrightarrow> has_ty v (T h)) \<and>
     (\<forall>e. exn_ptr (promise f) = Some e \<longrightarrow> ok e) \<and>
     (\<forall>l w. costate f = Suspended l w \<longrightarrow> ret l = T h \<and> waits_for n T l w)"

definition frames_typed :: "(handle \<Rightarrow> 'ty) \<Rightarrow> ('l, 'v, 'f, 's) proc \<Rightarrow> bool" where
  "frames_typed T p \<longleftrightarrow> (\<forall>h f. frames p h = Some f \<longrightarrow> frame_typed (fresh p) T h f)"

fun ctl_typed :: "(handle \<Rightarrow> 'ty) \<Rightarrow> address \<Rightarrow> ('l, 'v) ctl \<Rightarrow> bool" where
  "ctl_typed T n (Exec h l inp) = (h < n \<and> ret l = T h \<and> accepts l inp)"
| "ctl_typed T n _ = True"

definition machine_typed :: "('l, 'v) ctl \<Rightarrow> ('l, 'v, 'f, 's) proc \<Rightarrow> bool" where
  "machine_typed c p \<longleftrightarrow> (\<exists>T. frames_typed T p \<and> ctl_typed T (fresh p) c)"

lemma frames_typedD: "frames_typed T p \<Longrightarrow> frames p h = Some f \<Longrightarrow> frame_typed (fresh p) T h f"
  by (simp add: frames_typed_def)

lemma waits_for_grow:
  assumes "waits_for n T l w" and "n \<le> n'" and "\<And>h. h < n \<Longrightarrow> T' h = T h"
  shows "waits_for n' T' l w"
  using assms by (cases w) auto

lemma frame_typed_grow:
  assumes "frame_typed n T h f" and "n \<le> n'" and "\<And>h. h < n \<Longrightarrow> T' h = T h"
  shows "frame_typed n' T' h f"
  using assms waits_for_grow [OF _ assms(2), of T _ _ T'] by (auto simp: frame_typed_def)

text \<open>Changing one frame.\<close>

lemma frames_typed_upd:
  assumes "frames_typed T p" and "frame_typed (fresh p) T h f"
  shows "frames_typed T (p\<lparr>frames := (frames p)(h \<mapsto> f)\<rparr>)"
  using assms by (simp add: frames_typed_def)

lemma frames_typed_cong: "frames p' = frames p \<Longrightarrow> fresh p' = fresh p \<Longrightarrow> frames_typed T p' = frames_typed T p"
  by (simp add: frames_typed_def)

lemma frames_typed_upd_promise:
  assumes "frames_typed T p" and "upd_promise h g p = Inr p'"
    and "\<And>pr. promise_res (g pr) = promise_res pr \<and> exn_ptr (g pr) = exn_ptr pr"
  shows "frames_typed T p'"
proof -
  obtain f where f: "frames p h = Some f" "p' = p\<lparr>frames := (frames p)(h \<mapsto> f\<lparr>promise := g (promise f)\<rparr>)\<rparr>"
    using assms(2) by (auto simp: upd_promise_def split: option.splits)
  then show ?thesis
    using frames_typed_upd [OF assms(1), of h "f\<lparr>promise := g (promise f)\<rparr>"] frames_typedD [OF assms(1) f(1)] assms(3)
    by (simp add: frame_typed_def)
qed

lemma frames_typed_set_costate:
  assumes "frames_typed T p" and "set_costate h c p = Inr p'"
    and "\<And>l w. c = Suspended l w \<Longrightarrow> ret l = T h \<and> waits_for (fresh p) T l w"
  shows "frames_typed T p'"
proof -
  obtain f where f: "frames p h = Some f" "p' = p\<lparr>frames := (frames p)(h \<mapsto> f\<lparr>costate := c\<rparr>)\<rparr>"
    using assms(2) by (auto simp: set_costate_def split: option.splits)
  then show ?thesis
    using frames_typed_upd [OF assms(1), of h "f\<lparr>costate := c\<rparr>"] frames_typedD [OF assms(1) f(1)] assms(3)
    by (simp add: frame_typed_def)
qed

lemma same_fresh:
  "upd_promise h g p = Inr p' \<Longrightarrow> fresh p' = fresh p" "set_costate h c p = Inr p' \<Longrightarrow> fresh p' = fresh p"
  "upd_task ptr u p = Inr p' \<Longrightarrow> fresh p' = fresh p \<and> frames p' = frames p"
  by (auto simp: upd_promise_def set_costate_def upd_task_def Let_def split: option.splits if_splits)

lemma frames_typed_new:
  assumes T: "frames_typed T p" and n: "new_frames accepts p p'"
  shows "\<exists>T'. frames_typed T' p' \<and> (\<forall>h < fresh p. T' h = T h)"
proof -
  let ?T' = "\<lambda>h. if h < fresh p then T h else
      (case frames p' h of Some f \<Rightarrow> (case costate f of Suspended l w \<Rightarrow> ret l | _ \<Rightarrow> T h) | None \<Rightarrow> T h)"
  have le: "fresh p \<le> fresh p'" using n by (simp add: new_frames_def)
  have "frame_typed (fresh p') ?T' h f'" if f': "frames p' h = Some f'" for h f'
  proof -
    consider f where "frames p h = Some f" "same_result f f'"
      | "fresh p \<le> h" "h < fresh p'" "start_frame accepts f'"
      using n f' unfolding new_frames_def by blast
    then show ?thesis
    proof cases
      case 1
      have "frame_typed (fresh p) T h f" by (rule frames_typedD [OF T 1(1)])
      then have "frame_typed (fresh p') ?T' h f" by (rule frame_typed_grow [OF _ le]) simp
      then show ?thesis using 1 by (simp add: frame_typed_def same_result_def)
    next
      case 2
      then show ?thesis using f' by (auto simp: frame_typed_def start_frame_def)
    qed
  qed
  then have "frames_typed ?T' p'" by (simp add: frames_typed_def)
  then show ?thesis by (intro exI [of _ ?T']) simp
qed

lemma destroy_typed:
  "frames_typed T p \<Longrightarrow> Task_dtor tk (frames p) = Inr F \<Longrightarrow> frames_typed T (p\<lparr>frames := F\<rparr>)"
  by (auto simp: Task_dtor_def destroy_frame_def frames_typed_def split: option.splits costate.splits if_splits)

text \<open>Resuming a coroutine gives it something that the point where it is suspended accepts.\<close>

lemma task_resume_typed:
  assumes T: "frames_typed T p" and r: "TaskAwaier_await_resume callee p = Inr (x, p')"
  shows "frames_typed T p' \<and> fresh p' = fresh p \<and>
    ((\<exists>v. x = RVal v \<and> has_ty v (T callee)) \<or> (\<exists>e. x = RExn e \<and> ok e))"
proof -
  obtain pr res pr' p1 F where pr: "promise_at callee p = Inr pr" "promise_result pr = Inr (res, pr')"
    and p1: "upd_promise callee (\<lambda>_. pr') p = Inr p1"
    and F: "Task_dtor \<lparr>task_handle = Some callee\<rparr> (frames p1) = Inr F" and p': "p' = p1\<lparr>frames := F\<rparr>"
    and x: "x = (case res of Inl e \<Rightarrow> RExn e | Inr v \<Rightarrow> RVal v)"
    using r by (auto simp: TaskAwaier_await_resume_def bind_res_eq_Inr)
  obtain f where f: "frames p callee = Some f" "promise f = pr"
    using pr(1) by (auto simp: promise_at_def split: option.splits)
  have ft: "frame_typed (fresh p) T callee f" by (rule frames_typedD [OF T f(1)])
  have p1': "p1 = p\<lparr>frames := (frames p)(callee \<mapsto> f\<lparr>promise := pr'\<rparr>)\<rparr>"
    using p1 f by (simp add: upd_promise_def)
  have "frame_typed (fresh p) T callee (f\<lparr>promise := pr'\<rparr>)"
    using ft pr(2) f(2) by (auto simp: frame_typed_def promise_result_def move_out_result_def bind_res_eq_Inr
        split: option.splits)
  then have "frames_typed T p1" unfolding p1' by (rule frames_typed_upd [OF T])
  then have "frames_typed T p'" unfolding p' by (rule destroy_typed [OF _ F])
  moreover have "(\<exists>v. x = RVal v \<and> has_ty v (T callee)) \<or> (\<exists>e. x = RExn e \<and> ok e)"
    using ft pr(2) f(2) x by (auto simp: frame_typed_def promise_result_def move_out_result_def bind_res_eq_Inr
        split: option.splits)
  ultimately show ?thesis using p' p1' by simp
qed

lemma enter_typed:
  assumes T: "frames_typed T p" and e: "enter h p = Inr (c, p')"
  shows "frames_typed T p' \<and> fresh p' = fresh p \<and> ctl_typed T (fresh p') c"
proof -
  obtain f l w where f: "frames p h = Some f" "costate f = Suspended l w"
    using e by (auto simp: enter_def split: option.splits costate.splits)
  obtain p1 inp where p1: "set_costate h Running p = Inr p1" and r: "await_resume w p1 = Inr (inp, p')"
    and c: "c = Exec h l inp"
    using e f by (auto simp: enter_def bind_res_eq_Inr)
  have ft: "frame_typed (fresh p) T h f" by (rule frames_typedD [OF T f(1)])
  then have ret: "ret l = T h" "waits_for (fresh p) T l w" "h < fresh p" using f(2) by (simp_all add: frame_typed_def)
  have T1: "frames_typed T p1" by (rule frames_typed_set_costate [OF T p1]) simp
  have fr: "fresh p1 = fresh p" using same_fresh(2) [OF p1] .
  have "frames_typed T p' \<and> fresh p' = fresh p1 \<and> accepts l inp"
  proof (cases w)
    case AwInitial
    then show ?thesis using r T1 ret by (simp add: await_resume_def)
  next
    case (AwTask callee)
    then show ?thesis using r task_resume_typed [OF T1, of callee inp p'] ret fr by (auto simp: await_resume_def)
  next
    case (AwToken a)
    then show ?thesis using r T1 ret
      by (auto simp: await_resume_def UringAwaiter_await_resume_def bind_res_eq_Inr delete_obj_def
          frames_typed_cong [of "p1\<lparr>objs := _\<rparr>" p1])
  next
    case AwNothing
    then show ?thesis using r T1 ret by (simp add: await_resume_def)
  qed
  then show ?thesis using c ret fr by simp
qed

lemma finish_typed:
  assumes T: "frames_typed T p" and e: "finish h g p = Inr (c, p')"
    and g: "\<And>f. frame_typed (fresh p) T h f \<Longrightarrow> frame_typed (fresh p) T h (f\<lparr>promise := g (promise f)\<rparr>)"
  shows "frames_typed T p' \<and> fresh p' = fresh p \<and> ctl_typed T n c"
proof -
  obtain p1 p2 pr c' where p1: "upd_promise h g p = Inr p1" and p2: "set_costate h AtFinal p1 = Inr p2" and p': "p' = p2"
    and c: "c = (case c' of Some h' \<Rightarrow> Enter h' | None \<Rightarrow> Back)"
    using e by (auto simp: finish_def bind_res_eq_Inr)
  obtain f where f: "frames p h = Some f" "p1 = p\<lparr>frames := (frames p)(h \<mapsto> f\<lparr>promise := g (promise f)\<rparr>)\<rparr>"
    using p1 by (auto simp: upd_promise_def split: option.splits)
  have "frames_typed T p1" unfolding f(2)
    by (rule frames_typed_upd [OF T g [OF frames_typedD [OF T f(1)]]])
  then have "frames_typed T p2" by (rule frames_typed_set_costate [OF _ p2]) simp
  moreover have "fresh p2 = fresh p" using same_fresh(1) [OF p1] same_fresh(2) [OF p2] by simp
  ultimately show ?thesis using p' c by (cases c') simp_all
qed

lemma await_task_typed:
  assumes T: "frames_typed T p" and h: "h < fresh p" "ret k = T h" and g: "accepts g RStart"
    and k: "\<And>v. has_ty v (ret g) \<Longrightarrow> accepts k (RVal v)" "\<And>e. ok e \<Longrightarrow> accepts k (RExn e)"
    and e: "perform t h (CoAwaitTask g k) p = Inr (c, p')"
  shows "machine_typed c p'"
proof -
  let ?callee = "fresh p" and ?T = "T(fresh p := ret g)"
  let ?p1 = "snd (create_coroutine g p)"
  obtain p2 h' p3 where p2: "set_costate h (Suspended k (AwTask ?callee)) ?p1 = Inr p2"
    and p3: "TaskAwaier_await_suspend ?callee h p2 = Inr (h', p3)" and c: "c = Enter h'" "p' = p3"
    using e by (auto simp: perform_def create_coroutine_def bind_res_eq_Inr)
  obtain p4 root where p4: "upd_promise ?callee (set_caller (Some h)) p2 = Inr p4"
    and p5: "upd_promise ?callee (set_chain_root root) p4 = Inr p3"
    using p3 unfolding TaskAwaier_await_suspend_def bind_res_eq_Inr sum.inject prod.inject by blast
  have "frame_typed (Suc (fresh p)) ?T h' f" if "frames p h' = Some f" for h' f
    using frames_typedD [OF T that] by (rule frame_typed_grow) simp_all
  moreover have "frame_typed (Suc (fresh p)) ?T ?callee \<lparr>promise = new_promise, costate = Suspended g AwInitial\<rparr>"
    using g by (simp add: frame_typed_def new_promise_def)
  ultimately have "frames_typed ?T ?p1" by (auto simp: frames_typed_def create_coroutine_def)
  then have "frames_typed ?T p2"
    by (rule frames_typed_set_costate [OF _ p2]) (use h k in \<open>auto simp: create_coroutine_def\<close>)
  then have "frames_typed ?T p4" by (rule frames_typed_upd_promise [OF _ p4]) (simp add: set_caller_def)
  then have "frames_typed ?T p3" by (rule frames_typed_upd_promise [OF _ p5]) (simp add: set_chain_root_def)
  then show ?thesis using c by (auto simp: machine_typed_def)
qed

text \<open>Suspending.\<close>

lemma suspend_typed:
  assumes T: "frames_typed T p" and p1: "set_costate h (Suspended k w) p = Inr p1"
    and k: "ret k = T h" "waits_for (fresh p) T k w" and same: "frames p2 = frames p1" "fresh p2 = fresh p1"
  shows "machine_typed Back p2"
proof -
  have "frames_typed T p1" by (rule frames_typed_set_costate [OF T p1]) (use k in auto)
  then have "frames_typed T p2" using frames_typed_cong [OF same] by simp
  then show ?thesis by (auto simp: machine_typed_def)
qed

text \<open>The actions that suspend the coroutine, each with its awaiter.\<close>

lemma await_uring_typed:
  assumes T: "frames_typed T p" and h: "h < fresh p" "ret l = T h"
    and at: "action_typed has_ty ret accepts ok t (ret l) (code l inp)"
    and e: "perform t h (code l inp) p = Inr (c', p')" and act: "code l inp = CoAwaitUring op' pr k"
  shows "machine_typed c' p'"
proof -
  obtain a p1 p2 where p1: "UringAwaiter_ctor op' (pr t) p = Inr (a, p1)"
    and p2: "set_costate h (Suspended k (AwToken a)) p1 = Inr p2"
    and p3: "UringAwaiter_await_suspend h a p2 = Inr p'" and c': "c' = Back"
    using e act by (auto simp: perform_def bind_res_eq_Inr)
  have "frames p1 = frames p" "fresh p1 = Suc (fresh p)"
    using p1 by (auto simp: UringAwaiter_ctor_def alloc_obj_def bind_res_eq_Inr)
  then have "frames_typed T p1"
    using T frame_typed_grow [of "fresh p" T _ _ "Suc (fresh p)" T] by (simp add: frames_typed_def)
  moreover have "frames p' = frames p2" "fresh p' = fresh p2"
    using p3 by (auto simp: UringAwaiter_await_suspend_def bind_res_eq_Inr dest!: same_fresh(3))
  ultimately have "machine_typed Back p'"
    using suspend_typed [OF _ p2] at h act by (simp add: action_typed_def)
  then show ?thesis using c' by simp
qed

lemma await_pending_typed:
  assumes T: "frames_typed T p" and h: "h < fresh p" "ret l = T h"
    and at: "action_typed has_ty ret accepts ok t (ret l) (code l inp)"
    and e: "perform t h (code l inp) p = Inr (c', p')" and act: "code l inp = CoAwaitPending k"
  shows "machine_typed c' p'"
proof -
  obtain p1 where p1: "set_costate h (Suspended k AwNothing) p = Inr p1"
    and p2: "PendingAwaiter_await_suspend h p1 = Inr p'" and c': "c' = Back"
    using e act by (auto simp: perform_def bind_res_eq_Inr)
  have "frames p' = frames p1" "fresh p' = fresh p1"
    using p2 by (auto simp: PendingAwaiter_await_suspend_def bind_res_eq_Inr dest!: same_fresh(3))
  then have "machine_typed Back p'"
    using suspend_typed [OF T p1] at h act by (simp add: action_typed_def)
  then show ?thesis using c' by simp
qed

lemma await_mshot_typed:
  assumes T: "frames_typed T p" and h: "h < fresh p" "ret l = T h"
    and at: "action_typed has_ty ret accepts ok t (ret l) (code l inp)"
    and e: "perform t h (code l inp) p = Inr (c', p')" and act: "code l inp = CoAwaitMshot pr k"
  shows "machine_typed c' p'"
proof -
  obtain p1 p2 where p1: "MultishotAcceptDirectAwaiter_ctor (pr t) p = Inr p1"
    and p2: "set_costate h (Suspended k AwNothing) p1 = Inr p2"
    and p3: "MultishotAcceptDirectAwaiter_await_suspend h p2 = Inr p'" and c': "c' = Back"
    using e act by (auto simp: perform_def bind_res_eq_Inr)
  have "frames p1 = frames p" "fresh p1 = fresh p"
    using p1 by (auto simp: MultishotAcceptDirectAwaiter_ctor_def bind_res_eq_Inr)
  then have "frames_typed T p1" using T frames_typed_cong by blast
  moreover have "frames p' = frames p2" "fresh p' = fresh p2"
    using p3 by (auto simp: MultishotAcceptDirectAwaiter_await_suspend_def bind_res_eq_Inr dest!: same_fresh(3))
  ultimately have "machine_typed Back p'"
    using suspend_typed [OF _ p2] at h act by (simp add: action_typed_def)
  then show ?thesis using c' by simp
qed

lemma plain_step_typed:
  assumes T: "frames_typed T p" and h: "h < fresh p" "ret l = T h"
    and at: "action_typed has_ty ret accepts ok t (ret l) (code l inp)"
    and e: "perform t h (code l inp) p = Inr (c', p')" and act: "code l inp = CoStep f k"
  shows "machine_typed c' p'"
proof -
  obtain x where x: "f t p = Inr (x, p')" and c': "c' = Exec h k x"
    using e act by (auto simp: perform_def bind_res_eq_Inr)
  then have k: "ret k = ret l" "accepts k x" "new_frames accepts p p'"
    using at act by (auto simp: action_typed_def)
  obtain T' where "frames_typed T' p'" "\<forall>h < fresh p. T' h = T h" using frames_typed_new [OF T k(3)] by blast
  moreover have "fresh p \<le> fresh p'" using k(3) by (simp add: new_frames_def)
  ultimately show ?thesis using k h c' by (auto simp: machine_typed_def intro!: exI [of _ T'])
qed

lemma perform_typed:
  assumes T: "frames_typed T p" and c: "ctl_typed T (fresh p) (Exec h l inp)"
    and e: "perform t h (code l inp) p = Inr (c', p')"
  shows "machine_typed c' p'"
proof -
  have h: "h < fresh p" "ret l = T h" and acc: "accepts l inp" using c by simp_all
  note at = typed [OF acc]
  show ?thesis
  proof (cases "code l inp")
    case (CoReturn v)
    have "frames_typed T p' \<and> fresh p' = fresh p \<and> ctl_typed T (fresh p') c'"
      by (rule finish_typed [OF T, of h "return_value v"])
        (use e at h CoReturn in \<open>auto simp: perform_def action_typed_def frame_typed_def return_value_def construct_result_def\<close>)
    then show ?thesis by (auto simp: machine_typed_def)
  next
    case (CoThrow x)
    have "frames_typed T p' \<and> fresh p' = fresh p \<and> ctl_typed T (fresh p') c'"
      by (rule finish_typed [OF T, of h "unhandled_exception x"])
        (use e at h CoThrow in \<open>auto simp: perform_def action_typed_def frame_typed_def unhandled_exception_def\<close>)
    then show ?thesis by (auto simp: machine_typed_def)
  next
    case (CoAwaitTask g k)
    show ?thesis
      by (rule await_task_typed [OF T h(1), of k g])
        (use e at h CoAwaitTask in \<open>auto simp: action_typed_def\<close>)
  next
    case (CoAwaitUring op' pr k)
    then show ?thesis by (rule await_uring_typed [OF T h at e])
  next
    case (CoAwaitPending k)
    then show ?thesis by (rule await_pending_typed [OF T h at e])
  next
    case (CoAwaitMshot pr k)
    then show ?thesis by (rule await_mshot_typed [OF T h at e])
  next
    case (CoStep f k)
    then show ?thesis by (rule plain_step_typed [OF T h at e])
  qed
qed

lemma cstep_typed:
  assumes "machine_typed c p" and e: "cstep code t c p = Inr (c1, p1)"
  shows "machine_typed c1 p1"
proof -
  obtain T where T: "frames_typed T p" "ctl_typed T (fresh p) c" using assms(1) by (auto simp: machine_typed_def)
  show ?thesis
  proof (cases c)
    case (Enter h)
    then have "enter h p = Inr (c1, p1)" using e by (simp add: cstep_def)
    from enter_typed [OF T(1) this] show ?thesis by (auto simp: machine_typed_def)
  next
    case (Exec h l inp)
    then have "perform t h (code l inp) p = Inr (c1, p1)" using e by (simp add: cstep_def)
    from perform_typed [OF T(1) T(2) [unfolded Exec] this] show ?thesis .
  next
    case Back
    then show ?thesis using e assms(1) by (simp add: cstep_def)
  qed
qed

lemma machine_typed_frames: "machine_typed c p \<Longrightarrow> machine_typed (Enter h) p"
  by (auto simp: machine_typed_def)

lemma pass_typed:
  assumes "machine_typed Back p" and "TaskLoop_run code t p = Some (Inr p')"
  shows "machine_typed Back p'"
proof (rule TaskLoop_run_keeps [where Q = "machine_typed Back" and Q' = machine_typed, OF assms(2,1)])
  fix p ptr p1
  assume m: "machine_typed Back p" and "after_resume ptr p = Inr p1"
  then have "frames p1 = frames p" "fresh p1 = fresh p"
    by (auto simp: after_resume_def Let_def bind_res_eq_Inr split: if_splits dest!: same_fresh(3))
  then have "frames_typed T p1 = frames_typed T p" for T by (rule frames_typed_cong)
  then show "machine_typed Back p1" using m by (simp add: machine_typed_def)
qed (rule machine_typed_frames cstep_typed, assumption+)+

text \<open>Along any run of the machine, a point is only entered with something it accepts.\<close>

lemma csteps_typed: "csteps code t c p c1 p1 \<Longrightarrow> machine_typed c p \<Longrightarrow> machine_typed c1 p1"
  by (induction rule: csteps.induct) (auto intro: cstep_typed)

end

end
