(* ===== verification/Library_Types.thy ===== *)
theory Library_Types
  imports Typed_Machine Control
begin

text \<open>
  The types of the library's coroutines: what each returns, what each of its points accepts, and that
  their code keeps to it. So the branches of the model that stand for a value of a wrong type are never
  taken.
\<close>

section \<open>Types\<close>

datatype lib_ty = TUnit | TInt | TPair | TSocket | TListener | TConnection

fun has_ty :: "lib_value \<Rightarrow> lib_ty \<Rightarrow> bool" where
  "has_ty VUnit ty = (ty = TUnit)"
| "has_ty (VInt n) ty = (ty = TInt)"
| "has_ty (VPair n fl) ty = (ty = TPair)"
| "has_ty (VSocket s) ty = (ty = TSocket)"
| "has_ty (VListener s) ty = (ty = TListener)"
| "has_ty (VConnection c) ty = (ty = TConnection)"

fun prep_ret :: "prep_label \<Rightarrow> lib_ty" where
  "prep_ret (Close_socket s) = TUnit" | "prep_ret Close_socket_1 = TUnit"
| "prep_ret (Close_socket_direct s) = TUnit" | "prep_ret Close_socket_direct_1 = TUnit"
| "prep_ret (Multishot_accept_direct s) = TUnit" | "prep_ret Multishot_accept_direct_1 = TUnit"
| "prep_ret (Recv_in_ring_buf s) = TPair" | "prep_ret Recv_in_ring_buf_1 = TPair"
| "prep_ret (Sleep_for ts n fl) = TUnit" | "prep_ret Sleep_for_1 = TUnit"
| "prep_ret _ = TInt"

fun conn_ret :: "conn_label \<Rightarrow> lib_ty" where
  "conn_ret (Conn_sleep tm) = TUnit" | "conn_ret Conn_sleep_1 = TUnit"
| "conn_ret _ = TInt"

fun net_ret :: "'f net_label \<Rightarrow> lib_ty" where
  "net_ret (Listener_accept s) = TConnection" | "net_ret (Listener_accept_1 s) = TConnection"
| "net_ret (Listen_on a n) = TListener" | "net_ret (Listen_on_1 n) = TListener" | "net_ret Listen_on_2 = TListener"
| "net_ret (Multishot_accept_then s f) = TUnit" | "net_ret (Multishot_accept_then_1 f) = TUnit"
| "net_ret (Multishot_accept_then_2 f) = TUnit"
| "net_ret _ = TSocket"

fun lib_ret :: "('u \<Rightarrow> lib_ty) \<Rightarrow> ('u, 'f) label \<Rightarrow> lib_ty" where
  "lib_ret uret (User u) = uret u"
| "lib_ret uret (P l) = prep_ret l"
| "lib_ret uret (C l) = conn_ret l"
| "lib_ret uret (N l) = net_ret l"

text \<open>The exceptions with which the model answers a value of a wrong type.\<close>

definition wrong_type :: "exn \<Rightarrow> bool" where
  "wrong_type e \<longleftrightarrow> e \<in> LogicError ` {''not a value'', ''not a number'', ''not a completion'', ''not a pair'', ''not a socket''}"

definition proper :: "exn \<Rightarrow> bool" where
  "proper e \<longleftrightarrow> \<not> wrong_type e"

text \<open>What a point expects: to be started, a value, the completion of an operation, or to go on.\<close>

datatype expectation = EStart | EVal lib_ty | ECqe | EGoOn

fun meets :: "expectation \<Rightarrow> lib_value resume_in \<Rightarrow> bool" where
  "meets e (RExn x) = proper x"
| "meets e RStart = (e = EStart)"
| "meets e (RVal v) = (case e of EVal ty \<Rightarrow> has_ty v ty | EGoOn \<Rightarrow> has_ty v TUnit | _ \<Rightarrow> False)"
| "meets e (RCqe r fl) = (e = ECqe)"
| "meets e RUnit = (e = EGoOn)"

fun prep_expects :: "prep_label \<Rightarrow> expectation" where
  "prep_expects Multishot_accept_direct_1 = EGoOn"
| "prep_expects l = (if starts_prep l then EStart else ECqe)"

fun conn_expects :: "conn_label \<Rightarrow> expectation" where
  "conn_expects (Ring_buf_receive_2 c) = EVal TPair"
| "conn_expects (Ring_buf_receive_3 c) = EGoOn"
| "conn_expects (Ring_buf_receive_4 r) = EGoOn"
| "conn_expects Conn_sleep_1 = EGoOn"
| "conn_expects l = (if starts_conn l then EStart else EVal TInt)"

fun net_expects :: "'f net_label \<Rightarrow> expectation" where
  "net_expects Create_tcp_socket_2 = EVal TSocket"
| "net_expects Create_udp_socket_2 = EVal TSocket"
| "net_expects (Listen_on_1 n) = EVal TSocket"
| "net_expects Listen_on_2 = EVal TListener"
| "net_expects (Multishot_accept_then_1 f) = EGoOn"
| "net_expects (Multishot_accept_then_2 f) = EGoOn"
| "net_expects l = (if starts_net l then EStart else EVal TInt)"

fun lib_accepts :: "('u \<Rightarrow> lib_value resume_in \<Rightarrow> bool) \<Rightarrow> ('u, 'f) label \<Rightarrow> lib_value resume_in \<Rightarrow> bool" where
  "lib_accepts uacc (User u) inp = uacc u inp"
| "lib_accepts uacc (P l) inp = meets (prep_expects l) inp"
| "lib_accepts uacc (C l) inp = meets (conn_expects l) inp"
| "lib_accepts uacc (N l) inp = meets (net_expects l) inp"

section \<open>The code keeps to its types\<close>

abbreviation lib_typed_action ::
  "('u \<Rightarrow> lib_ty) \<Rightarrow> ('u \<Rightarrow> lib_value resume_in \<Rightarrow> bool) \<Rightarrow> nat \<Rightarrow> lib_ty \<Rightarrow> ('u, 'f) lib_action \<Rightarrow> bool" where
  "lib_typed_action uret uacc \<equiv> action_typed has_ty (lib_ret uret) (lib_accepts uacc) proper"

lemma action_typed_simps [simp]:
  "action_typed ht ret acc ok t ty (CoReturn v) = ht v ty"
  "action_typed ht ret acc ok t ty (CoThrow e) = ok e"
  "action_typed ht ret acc ok t ty (CoAwaitTask g k) \<longleftrightarrow> ret k = ty \<and> acc g RStart \<and>
     (\<forall>v. ht v (ret g) \<longrightarrow> acc k (RVal v)) \<and> (\<forall>e. ok e \<longrightarrow> acc k (RExn e))"
  "action_typed ht ret acc ok t ty (CoAwaitUring op' pr k) \<longleftrightarrow> ret k = ty \<and> (\<forall>r fl. acc k (RCqe r fl))"
  "action_typed ht ret acc ok t ty (CoAwaitPending k) \<longleftrightarrow> ret k = ty \<and> acc k RUnit"
  "action_typed ht ret acc ok t ty (CoAwaitMshot pr k) \<longleftrightarrow> ret k = ty \<and> acc k RUnit"
  "action_typed ht ret acc ok t ty (CoStep f k) \<longleftrightarrow> ret k = ty \<and>
     (\<forall>p x p'. f t p = Inr (x, p') \<longrightarrow> acc k x \<and> new_frames acc p p')"
  by (simp_all add: action_typed_def)

lemma has_tyE:
  "has_ty v TInt \<longleftrightarrow> (\<exists>n. v = VInt n)" "has_ty v TPair \<longleftrightarrow> (\<exists>n fl. v = VPair n fl)"
  "has_ty v TSocket \<longleftrightarrow> (\<exists>s. v = VSocket s)" "has_ty v TUnit \<longleftrightarrow> v = VUnit"
  by (cases v; simp)+

lemma proper_throws [simp]: "proper (RuntimeError s)"
  by (auto simp: proper_def wrong_type_def)

lemma typed_on_value:
  assumes "meets (EVal ty) inp" and "\<And>v. has_ty v ty \<Longrightarrow> lib_typed_action uret uacc t ty' (g v)"
  shows "lib_typed_action uret uacc t ty' (on_value g inp)"
  using assms by (cases inp) (simp_all add: on_value_def)

lemma typed_on_int:
  assumes "meets (EVal TInt) inp" and "\<And>n. lib_typed_action uret uacc t ty' (g n)"
  shows "lib_typed_action uret uacc t ty' (on_int g inp)"
  unfolding on_int_def by (rule typed_on_value [OF assms(1)]) (use assms(2) in \<open>auto simp: has_tyE\<close>)

lemma typed_on_unit:
  assumes "meets EGoOn inp" and "lib_typed_action uret uacc t ty' a"
  shows "lib_typed_action uret uacc t ty' (on_unit a inp)"
  using assms by (cases inp) (simp_all add: on_unit_def)

lemma typed_on_cqe:
  assumes "meets ECqe inp" and "\<And>r fl. lib_typed_action uret uacc t ty' (g r fl)"
  shows "lib_typed_action uret uacc t ty' (on_cqe g inp)"
  using assms by (cases inp) (simp_all add: on_cqe_def)

lemma new_frames_same: "frames p' = frames p \<Longrightarrow> fresh p \<le> fresh p' \<Longrightarrow> new_frames acc p p'"
  by (auto simp: new_frames_def)

lemma typed_prep:
  assumes "meets (prep_expects l) inp"
  shows "lib_typed_action uret uacc t (prep_ret l) (prep_code L l inp)"
  using assms
  by (cases "(L, l, inp)" rule: prep_code.cases)
    (auto simp: prep_defs awaiter_defs prep_result_defs intro!: typed_on_cqe typed_on_unit)

text \<open>The plain code between two suspensions gives the next point what it expects.\<close>

lemma load_socket_typed:
  "load_socket c t p = Inr (x, p') \<Longrightarrow> p' = p \<and> (\<exists>n. x = RVal (VInt n))"
  by (rule load_socket_value)

lemma extend_step_typed: "extend_step L t p = Inr (x, p') \<Longrightarrow> meets EGoOn x \<and> frames p' = frames p \<and> fresh p' = fresh p"
  by (auto simp: extend_step_def split_beta extend_buffer_def Let_def split: sum.splits if_splits)

lemma received_step_typed:
  "received_step c r fl t p = Inr (x, p') \<Longrightarrow> x = RVal VUnit \<and> frames p' = frames p \<and> fresh p' = fresh p"
  by (auto simp: received_step_def bind_res_eq_Inr)

lemma Socket_ctor_throws: "Socket_ctor K fd a lg = Inl (Throws e) \<Longrightarrow> proper e"
  by (auto simp: Socket_ctor_def set_reuse_def bind_res_eq_Inl Let_def split: if_splits)

lemma socket_step_typed:
  "socket_step K fd a t p = Inr (x, p') \<Longrightarrow>
   frames p' = frames p \<and> fresh p' = fresh p \<and> meets (EVal TSocket) x"
  by (auto simp: socket_step_def dest: Socket_ctor_throws split: sum.splits fault.splits)

lemma listen_step_typed:
  "listen_step n sk t p = Inr (x, p') \<Longrightarrow> frames p' = frames p \<and> fresh p' = fresh p \<and> meets (EVal TListener) x"
  by (auto simp: listen_step_def split_beta bind_res_eq_Inr)

lemma snd_alloc_frames [simp]:
  "frames (snd (alloc_obj ob p)) = frames p" "fresh (snd (alloc_obj ob p)) = Suc (fresh p)"
  by (simp_all add: alloc_obj_def)

lemma send_awaiting_frames:
  "send_awaiting L f fds p = Inr p' \<Longrightarrow> frames p' = frames p \<and> fresh p \<le> fresh p'"
proof (induction fds arbitrary: f p)
  case (Cons fd fds)
  then show ?case by (fastforce simp: bind_res_eq_Inr Let_def split_beta dest!: Cons.IH)
qed simp

lemma mshot_send_frames:
  "mshot_accept_send_awaiting_fd_and_process L f p = Inr p' \<Longrightarrow> frames p' = frames p \<and> fresh p \<le> fresh p'"
  by (auto simp: mshot_accept_send_awaiting_fd_and_process_def bind_res_eq_Inr dest: send_awaiting_frames)

lemma pick_worker_throws: "pick_worker s \<noteq> Inl (Throws e)"
  by (auto simp: pick_worker_def Let_def)

lemma at_sqe_throws: "at_sqe i f u \<noteq> Inl (Throws e)"
  by (cases i) simp_all

lemma send_awaiting_throws: "send_awaiting L f fds p \<noteq> Inl (Throws e)"
proof (induction fds arbitrary: f p)
  case (Cons fd fds)
  then show ?case
    by (auto simp: bind_res_eq_Inl Let_def split_beta pick_worker_throws at_sqe_throws)
qed simp

lemma mshot_step_typed:
  "as_step VUnit (mshot_accept_send_awaiting_fd_and_process L f) p = Inr (x, p') \<Longrightarrow>
   x = RVal VUnit \<and> frames p' = frames p \<and> fresh p \<le> fresh p'"
  by (auto simp: as_step_def mshot_accept_send_awaiting_fd_and_process_def bind_res_eq_Inr bind_res_eq_Inl
      send_awaiting_throws split: sum.splits fault.splits dest: send_awaiting_frames)

lemma typed_conn:
  assumes "meets (conn_expects l) inp"
  shows "lib_typed_action uret uacc t (conn_ret l) (conn_code L l inp)"
  using assms
  by (cases "(L, l, inp)" rule: conn_code.cases)
    (auto simp: read_some_def read_some_1_def write_some_def write_some_1_def write_all_def write_all_1_def
      return_count_def conn_sleep_def ring_buf_receive_def ring_buf_receive_1_def ring_buf_receive_2_def
      ring_buf_receive_3_def ring_buf_receive_4_def has_tyE
      intro!: typed_on_value typed_on_int typed_on_unit new_frames_same
      dest!: load_socket_typed extend_step_typed received_step_typed)

lemma typed_net:
  assumes "meets (net_expects l) inp"
  shows "lib_typed_action uret uacc t (net_ret l) (net_code L K l inp)"
  using assms
  by (cases "(L, K, l, inp)" rule: net_code.cases)
    (auto simp: create_tcp_socket_def create_tcp_socket_1_def create_tcp_socket_2_def create_udp_socket_def
      create_udp_socket_1_def listener_accept_def listener_accept_1_def listen_on_def listen_on_1_def
      listen_on_2_def multishot_accept_then_def multishot_accept_then_1_def multishot_accept_then_2_def
      Let_def has_tyE intro!: typed_on_value typed_on_int typed_on_unit new_frames_same
      dest!: socket_step_typed listen_step_typed mshot_step_typed)

section \<open>User code\<close>

text \<open>User code with a type for each of its coroutines and a set of things each of its points accepts.\<close>

definition user_typed ::
  "('u \<Rightarrow> lib_ty) \<Rightarrow> ('u \<Rightarrow> lib_value resume_in \<Rightarrow> bool) \<Rightarrow> ('u \<Rightarrow> lib_value resume_in \<Rightarrow> ('u, 'f) lib_action) \<Rightarrow> bool" where
  "user_typed uret uacc user \<longleftrightarrow>
     (\<forall>t l inp. uacc l inp \<longrightarrow> lib_typed_action uret uacc t (uret l) (user l inp))"

lemma lib_code_typed:
  assumes "user_typed uret uacc user" and "lib_accepts uacc l inp"
  shows "lib_typed_action uret uacc t (lib_ret uret l) (lib_code L K user l inp)"
  using assms by (cases l) (simp_all add: user_typed_def typed_prep typed_conn typed_net)

text \<open>The code whose user part is replaced by coroutines that return at once unless it is typed.\<close>

definition typed_part ::
  "('u \<Rightarrow> lib_ty) \<Rightarrow> ('u \<Rightarrow> lib_value resume_in \<Rightarrow> bool) \<Rightarrow> ('u \<Rightarrow> lib_value resume_in \<Rightarrow> ('u, 'f) lib_action)
   \<Rightarrow> 'u \<Rightarrow> lib_value resume_in \<Rightarrow> ('u, 'f) lib_action" where
  "typed_part uret uacc user =
     (if user_typed uret uacc user then user
      else (\<lambda>l inp. CoThrow (UserException 0)))"

lemma user_typed_part: "user_typed uret uacc (typed_part uret uacc user)"
  by (auto simp: typed_part_def) (auto simp: user_typed_def proper_def wrong_type_def)

interpretation lib_types: typed_code "lib_code L K (typed_part uret uacc user)" t has_ty
    "lib_ret uret" "lib_accepts uacc" proper
  for L K uret uacc user t
  by unfold_locales (rule lib_code_typed [OF user_typed_part])

section \<open>The handlers keep the types\<close>

lemma new_frames_refl [simp]: "new_frames acc p p"
  by (auto simp: new_frames_def)

lemma new_frames_trans:
  assumes "new_frames acc p q" and "new_frames acc q r"
  shows "new_frames acc p r"
proof -
  have le: "fresh p \<le> fresh q" "fresh q \<le> fresh r" using assms by (simp_all add: new_frames_def)
  have "(\<exists>f. frames p h = Some f \<and> same_result f f') \<or> fresh p \<le> h \<and> h < fresh r \<and> start_frame acc f'"
    if f': "frames r h = Some f'" for h f'
  proof -
    consider f where "frames q h = Some f" "same_result f f'"
      | "fresh q \<le> h" "h < fresh r" "start_frame acc f'"
      using assms(2) f' unfolding new_frames_def by blast
    then show ?thesis
    proof cases
      case 1
      have "(\<exists>f0. frames p h = Some f0 \<and> same_result f0 f) \<or> fresh p \<le> h \<and> h < fresh q \<and> start_frame acc f"
        using assms(1) 1(1) unfolding new_frames_def by blast
      then show ?thesis using 1(2) le same_result_trans start_frame_same by fastforce
    qed (use le in auto)
  qed
  then show ?thesis unfolding new_frames_def using le by simp
qed

lemma new_frames_fresh:
  "new_frames acc p q \<Longrightarrow> frames p' = frames p \<Longrightarrow> fresh p' \<le> fresh p \<Longrightarrow> new_frames acc p' q"
  unfolding new_frames_def by fastforce

lemma new_frames_env [simp]:
  "new_frames acc p (q\<lparr>env := s\<rparr>) = new_frames acc p q" "new_frames acc (p\<lparr>env := s\<rparr>) q = new_frames acc p q"
  "new_frames acc p (q\<lparr>objs := H\<rparr>) = new_frames acc p q" "new_frames acc (p\<lparr>objs := H\<rparr>) q = new_frames acc p q"
  by (simp_all add: new_frames_def)

lemma new_frames_create: "acc l RStart \<Longrightarrow> new_frames acc p (snd (create_coroutine l p))"
  by (auto simp: new_frames_def create_coroutine_def new_promise_def start_frame_def)

lemma new_frames_enqueue: "enqueue t tk p = Inr p' \<Longrightarrow> new_frames acc p p'"
  by (auto simp: new_frames_def enqueue_def upd_promise_def set_chain_root_def Let_def same_result_def
      split: option.splits if_splits)

text \<open>The functions that are called with a connection make coroutines that start as they should.\<close>

definition client_typed :: "('l \<Rightarrow> 'v resume_in \<Rightarrow> bool) \<Rightarrow> ('l, 'f) client \<Rightarrow> bool" where
  "client_typed acc cl \<longleftrightarrow> (\<forall>g c. acc (call_func cl g c) RStart)"

lemma new_frames_wake: "wake q p = Inr p' \<Longrightarrow> new_frames acc p p'"
  by (auto simp: wake_def bind_res_eq_Inr upd_task_def Let_def new_frames_def split: if_splits)

lemma new_frames_alloc: "new_frames acc p (p\<lparr>objs := H, fresh := Suc (fresh p)\<rparr>)"
  by (rule new_frames_same) simp_all

interpretation typed_handlers: handler_relation "new_frames acc" "\<lambda>l. acc l RStart" for acc
  by unfold_locales
    (auto intro: new_frames_trans new_frames_create new_frames_enqueue new_frames_wake new_frames_alloc)

lemma starts_typed: "client_typed acc cl \<Longrightarrow> starts_in (\<lambda>l. acc l RStart) cl"
  by (simp add: client_typed_def starts_in_def)

section \<open>All threads\<close>

abbreviation lib_machine_typed ::
  "('u \<Rightarrow> lib_ty) \<Rightarrow> ('u \<Rightarrow> lib_value resume_in \<Rightarrow> bool) \<Rightarrow> (('u, 'f) label, lib_value) ctl
   \<Rightarrow> (('u, 'f) label, lib_value, 'f) world \<Rightarrow> bool" where
  "lib_machine_typed uret uacc \<equiv> typed_code.machine_typed has_ty (lib_ret uret) (lib_accepts uacc) proper"

lemma machine_typed_new:
  assumes "lib_machine_typed uret uacc Back p" and "new_frames (lib_accepts uacc) p p'"
  shows "lib_machine_typed uret uacc Back p'"
proof -
  obtain T where "lib_types.frames_typed uret uacc T p" using assms(1) by (auto simp: lib_types.machine_typed_def)
  from lib_types.frames_typed_new [OF this assms(2)] show ?thesis by (auto simp: lib_types.machine_typed_def)
qed

lemma machine_typed_start:
  assumes "emplace_back t root (initial_proc s) = Inr p" and "lib_accepts uacc root RStart"
  shows "lib_machine_typed uret uacc Back p"
proof -
  have "lib_machine_typed uret uacc Back (initial_proc s)"
    by (auto simp: lib_types.machine_typed_def lib_types.frames_typed_def initial_proc_def)
  moreover have "new_frames (lib_accepts uacc) (initial_proc s) p"
    using assms new_frames_create [of "lib_accepts uacc" root "initial_proc s"]
    by (auto simp: emplace_back_def split_beta dest!: new_frames_enqueue [of _ _ _ _ "lib_accepts uacc"]
        intro: new_frames_trans)
  ultimately show ?thesis by (rule machine_typed_new)
qed

lemma typed_part_id: "user_typed uret uacc user \<Longrightarrow> typed_part uret uacc user = user"
  by (simp add: typed_part_def)

lemma lib_pass_typed:
  assumes "user_typed uret uacc user" and "lib_machine_typed uret uacc Back p"
    and "TaskLoop_run (lib_code L K user) t p = Some (Inr p')"
  shows "lib_machine_typed uret uacc Back p'"
  using lib_types.pass_typed [of uret uacc p L K user t p'] assms by (simp add: typed_part_id)

lemma system_step_typed:
  assumes U: "user_typed uret uacc user" and C: "client_typed (lib_accepts uacc) cl"
    and T: "lib_machine_typed uret uacc Back p" and st: "system_step L cl (lib_code L K user) n p p'"
  shows "lib_machine_typed uret uacc Back p'"
  using st
proof (cases rule: system_step.cases)
  case (step_main arrived ret' during go_on)
  then consider "p' = p"
    | p1 where "TaskLoop_run (lib_code L K user) main_thread p = Some (Inr p1)" "new_frames (lib_accepts uacc) p1 p'"
    by (auto simp: run_iteration_def bind_res_eq_Inr split: if_splits option.splits
        dest!: typed_handlers.rel_batch [where acc = "lib_accepts uacc", OF starts_typed [OF C]])
  then show ?thesis using T lib_pass_typed [OF U T] machine_typed_new by cases blast+
next
  case (step_worker t arrived during go_on)
  then obtain p1 where p1: "TaskLoop_run (lib_code L K user) t p = Some (Inr p1)"
    by (auto simp: worker_iteration_def bind_res_eq_Inr split: option.splits)
  have "wait_and_handle L cl t arrived during p1 = Inr p'"
    using step_worker(3) unfolding worker_iteration_eq [OF p1] by (auto simp: bind_res_eq_Inr)
  then show ?thesis using lib_pass_typed [OF U T p1]
    typed_handlers.rel_wait [where acc = "lib_accepts uacc", OF starts_typed [OF C]] machine_typed_new by blast
next
  case (step_terminate arrived)
  obtain p3 where p3: "quits_sent L p = Inr p3"
    and t: "bind_res (on_ring main_thread (\<lambda>u. Inr (arrive arrived (submit_all L u))) p3)
      (process_all L cl main_thread) = Inr p'"
    using step_terminate(3) unfolding terminate_eq [OF step_terminate(1)] by (auto simp: bind_res_eq_Inr)
  have "new_frames (lib_accepts uacc) p3 p'" using t by (auto dest!: typed_handlers.rel_all [where acc = "lib_accepts uacc", OF starts_typed [OF C]])
  then show ?thesis using typed_handlers.rel_quits [OF p3] new_frames_trans T machine_typed_new by blast
qed

text \<open>
  C18. Every value is of the type its receiver expects. For user code and functions that are typed, in
  every state that the threads of a started system can reach, whatever coroutine is then resumed and
  however far it and the coroutines it awaits run, each point of a coroutine is entered with something
  it accepts, what the coroutine returns has its type, and no exception that stands for a value of a
  wrong type is ever thrown.
\<close>

theorem library_values_typed:
  assumes "user_typed uret uacc user" and "client_typed (lib_accepts uacc) cl" and "lib_accepts uacc root RStart"
    and "started root p0" and "(system_step L cl (lib_code L K user) n)\<^sup>*\<^sup>* p0 p"
    and "csteps (lib_code L K user) t (Enter h) p (Exec h' l inp) p'"
  shows "lib_accepts uacc l inp \<and>
    (\<forall>v. lib_code L K user l inp = CoReturn v \<longrightarrow> has_ty v (lib_ret uret l)) \<and>
    (\<forall>e. lib_code L K user l inp = CoThrow e \<longrightarrow> \<not> wrong_type e)"
proof -
  have "lib_machine_typed uret uacc Back p0"
    using assms(3,4) machine_typed_start unfolding started_def by blast
  with assms(5) have "lib_machine_typed uret uacc Back p"
    by (induction rule: rtranclp_induct) (auto intro: system_step_typed [OF assms(1,2)])
  then have "lib_machine_typed uret uacc (Enter h) p" by (rule lib_types.machine_typed_frames)
  then have "lib_machine_typed uret uacc (Exec h' l inp) p'"
    using lib_types.csteps_typed [of L K uret uacc user t] assms(1,6) by (simp add: typed_part_id)
  then have acc: "lib_accepts uacc l inp" by (auto simp: lib_types.machine_typed_def)
  from lib_code_typed [OF assms(1) this, of t L K] show ?thesis
    using acc by (auto simp: proper_def)
qed

lemma sample_user_typed: "user_typed (\<lambda>l. TUnit) (\<lambda>l inp. True) sample_user"
proof -
  have "new_frames (lib_accepts (\<lambda>l inp. True)) p p'" if "co_spawn (User 2) VUnit t p = Inr (x, p')"
    for t x and p p' :: "((nat, nat) label, lib_value, nat) world"
  proof -
    let ?p1 = "snd (create_coroutine (User 2) p)"
    have "new_frames (lib_accepts (\<lambda>l inp. True)) p ?p1" by (rule new_frames_create) simp
    moreover have "new_frames (lib_accepts (\<lambda>l inp. True)) ?p1 p'"
      using that by (auto simp: co_spawn_def emplace_back_def split_beta bind_res_eq_Inr intro: new_frames_enqueue)
    ultimately show ?thesis by (rule new_frames_trans)
  qed
  then show ?thesis by (auto simp: user_typed_def sample_user_def)
qed

lemma library_values_typed_witness:
  "\<exists>p'. csteps sample_lib 0 (Enter 2) sample_main (Exec 2 (User 0) RStart) p' \<and>
     lib_accepts (\<lambda>l inp. True) (User 0 :: (nat, nat) label) RStart"
proof -
  have "cstep sample_lib 0 (Enter 2) sample_main = Inr (Exec 2 (User 0) RStart,
      sample_main\<lparr>frames := [2 \<mapsto> \<lparr>promise = set_chain_root (Some (0, 0)) new_promise, costate = Running\<rparr>]\<rparr>)"
    by (simp add: cstep_def enter_def set_costate_def await_resume_def sample_main_def)
  then have "\<exists>p'. csteps sample_lib 0 (Enter 2) sample_main (Exec 2 (User 0) RStart) p'"
    by (meson csteps.intros)
  then obtain p' where p': "csteps sample_lib 0 (Enter 2) sample_main (Exec 2 (User 0) RStart) p'" ..
  have "client_typed (lib_accepts (\<lambda>l inp. True)) (\<lparr>call_func = \<lambda>g c. User g, hops = 1\<rparr> :: ((nat, nat) label, nat) client)"
    by (simp add: client_typed_def)
  from library_values_typed [OF sample_user_typed this _ sample_started rtranclp.rtrancl_refl p'] p'
  show ?thesis by auto
qed

end
