(* ===== verification/Teardown.thy ===== *)
theory Teardown
  imports System_Properties
begin

text \<open>
  What is destroyed when a thread ends. A task loop owns its tasks, a task the frame of its root
  coroutine, a frame the temporaries and locals that are alive at its suspension point: the task it
  awaits, or the awaiter with its token, and the connections of the user's code. The locals of a
  function are destroyed in the reverse order of their declaration, so the ring of a worker is gone
  when its task loop is destroyed.
\<close>

declare split_paired_All [simp del] split_paired_Ex [simp del]

section \<open>Destructors\<close>

text \<open>
  The connections that a frame holds: \<open>gone\<close> are the threads whose rings have been destroyed. The
  destructor of a connection that refers to one of them works on a dangling pointer.
\<close>

definition drop_conn :: "liburing \<Rightarrow> nat set \<Rightarrow> nat \<Rightarrow> address \<Rightarrow> sys_env \<Rightarrow> sys_env res" where
  "drop_conn L gone t c s =
     (case conns s c of
        None \<Rightarrow> Inl DanglingPointer
      | Some x \<Rightarrow>
          if (ownership_in_sys_ring x \<and> main_thread \<in> gone) \<or>
             (\<not> ownership_in_sys_ring x \<and> - 1 < direct_fd_in_this_ring x \<and> t \<in> gone)
          then Inl DanglingPointer
          else bind_res (TcpConnection_dtor L t x s) (\<lambda>(x', s1). Inr (s1\<lparr>conns := (conns s1)(c := None)\<rparr>)))"

fun drop_conns :: "liburing \<Rightarrow> nat set \<Rightarrow> nat \<Rightarrow> address list \<Rightarrow> sys_env \<Rightarrow> sys_env res" where
  "drop_conns L gone t [] s = Inr s"
| "drop_conns L gone t (c # cs) s = bind_res (drop_conn L gone t c s) (drop_conns L gone t cs)"

text \<open>
  \<open>Task::~Task\<close> of a task with a coroutine. A finished coroutine holds no temporaries;
  \<open>locals h\<close> are the connections that the frame at \<open>h\<close> holds.
\<close>

definition release_frame ::
  "liburing \<Rightarrow> nat set \<Rightarrow> (handle \<Rightarrow> address list) \<Rightarrow> nat \<Rightarrow> handle \<Rightarrow> ('l, 'v, 'f) world \<Rightarrow> ('l, 'v, 'f) world res" where
  "release_frame L gone locals t h p =
     bind_res (on_env (drop_conns L gone t (locals h)) p) (\<lambda>p1. Inr (p1\<lparr>frames := (frames p1)(h := None)\<rparr>))"

partial_function (option) destroy_coroutine ::
  "liburing \<Rightarrow> nat set \<Rightarrow> (handle \<Rightarrow> address list) \<Rightarrow> nat \<Rightarrow> handle \<Rightarrow> ('l, 'v, 'f) world
   \<Rightarrow> ('l, 'v, 'f) world res option" where
  "destroy_coroutine L gone locals t h p =
     (case frames p h of
        None \<Rightarrow> Some (Inl DanglingPointer)
      | Some f \<Rightarrow>
          Option.bind
            (case costate f of
               Running \<Rightarrow> Some (Inl DeadCoroutine)
             | AtFinal \<Rightarrow> Some (Inr p)
             | Suspended l w \<Rightarrow>
                 (case w of
                    AwTask c \<Rightarrow> destroy_coroutine L gone locals t c p
                  | AwToken a \<Rightarrow> Some (Inr (delete_obj a p))
                  | AwInitial \<Rightarrow> Some (Inr p)
                  | AwNothing \<Rightarrow> Some (Inr p)))
            (\<lambda>r. Some (bind_res r (release_frame L gone locals t h))))"

definition ScheduledTask_dtor ::
  "liburing \<Rightarrow> nat set \<Rightarrow> (handle \<Rightarrow> address list) \<Rightarrow> nat \<Rightarrow> scheduled_task \<Rightarrow> ('l, 'v, 'f) world
   \<Rightarrow> ('l, 'v, 'f) world res option" where
  "ScheduledTask_dtor L gone locals t st p =
     (case task_handle (sched_task st) of
        None \<Rightarrow> Some (Inr p)
      | Some h \<Rightarrow> destroy_coroutine L gone locals t h p)"

text \<open>The tasks of a list are destroyed from the front.\<close>

fun destroy_tasks ::
  "liburing \<Rightarrow> nat set \<Rightarrow> (handle \<Rightarrow> address list) \<Rightarrow> nat \<Rightarrow> scheduled_task list \<Rightarrow> ('l, 'v, 'f) world
   \<Rightarrow> ('l, 'v, 'f) world res option" where
  "destroy_tasks L gone locals t [] p = Some (Inr p)"
| "destroy_tasks L gone locals t (st # sts) p =
     (case ScheduledTask_dtor L gone locals t st p of
        None \<Rightarrow> None
      | Some (Inl e) \<Rightarrow> Some (Inl e)
      | Some (Inr p1) \<Rightarrow> destroy_tasks L gone locals t sts p1)"

definition TaskLoop_dtor ::
  "liburing \<Rightarrow> nat set \<Rightarrow> (handle \<Rightarrow> address list) \<Rightarrow> nat \<Rightarrow> ('l, 'v, 'f) world \<Rightarrow> ('l, 'v, 'f) world res option" where
  "TaskLoop_dtor L gone locals t p =
     (case destroy_tasks L gone locals t (loops p t) p of
        None \<Rightarrow> None
      | Some r \<Rightarrow> Some (bind_res r (\<lambda>p1. Inr (p1\<lparr>loops := (loops p1)(t := [])\<rparr>))))"

text \<open>
  The end of a thread: the buffers are released and the ring is destroyed, then the task loop.
\<close>

definition RingBuffer_dtor :: "nat \<Rightarrow> sys_env \<Rightarrow> sys_env" where
  "RingBuffer_dtor t s = s\<lparr>buffers := (buffers s)(t := buf_release (buffers s t))\<rparr>"

definition thread_exit ::
  "liburing \<Rightarrow> (handle \<Rightarrow> address list) \<Rightarrow> nat \<Rightarrow> ('l, 'v, 'f) world \<Rightarrow> ('l, 'v, 'f) world res option" where
  "thread_exit L locals t p = TaskLoop_dtor L {t} locals t (p\<lparr>env := RingBuffer_dtor t (env p)\<rparr>)"

fun exit_threads ::
  "liburing \<Rightarrow> (handle \<Rightarrow> address list) \<Rightarrow> nat list \<Rightarrow> ('l, 'v, 'f) world \<Rightarrow> ('l, 'v, 'f) world res option" where
  "exit_threads L locals [] p = Some (Inr p)"
| "exit_threads L locals (t # ts) p =
     (case thread_exit L locals t p of
        None \<Rightarrow> None
      | Some (Inl e) \<Rightarrow> Some (Inl e)
      | Some (Inr p1) \<Rightarrow> exit_threads L locals ts p1)"

text \<open>
  \<open>SystemLoop::~SystemLoop\<close>: the loop is terminated; then \<open>~Workers\<close> asks all threads to stop
  once more and joins them in order, and the members of the main thread are destroyed.
\<close>

definition Workers_dtor ::
  "liburing \<Rightarrow> (handle \<Rightarrow> address list) \<Rightarrow> ('l, 'v, 'f) world \<Rightarrow> ('l, 'v, 'f) world res option" where
  "Workers_dtor L locals p =
     exit_threads L locals [1..<Suc (length (uring_fds (env p)))] (p\<lparr>env := Workers_stop (env p)\<rparr>)"

definition SystemLoop_dtor ::
  "liburing \<Rightarrow> ('l, 'f) client \<Rightarrow> (handle \<Rightarrow> address list) \<Rightarrow> cqe list \<Rightarrow> ('l, 'v, 'f) world
   \<Rightarrow> ('l, 'v, 'f) world res option" where
  "SystemLoop_dtor L cl locals arrived p =
     (case noexcept (terminate_loop L cl arrived p) of
        Inl e \<Rightarrow> Some (Inl e)
      | Inr p1 \<Rightarrow>
          (case Workers_dtor L locals p1 of
             None \<Rightarrow> None
           | Some (Inl e) \<Rightarrow> Some (Inl e)
           | Some (Inr p2) \<Rightarrow> thread_exit L locals main_thread p2))"

section \<open>A chain is destroyed from its innermost coroutine\<close>

fun release_frames ::
  "liburing \<Rightarrow> nat set \<Rightarrow> (handle \<Rightarrow> address list) \<Rightarrow> nat \<Rightarrow> handle list \<Rightarrow> ('l, 'v, 'f) world \<Rightarrow> ('l, 'v, 'f) world res" where
  "release_frames L gone locals t [] p = Inr p"
| "release_frames L gone locals t (h # hs) p =
     bind_res (release_frame L gone locals t h p) (release_frames L gone locals t hs)"

lemma release_frames_append:
  "release_frames L gone locals t (xs @ ys) p =
     bind_res (release_frames L gone locals t xs p) (release_frames L gone locals t ys)"
proof (induction xs arbitrary: p)
  case (Cons x xs)
  then show ?case by (cases "release_frame L gone locals t x p") simp_all
qed simp

lemma release_frames_snoc:
  "release_frames L gone locals t (xs @ [h]) p =
     bind_res (release_frames L gone locals t xs p) (release_frame L gone locals t h)"
proof -
  have one: "release_frames L gone locals t [h] q = release_frame L gone locals t h q" for q
    by (cases "release_frame L gone locals t h q") simp_all
  show ?thesis by (cases "release_frames L gone locals t xs p") (simp_all only: release_frames_append bind_res_Inl bind_res_Inr one)
qed

lemmas release_frame_one = release_frames_snoc [of _ _ _ _ "[]", simplified append_Nil release_frames.simps(1) bind_res_Inr]

definition free_token :: "awaiter \<Rightarrow> ('l, 'v, 'f) world \<Rightarrow> ('l, 'v, 'f) world" where
  "free_token w p = (case w of AwToken a \<Rightarrow> delete_obj a p | _ \<Rightarrow> p)"

lemma free_token_simps [simp]:
  "frames (free_token w p) = frames p" "loops (free_token w p) = loops p" "env (free_token w p) = env p"
  "fresh (free_token w p) = fresh p"
  by (simp_all add: free_token_def delete_obj_def split: awaiter.splits)

lemma destroy_linked:
  assumes "linked (frames p) ptr c (h # hs)" and "frames p (last (h # hs)) = Some f" and "costate f = Suspended l w"
    and "\<And>c. w \<noteq> AwTask c"
  shows "destroy_coroutine L gone locals t h p = Some (release_frames L gone locals t (rev (h # hs)) (free_token w p))"
  using assms(1,2)
proof (induction hs arbitrary: h c)
  case Nil
  then show ?case using assms(3,4)
    by (cases w) (auto simp: destroy_coroutine.simps [of _ _ _ _ h] free_token_def release_frame_one simp del: release_frames.simps)
next
  case (Cons x xs)
  obtain g k where g: "frames p h = Some g" "costate g = Suspended k (AwTask x)" and L: "linked (frames p) ptr (Some h) (x # xs)"
    using Cons.prems(1) by auto
  have "destroy_coroutine L gone locals t x p = Some (release_frames L gone locals t (rev (x # xs)) (free_token w p))"
    by (rule Cons.IH [OF L]) (use Cons.prems(2) in simp)
  then show ?case
    using g by (simp add: destroy_coroutine.simps [of _ _ _ _ h] release_frames_snoc [of _ _ _ _ "rev (x # xs)", simplified] del: release_frames.simps)
qed

text \<open>The awaiter whose token is freed: that of the innermost coroutine, if the task has one.\<close>

lemma task_destroyed:
  assumes R: "at_rest (frames p) (objs p) hs q st"
  obtains w where "ScheduledTask_dtor L gone locals t st p = Some (release_frames L gone locals t (rev hs) (free_token w p))"
    and "aw_ok (objs p) q w"
proof -
  have ne: "hs \<noteq> []" and th: "task_handle (sched_task st) = Some (hd hs)" using R by (simp_all add: at_rest_def)
  show thesis
  proof (cases "valid st")
    case True
    then have L: "linked (frames p) q None hs" and top: "top_ok (frames p) (objs p) q (last hs)"
      using R by (simp_all add: at_rest_def)
    obtain f l w where f: "frames p (last hs) = Some f" "costate f = Suspended l w" and w: "aw_ok (objs p) q w"
      using top by (auto simp: top_ok_def)
    have "w \<noteq> AwTask c" for c using w by (auto simp: aw_ok_def)
    then have "destroy_coroutine L gone locals t (hd hs) p = Some (release_frames L gone locals t (rev hs) (free_token w p))"
      using destroy_linked [of p q None "hd hs" "tl hs" f l w L gone locals t] L f ne by simp
    then show thesis using that [OF _ w] th by (simp add: ScheduledTask_dtor_def)
  next
    case False
    then obtain f where hs: "hs = [hd hs]" and f: "frames p (hd hs) = Some f" "costate f = AtFinal"
      using R by (auto simp: at_rest_def)
    have "rev hs = [hd hs]" by (subst hs) simp
    then have "destroy_coroutine L gone locals t (hd hs) p = Some (release_frames L gone locals t (rev hs) (free_token AwInitial p))"
      using f by (simp add: destroy_coroutine.simps [of _ _ _ _ "hd hs"] free_token_def release_frame_one \<open>rev hs = [hd hs]\<close> del: release_frames.simps)
    then show thesis using that [of AwInitial] th by (simp add: ScheduledTask_dtor_def aw_ok_def)
  qed
qed

text \<open>The connections of the frames are dropped in the order of the frames.\<close>

lemma drop_conns_append:
  "drop_conns L gone t (xs @ ys) s = bind_res (drop_conns L gone t xs s) (drop_conns L gone t ys)"
proof (induction xs arbitrary: s)
  case (Cons x xs)
  then show ?case by (cases "drop_conn L gone t x s") simp_all
qed simp

lemma env_last:
  "p\<lparr>env := s, frames := F\<rparr> = p\<lparr>frames := F, env := s\<rparr>" "p\<lparr>env := s, loops := q\<rparr> = p\<lparr>loops := q, env := s\<rparr>"
  by simp_all

lemma release_frames_eq:
  "release_frames L gone locals t hs p = bind_res (drop_conns L gone t (concat (map locals hs)) (env p))
     (\<lambda>s. Inr (p\<lparr>frames := (frames p) |` (- set hs), env := s\<rparr>))"
proof (induction hs arbitrary: p)
  case (Cons h hs)
  show ?case
  proof (cases "drop_conns L gone t (locals h) (env p)")
    case (Inr s)
    let ?q = "p\<lparr>env := s, frames := (frames p)(h := None)\<rparr>"
    have "((frames p)(h := None)) |` (- set hs) = (frames p) |` (- set (h # hs))"
      by (rule ext) (auto simp: restrict_map_def)
    then have q: "?q\<lparr>frames := (frames ?q) |` (- set hs), env := s'\<rparr> = p\<lparr>frames := (frames p) |` (- set (h # hs)), env := s'\<rparr>" for s'
      by simp
    have "release_frames L gone locals t (h # hs) p = release_frames L gone locals t hs ?q"
      using Inr by (simp add: release_frame_def on_env_def)
    also have "\<dots> = bind_res (drop_conns L gone t (concat (map locals hs)) s)
        (\<lambda>s'. Inr (p\<lparr>frames := (frames p) |` (- set (h # hs)), env := s'\<rparr>))"
      unfolding Cons q by simp
    finally show ?thesis using Inr by (simp only: list.map concat.simps drop_conns_append bind_res_Inr)
  qed (simp add: release_frame_def on_env_def drop_conns_append)
qed (simp add: restrict_map_def)

section \<open>A task loop is destroyed\<close>

text \<open>
  Part of the list has been destroyed: the frames of its first \<open>i\<close> tasks are gone, and of the
  heap at most tokens of these tasks.
\<close>

definition torn :: "chains \<Rightarrow> nat \<Rightarrow> nat \<Rightarrow> ('l, 'v, 'f) world \<Rightarrow> ('l, 'v, 'f) world \<Rightarrow> bool" where
  "torn S t i p p' \<longleftrightarrow> loops p' = loops p \<and> fresh p' = fresh p \<and>
     frames p' = (frames p) |` (- (\<Union>j<i. set (S (t, j)))) \<and>
     (\<forall>a. objs p' a = objs p a \<or> objs p' a = None \<and> a \<noteq> multishot_token \<and>
        (\<exists>tk. \<exists>j<i. objs p a = Some (Token tk) \<and> chain_task tk = Some (t, j)))"

lemma torn_refl: "torn S t 0 p p"
  by (simp add: torn_def restrict_map_def)

lemma torn_apart:
  assumes W: "well_formed S p" and q: "in_range p q" "fst q = t \<longrightarrow> i \<le> snd q" and i: "i \<le> length (loops p t)"
  shows "set (S q) \<inter> (\<Union>j<i. set (S (t, j))) = {}"
proof -
  have "set (S q) \<inter> set (S (t, j)) = {}" if "j < i" for j
  proof -
    have r: "in_range p (t, j)" and ne: "q \<noteq> (t, j)" using that i q(2) by (auto simp: in_range_def)
    have "disjoint_chains S p" using W by (simp add: well_formed_def others_def)
    then show ?thesis using q(1) r ne unfolding disjoint_chains_def by blast
  qed
  then show ?thesis by blast
qed

lemma torn_at_rest:
  assumes W: "well_formed S p" and T: "torn S t i p p'" and q: "in_range p q" "fst q = t \<longrightarrow> i \<le> snd q" and i: "i \<le> length (loops p t)"
  shows "at_rest (frames p') (objs p') (S q) q (task_at p q)"
proof (rule at_rest_cong [OF wf_task [OF W q(1)]])
  show "frames p' h = frames p h" if "h \<in> set (S q)" for h
    using torn_apart [OF W q i] that T by (auto simp: torn_def restrict_map_def)
next
  fix a tk assume a: "objs p a = Some (Token tk)" "chain_task tk = Some q" "a \<noteq> multishot_token" "default_op (tok_op tk)"
  have "q \<noteq> (t, j)" if "j < i" for j using q(2) that by auto
  then have "objs p' a = objs p a" using T a(1,2) unfolding torn_def by fastforce
  then show "\<exists>tk'. objs p' a = Some (Token tk') \<and> chain_task tk' = Some q \<and> tok_op tk' = tok_op tk" using a by simp
qed

lemma torn_step:
  assumes W: "well_formed S p" and T: "torn S t i p p'" and i: "i < length (loops p t)"
  obtains p1 where "torn S t (Suc i) p p1"
    and "ScheduledTask_dtor L gone locals t (loops p t ! i) p' =
      Some (bind_res (drop_conns L gone t (concat (map locals (rev (S (t, i))))) (env p')) (\<lambda>s. Inr (p1\<lparr>env := s\<rparr>)))"
proof -
  have q: "in_range p (t, i)" and st: "task_at p (t, i) = loops p t ! i" using i by (simp_all add: in_range_def task_at_def)
  have R: "at_rest (frames p') (objs p') (S (t, i)) (t, i) (loops p t ! i)"
    using torn_at_rest [OF W T q] i st by simp
  obtain w where d: "ScheduledTask_dtor L gone locals t (loops p t ! i) p' =
      Some (release_frames L gone locals t (rev (S (t, i))) (free_token w p'))" and w: "aw_ok (objs p') (t, i) w"
    by (rule task_destroyed [OF R])
  let ?p = "free_token w p'"
  let ?p1 = "?p\<lparr>frames := (frames ?p) |` (- set (S (t, i)))\<rparr>"
  have "frames ?p1 = (frames p) |` (- (\<Union>j<Suc i. set (S (t, j))))"
    using T by (auto simp: torn_def restrict_map_def lessThan_Suc)
  moreover have "objs ?p1 a = objs p a \<or> objs ?p1 a = None \<and> a \<noteq> multishot_token \<and>
      (\<exists>tk. \<exists>j<Suc i. objs p a = Some (Token tk) \<and> chain_task tk = Some (t, j))" for a
  proof (cases "w = AwToken a")
    case True
    then obtain tk where "a \<noteq> multishot_token" "objs p' a = Some (Token tk)" "chain_task tk = Some (t, i)"
      using w by (auto simp: aw_ok_def)
    moreover have "objs p a = objs p' a" using T calculation(2) unfolding torn_def by (metis option.distinct(1))
    ultimately show ?thesis using True by (auto simp: free_token_def delete_obj_def)
  next
    case False
    then have "objs ?p1 a = objs p' a" by (auto simp: free_token_def delete_obj_def split: awaiter.splits)
    then show ?thesis using T less_SucI unfolding torn_def by metis
  qed
  ultimately have "torn S t (Suc i) p ?p1" using T by (simp add: torn_def)
  then show thesis by (rule that) (simp add: d release_frames_eq env_last)
qed

text \<open>The connections in the order in which they are destroyed.\<close>

definition exit_conns :: "chains \<Rightarrow> (handle \<Rightarrow> address list) \<Rightarrow> nat \<Rightarrow> nat list \<Rightarrow> address list" where
  "exit_conns S locals t is = concat (map (\<lambda>i. concat (map locals (rev (S (t, i))))) is)"

lemma torn_env [simp]: "torn S t i p (p'\<lparr>env := s\<rparr>) = torn S t i p p'"
  by (simp add: torn_def)

lemma destroy_tasks_torn:
  assumes W: "well_formed S p"
  shows "torn S t i p p' \<Longrightarrow> i \<le> length (loops p t) \<Longrightarrow>
    \<exists>p1. torn S t (length (loops p t)) p p1 \<and> destroy_tasks L gone locals t (drop i (loops p t)) p' =
      Some (bind_res (drop_conns L gone t (exit_conns S locals t [i..<length (loops p t)]) (env p')) (\<lambda>s. Inr (p1\<lparr>env := s\<rparr>)))"
proof (induction "length (loops p t) - i" arbitrary: i p')
  case 0
  then show ?case by (intro exI [of _ p']) (simp add: exit_conns_def)
next
  case (Suc n)
  let ?n = "length (loops p t)"
  have i: "i < ?n" using Suc.hyps(2) by simp
  obtain p1 where p1: "torn S t (Suc i) p p1"
    "ScheduledTask_dtor L gone locals t (loops p t ! i) p' =
      Some (bind_res (drop_conns L gone t (concat (map locals (rev (S (t, i))))) (env p')) (\<lambda>s. Inr (p1\<lparr>env := s\<rparr>)))"
    by (rule torn_step [OF W Suc.prems(1) i])
  have cs: "exit_conns S locals t [i..<?n] = concat (map locals (rev (S (t, i)))) @ exit_conns S locals t [Suc i..<?n]"
    using i by (simp add: exit_conns_def upt_conv_Cons)
  show ?case
  proof (cases "drop_conns L gone t (concat (map locals (rev (S (t, i))))) (env p')")
    case (Inl e)
    have "n = ?n - Suc i" "Suc i \<le> ?n" using Suc.hyps(2) i by simp_all
    then obtain p2 where "torn S t ?n p p2" using Suc.hyps(1) [OF _ p1(1)] by blast
    then show ?thesis
      using Inl p1(2) by (intro exI [of _ p2]) (simp add: cs drop_conns_append Cons_nth_drop_Suc [OF i, symmetric])
  next
    case (Inr s)
    have "torn S t (Suc i) p (p1\<lparr>env := s\<rparr>)" using p1(1) by simp
    moreover have "n = ?n - Suc i" "Suc i \<le> ?n" using Suc.hyps(2) i by simp_all
    ultimately obtain p2 where p2: "torn S t ?n p p2" "destroy_tasks L gone locals t (drop (Suc i) (loops p t)) (p1\<lparr>env := s\<rparr>) =
      Some (bind_res (drop_conns L gone t (exit_conns S locals t [Suc i..<?n]) s) (\<lambda>s. Inr (p2\<lparr>env := s\<rparr>)))"
      using Suc.hyps(1) by fastforce
    then show ?thesis using Inr p1(2)
      by (intro exI [of _ p2]) (simp add: cs drop_conns_append Cons_nth_drop_Suc [OF i, symmetric])
  qed
qed

text \<open>The tasks of the other threads are as they were.\<close>

lemma torn_well_formed:
  assumes W: "well_formed S p" and T: "torn S t (length (loops p t)) p p'"
  shows "well_formed S (p'\<lparr>loops := (loops p)(t := [])\<rparr>)"
proof -
  let ?p = "p'\<lparr>loops := (loops p)(t := [])\<rparr>"
  have r: "in_range p q \<and> fst q \<noteq> t" if "in_range ?p q" for q using that by (auto simp: in_range_def split: if_splits)
  have O: "disjoint_chains S p" "bounded p" "parked S p" "\<And>q. in_range p q \<Longrightarrow> set (S q) \<subseteq> dom (frames p)"
    using W unfolding well_formed_def others_def by blast+
  have rest: "at_rest (frames ?p) (objs ?p) (S q) q (task_at ?p q)" if "in_range ?p q" for q
    using torn_at_rest [OF W T, of q] r [OF that] by (auto simp: task_at_def)
  have "disjoint_chains S ?p" using O(1) r unfolding disjoint_chains_def by blast
  moreover have "bounded ?p"
    using O(2) T unfolding bounded_def torn_def by (auto simp: restrict_map_def split: if_splits) (metis option.distinct(1))+
  moreover have "parked S ?p"
    unfolding parked_def
  proof (intro allI impI)
    fix a m h assume a: "objs ?p a = Some (MsgTask m)" and h: "msg_task m = Some h"
    have same: "objs p a' = Some (MsgTask m')" if "objs ?p a' = Some (MsgTask m')" for a' m'
      using T that unfolding torn_def by (auto dest!: spec [of _ a'])
    note pd = parkedD [OF O(3) same [OF a] h]
    have "h \<notin> (\<Union>j<length (loops p t). set (S (t, j)))" using pd(2) by (auto simp: in_range_def)
    then have "frames ?p h = frames p h" using T by (simp add: torn_def restrict_map_def)
    then show "(\<exists>f. frames ?p h = Some f \<and> parked_frame f) \<and> (\<forall>q. in_range ?p q \<longrightarrow> h \<notin> set (S q)) \<and>
        (\<forall>a' m'. objs ?p a' = Some (MsgTask m') \<longrightarrow> msg_task m' = Some h \<longrightarrow> a' = a)"
      using pd r same by (metis (no_types, lifting))
  qed
  moreover have "set (S q) \<subseteq> dom (frames ?p)" if "in_range ?p q" for q
    using at_rest_dom [OF rest [OF that]] by blast
  ultimately show ?thesis using rest by (simp add: well_formed_def others_def)
qed

text \<open>
  Destroying the list of a thread destroys each frame of its tasks once, and drops the connections they
  hold; the tasks of the other threads stay as they are.
\<close>

definition task_frames :: "chains \<Rightarrow> nat set \<Rightarrow> ('l, 'v, 'f, 's) proc \<Rightarrow> handle set" where
  "task_frames S T p = (\<Union>t\<in>T. \<Union>i<length (loops p t). set (S (t, i)))"

lemma TaskLoop_destroyed:
  assumes W: "well_formed S p"
  obtains p' where "loops p' = (loops p)(t := [])" and "frames p' = (frames p) |` (- task_frames S {t} p)" and "well_formed S p'"
    and "TaskLoop_dtor L gone locals t p =
      Some (bind_res (drop_conns L gone t (exit_conns S locals t [0..<length (loops p t)]) (env p)) (\<lambda>s. Inr (p'\<lparr>env := s\<rparr>)))"
proof -
  obtain p1 where p1: "torn S t (length (loops p t)) p p1" "destroy_tasks L gone locals t (loops p t) p =
      Some (bind_res (drop_conns L gone t (exit_conns S locals t [0..<length (loops p t)]) (env p)) (\<lambda>s. Inr (p1\<lparr>env := s\<rparr>)))"
    using destroy_tasks_torn [OF W torn_refl, of t L gone locals] by auto
  have lp: "loops p1 = loops p" using p1(1) by (simp add: torn_def)
  show thesis
    by (rule that [of "p1\<lparr>loops := (loops p1)(t := [])\<rparr>"])
      (use p1 lp torn_well_formed [OF W p1(1)] in \<open>simp_all add: TaskLoop_dtor_def torn_def task_frames_def bind_res_assoc env_last\<close>)
qed

section \<open>The end of the threads\<close>

lemma exit_conns_none:
  "\<forall>h \<in> task_frames S {t} p. locals h = [] \<Longrightarrow> exit_conns S locals t [0..<length (loops p t)] = []"
  by (auto simp: exit_conns_def task_frames_def)

lemma thread_exits:
  assumes W: "well_formed S p" and none: "\<forall>h \<in> task_frames S {t} p. locals h = []"
  obtains p' where "thread_exit L locals t p = Some (Inr p')" and "loops p' = (loops p)(t := [])"
    and "frames p' = (frames p) |` (- task_frames S {t} p)" and "well_formed S p'"
proof -
  let ?p = "p\<lparr>env := RingBuffer_dtor t (env p)\<rparr>"
  have "well_formed S ?p" using W by simp
  then obtain p' where p': "loops p' = (loops p)(t := [])" "frames p' = (frames p) |` (- task_frames S {t} p)" "well_formed S p'"
    "TaskLoop_dtor L {t} locals t ?p =
      Some (bind_res (drop_conns L {t} t (exit_conns S locals t [0..<length (loops p t)]) (RingBuffer_dtor t (env p))) (\<lambda>s. Inr (p'\<lparr>env := s\<rparr>)))"
    by (rule TaskLoop_destroyed [where t = t and L = L and gone = "{t}" and locals = locals]) (auto simp: task_frames_def)
  show thesis
    by (rule that [of "p'\<lparr>env := RingBuffer_dtor t (env p)\<rparr>"])
      (use p' exit_conns_none [OF none] in \<open>simp_all add: thread_exit_def\<close>)
qed

lemma threads_exit:
  "well_formed S p \<Longrightarrow> \<forall>h \<in> task_frames S (set ts) p. locals h = [] \<Longrightarrow>
   \<exists>p'. exit_threads L locals ts p = Some (Inr p') \<and> well_formed S p' \<and>
     loops p' = (\<lambda>t. if t \<in> set ts then [] else loops p t) \<and> frames p' = (frames p) |` (- task_frames S (set ts) p)"
proof (induction ts arbitrary: p)
  case Nil
  then show ?case by (simp add: task_frames_def restrict_map_def)
next
  case (Cons t ts)
  have T: "task_frames S (set (t # ts)) p = task_frames S {t} p \<union> task_frames S (set ts) p" by (simp add: task_frames_def)
  obtain p1 where p1: "thread_exit L locals t p = Some (Inr p1)" "loops p1 = (loops p)(t := [])"
    "frames p1 = (frames p) |` (- task_frames S {t} p)" "well_formed S p1"
    by (rule thread_exits [OF Cons.prems(1), of t locals L]) (use Cons.prems(2) T in auto)
  have F: "task_frames S (set ts) p1 = task_frames S (set ts - {t}) p"
    by (fastforce simp: task_frames_def p1(2) split: if_splits)
  have G: "task_frames S (set ts - {t}) p \<union> task_frames S {t} p = task_frames S (set (t # ts)) p"
    by (fastforce simp: task_frames_def)
  obtain p2 where p2: "exit_threads L locals ts p1 = Some (Inr p2)" "well_formed S p2"
    "loops p2 = (\<lambda>t. if t \<in> set ts then [] else loops p1 t)" "frames p2 = (frames p1) |` (- task_frames S (set ts) p1)"
    using Cons.IH [OF p1(4)] Cons.prems(2) F G by blast
  have "frames p2 = (frames p) |` (- task_frames S (set (t # ts)) p)"
    unfolding p2(4) p1(3) F G [symmetric] by (simp add: Int_commute)
  then show ?case using p1 p2 by auto
qed

text \<open>The destructor of a system loop that has been terminated ends all threads, the main thread last.\<close>

lemma SystemLoop_destroyed:
  assumes W: "well_formed S p" and st: "sys_stopped (env p)" and none: "\<And>h. locals h = []"
  shows "\<exists>p'. SystemLoop_dtor L cl locals arrived p = Some (Inr p') \<and> well_formed S p' \<and>
    (\<forall>t \<le> length (uring_fds (env p)). loops p' t = [])"
proof -
  define ts where "ts = [1..<Suc (length (uring_fds (env p)))]"
  let ?p = "p\<lparr>env := Workers_stop (env p)\<rparr>"
  have W': "well_formed S ?p" using W by simp
  obtain p1 where p1: "exit_threads L locals ts ?p = Some (Inr p1)" "well_formed S p1"
    "loops p1 = (\<lambda>t. if t \<in> set ts then [] else loops ?p t)"
    using threads_exit [OF W', of ts locals L] none by blast
  obtain p2 where p2: "thread_exit L locals main_thread p1 = Some (Inr p2)" "loops p2 = (loops p1)(main_thread := [])" "well_formed S p2"
    by (rule thread_exits [OF p1(2), of main_thread locals L]) (use none in auto)
  have "Workers_dtor L locals p = Some (Inr p1)" using p1(1) by (simp only: Workers_dtor_def ts_def)
  then have "SystemLoop_dtor L cl locals arrived p = Some (Inr p2)"
    using st p2(1) by (simp add: SystemLoop_dtor_def terminate_loop_def noexcept_def)
  moreover have "loops p2 t = []" if "t \<le> length (uring_fds (env p))" for t
    using that by (auto simp: p2(2) p1(3) main_thread_def ts_def)
  ultimately show ?thesis using p2(3) by blast
qed

section \<open>A connection outlives its ring\<close>

lemma drop_conn_gone:
  assumes "conns s c = Some x" and "\<not> ownership_in_sys_ring x"
  shows "drop_conn L {t} t c s =
    (if - 1 < direct_fd_in_this_ring x then Inl DanglingPointer else Inr (s\<lparr>conns := (conns s)(c := None)\<rparr>))"
  using assms by (simp add: drop_conn_def TcpConnection_dtor_def)

lemma drop_conns_dangles:
  "\<forall>c \<in> set cs. \<forall>x. conns s c = Some x \<longrightarrow> \<not> ownership_in_sys_ring x \<Longrightarrow> c \<in> set cs \<Longrightarrow> conns s c = Some x \<Longrightarrow>
   - 1 < direct_fd_in_this_ring x \<Longrightarrow> drop_conns L {t} t cs s = Inl DanglingPointer"
proof (induction cs arbitrary: s)
  case (Cons d ds)
  show ?case
  proof (cases "conns s d")
    case None
    then show ?thesis by (simp add: drop_conn_def)
  next
    case (Some y)
    then have y: "drop_conn L {t} t d s =
        (if - 1 < direct_fd_in_this_ring y then Inl DanglingPointer else Inr (s\<lparr>conns := (conns s)(d := None)\<rparr>))"
      using drop_conn_gone Cons.prems(1) by simp
    show ?thesis
    proof (cases "- 1 < direct_fd_in_this_ring y")
      case False
      then have "d \<noteq> c" using Some Cons.prems(3,4) by auto
      then have "drop_conns L {t} t ds (s\<lparr>conns := (conns s)(d := None)\<rparr>) = Inl DanglingPointer"
        by (intro Cons.IH) (use Cons.prems in auto)
      then show ?thesis using y False by simp
    qed (simp add: y)
  qed
qed simp

section \<open>Properties\<close>



text \<open>
  C24. A connection outlives its ring. Let a worker end while a frame of one of its tasks holds a
  connection of the worker's ring, and all connections that frames of the worker hold belong to
  that ring. The ring is a local variable that is declared after the task loop, so it is gone when the
  task loop is destroyed, and the destructor of the connection works on a ring that does not exist
  any more.
\<close>

theorem connection_outlives_ring:
  assumes "well_formed S p" and "h \<in> task_frames S {t} p" and "c \<in> set (locals h)" and "conns (env p) c = Some x"
    and "- 1 < direct_fd_in_this_ring x"
    and "\<forall>h \<in> task_frames S {t} p. \<forall>c \<in> set (locals h). \<forall>x. conns (env p) c = Some x \<longrightarrow> \<not> ownership_in_sys_ring x"
  shows "thread_exit L locals t p = Some (Inl DanglingPointer)"
proof -
  let ?p = "p\<lparr>env := RingBuffer_dtor t (env p)\<rparr>"
  let ?cs = "exit_conns S locals t [0..<length (loops p t)]"
  have cs: "set ?cs = (\<Union>h \<in> task_frames S {t} p. set (locals h))" by (auto simp: exit_conns_def task_frames_def)
  have e: "conns (RingBuffer_dtor t (env p)) = conns (env p)" by (simp add: RingBuffer_dtor_def)
  have "drop_conns L {t} t ?cs (RingBuffer_dtor t (env p)) = Inl DanglingPointer"
    by (rule drop_conns_dangles [where c = c and x = x]) (use assms(2-6) in \<open>auto simp: cs e\<close>)
  moreover have "well_formed S ?p" using assms(1) by simp
  then obtain p' where "TaskLoop_dtor L {t} locals t ?p =
      Some (bind_res (drop_conns L {t} t (exit_conns S locals t [0..<length (loops ?p t)]) (env ?p)) (\<lambda>s. Inr (p'\<lparr>env := s\<rparr>)))"
    by (rule TaskLoop_destroyed [where t = t and L = L and gone = "{t}" and locals = locals])
  ultimately show ?thesis by (simp add: thread_exit_def)
qed

text \<open>A worker whose only task has not started and holds the connection 50 with descriptor 7 of its ring.\<close>

definition sample_holder :: "((nat, nat) label, lib_value, nat) world" where
  "sample_holder =
     \<lparr>frames = [2 \<mapsto> \<lparr>promise = set_chain_root (Some (1, 0)) new_promise, costate = Suspended (User 0) AwInitial\<rparr>],
      objs = [1 \<mapsto> Token default_token], fresh = 3,
      loops = (\<lambda>t. [])(1 := [\<lparr>sched_task = \<lparr>task_handle = Some 2\<rparr>, awaiting_handle = Some 2, valid = True, pending = False\<rparr>]),
      env = sample_env\<lparr>conns := [50 \<mapsto> set_subring_socket 7 (TcpConnection_ctor (- 1))]\<rparr>\<rparr>"

lemma connection_outlives_ring_witness:
  "thread_exit (documented_liburing 128) (\<lambda>h. if h = 2 then [50] else []) 1 sample_holder = Some (Inl DanglingPointer)"
proof (rule connection_outlives_ring [where S = "\<lambda>q. [2]" and h = 2 and c = 50 and x = "set_subring_socket 7 (TcpConnection_ctor (- 1))"])
  have "in_range sample_holder q \<longleftrightarrow> q = (1, 0)" for q by (cases q) (auto simp: in_range_def sample_holder_def)
  then show "well_formed (\<lambda>q. [2]) sample_holder"
    by (auto simp: well_formed_def others_def disjoint_chains_def bounded_def parked_def at_rest_def top_ok_def aw_ok_def
      sample_holder_def task_at_def pr_ok_def set_chain_root_def new_promise_def multishot_token_def split: if_splits)
qed (auto simp: sample_holder_def task_frames_def set_subring_socket_def TcpConnection_ctor_def split: if_splits)

end
