(* ===== verification/Utilities.thy ===== *)
theory Utilities
  imports Ip_Addr
begin

text \<open>
  The debug printer of \<open>dump.hpp\<close> and the type trait of \<open>traits.hpp\<close>. The printer builds its
  output in a string, one line per message, and writes it when it is destroyed. Of the standard
  library, \<open>std::format\<close> of a value and the text of a thread id enter as the texts they give.
\<close>

section \<open>Splitting\<close>

text \<open>\<open>std::views::split\<close> at one character: an empty range has no parts.\<close>

fun split_parts :: "char \<Rightarrow> string \<Rightarrow> string list" where
  "split_parts c [] = [[]]"
| "split_parts c (x # xs) =
     (if x = c then [] # split_parts c xs
      else (case split_parts c xs of [] \<Rightarrow> [[x]] | w # ws \<Rightarrow> (x # w) # ws))"

definition views_split :: "char \<Rightarrow> string \<Rightarrow> string list" where
  "views_split c xs = (if xs = [] then [] else split_parts c xs)"

lemma split_parts_none: "c \<notin> set xs \<Longrightarrow> split_parts c xs = [xs]"
  by (induction xs) auto

lemma split_parts_append: "c \<notin> set xs \<Longrightarrow> split_parts c (xs @ c # ys) = xs # split_parts c ys"
  by (induction xs) auto

lemma split_parts_nonempty [simp]: "split_parts c xs \<noteq> []"
  by (induction xs) (auto split: list.splits)

lemma split_parts_ends: "c \<notin> set ys \<Longrightarrow> \<exists>w ws. split_parts c (xs @ c # ys) = w # ws @ [ys]"
  by (induction xs) (auto simp: split_parts_none)

lemma last_split_parts: "c \<notin> set ys \<Longrightarrow> last (split_parts c (xs @ c # ys)) = ys"
  using split_parts_ends [of c ys xs] by auto

section \<open>The debug printer\<close>

datatype color = Black | Red | Green | Yellow | Blue | Magenta | Cyan | White

fun color_code :: "color \<Rightarrow> nat" where
  "color_code Black = 30"
| "color_code Red = 31"
| "color_code Green = 32"
| "color_code Yellow = 33"
| "color_code Blue = 34"
| "color_code Magenta = 35"
| "color_code Cyan = 36"
| "color_code White = 37"

record source_location =
  file_name :: string
  loc_line :: nat
  function_name :: string

record dump =
  dump_color :: color
  dump_loc :: source_location
  formatted :: string

definition newline :: char where "newline = CHR 0x0A"
definition backslash :: char where "backslash = CHR 0x5C"

text \<open>The escape sequence that sets the attributes \<open>attr\<close>, and a text with attributes.\<close>

definition escape :: "string \<Rightarrow> string" where
  "escape attr = CHR 0x1B # ''['' @ attr @ ''m''"

definition styled :: "nat \<Rightarrow> string \<Rightarrow> string" where
  "styled code s = escape (''1;'' @ decimal code) @ s @ escape ''0''"

text \<open>The constructor takes the last part of the path; an empty path has no last part.\<close>

definition Dump_ctor :: "color \<Rightarrow> bool \<Rightarrow> source_location \<Rightarrow> dump res" where
  "Dump_ctor col func_name loc =
     (let words = views_split (CHR ''/'') (file_name loc) in
      if words = [] then Inl OutOfRange
      else Inr \<lparr>dump_color = col, dump_loc = loc,
        formatted = styled 31 (last words) @ '': '' @ styled 36 (decimal (loc_line loc)) @ '', '' @
          styled 35 (if func_name then function_name loc else []) @ [newline]\<rparr>)"

text \<open>The loop of the text overload: a newline becomes two characters, a null character is the last.\<close>

fun no_transfer :: "string \<Rightarrow> string" where
  "no_transfer [] = []"
| "no_transfer (ch # s) =
     (if ch = newline then [backslash, CHR ''n''] else [ch]) @ (if ch = CHR 0x00 then [] else no_transfer s)"

definition dump_text :: "string \<Rightarrow> dump \<Rightarrow> dump" where
  "dump_text msg d =
     d\<lparr>formatted := formatted d @ styled (color_code (dump_color d)) (no_transfer msg) @ [newline]\<rparr>"

definition dump_value :: "string \<Rightarrow> dump \<Rightarrow> dump" where
  "dump_value msg d =
     d\<lparr>formatted := formatted d @ styled (color_code (dump_color d)) msg @ [newline]\<rparr>"

text \<open>
  Which overload a message takes: one that converts to a string and is not deduced as
  \<open>std::string\<close> itself takes the text overload, so a string that is an rvalue does not.
\<close>

datatype message =
    RvalueString string
  | LvalueString string
  | CString string
  | OtherValue string

fun dump_comma :: "message \<Rightarrow> dump \<Rightarrow> dump" where
  "dump_comma (RvalueString s) d = dump_value s d"
| "dump_comma (LvalueString s) d = dump_text s d"
| "dump_comma (CString s) d = dump_text s d"
| "dump_comma (OtherValue s) d = dump_value s d"

definition dump_print :: "string \<Rightarrow> dump \<Rightarrow> string" where
  "dump_print thread_id d = ''Thread '' @ thread_id @ '', '' @ formatted d @ [newline]"

section \<open>One line per message\<close>

lemma decimal_digits: "x \<in> set (decimal n) \<Longrightarrow> x \<in> char_of ` {48..57::nat}"
proof (induction n rule: decimal.induct)
  case (1 n)
  show ?case
  proof (cases "n < 10")
    case True
    then show ?thesis using 1 by (auto simp: decimal.simps [of n])
  next
    case False
    have "48 + n mod 10 \<in> {48..57}" by auto
    then show ?thesis using 1 False by (auto simp: decimal.simps [of n])
  qed
qed

lemma newline_not_decimal [simp]: "newline \<notin> set (decimal n)"
proof
  assume "newline \<in> set (decimal n)"
  from decimal_digits [OF this] obtain k :: nat where "k \<in> {48..57}" "newline = char_of k" by blast
  then show False
    by (auto simp: newline_def dest!: arg_cong [where f = "of_char :: char \<Rightarrow> nat"])
qed

lemma newline_not_styled [simp]: "newline \<notin> set (styled k s) \<longleftrightarrow> newline \<notin> set s"
  using newline_not_decimal [of k] by (auto simp: styled_def escape_def) (simp_all add: newline_def)

lemma newline_not_escaped [simp]: "newline \<notin> set (no_transfer s)"
  by (induction s) (auto simp: newline_def backslash_def)

text \<open>The line a message is printed on; \<open>one_line\<close> holds of the messages that fit on one.\<close>

fun printed :: "message \<Rightarrow> string" where
  "printed (RvalueString s) = s"
| "printed (LvalueString s) = no_transfer s"
| "printed (CString s) = no_transfer s"
| "printed (OtherValue s) = s"

definition one_line :: "message \<Rightarrow> bool" where
  "one_line m \<longleftrightarrow> newline \<notin> set (printed m)"

lemma one_line_text [simp]: "one_line (LvalueString s)" "one_line (CString s)"
  by (simp_all add: one_line_def)

lemma dump_comma_formatted:
  "formatted (dump_comma m d) = formatted d @ styled (color_code (dump_color d)) (printed m) @ [newline]"
  "dump_color (dump_comma m d) = dump_color d" "dump_loc (dump_comma m d) = dump_loc d"
  by (cases m; simp add: dump_value_def dump_text_def)+

lemma fold_dump_comma:
  "formatted (fold dump_comma ms d) = formatted d @
     concat (map (\<lambda>m. styled (color_code (dump_color d)) (printed m) @ [newline]) ms)"
  by (induction ms arbitrary: d) (simp_all add: dump_comma_formatted)

lemma split_lines:
  "\<forall>l \<in> set ls. newline \<notin> set l \<Longrightarrow>
     split_parts newline (concat (map (\<lambda>l. l @ [newline]) ls) @ ys) = ls @ split_parts newline ys"
  by (induction ls) (simp_all add: split_parts_append)

text \<open>
  The debug printer writes one line per message. For a file in some directory whose name, like the
  names of function and thread, holds no newline, the output of a printer that got any messages of which
  none is an unescaped text with a newline consists of the header line, with the name of the file
  without its directory, one coloured line for every message in their order, and an empty line. Texts
  that are string literals or named strings are always escaped.
\<close>

theorem dump_prints_lines:
  assumes "Dump_ctor col func_name loc = Inr d" and "file_name loc = dir @ CHR ''/'' # name"
    and "CHR ''/'' \<notin> set name" and "newline \<notin> set name" and "newline \<notin> set (function_name loc)"
    and "newline \<notin> set thread_id" and "\<forall>m \<in> set ms. one_line m"
  shows "split_parts newline (dump_print thread_id (fold dump_comma ms d)) =
    (''Thread '' @ thread_id @ '', '' @ styled 31 name @ '': '' @ styled 36 (decimal (loc_line loc)) @ '', '' @
      styled 35 (if func_name then function_name loc else [])) #
    map (\<lambda>m. styled (color_code col) (printed m)) ms @ [[], []]"
proof -
  let ?head = "''Thread '' @ thread_id @ '', '' @ styled 31 name @ '': '' @ styled 36 (decimal (loc_line loc)) @ '', '' @
      styled 35 (if func_name then function_name loc else [])"
  let ?ls = "?head # map (\<lambda>m. styled (color_code col) (printed m)) ms"
  have d: "formatted d = styled 31 name @ '': '' @ styled 36 (decimal (loc_line loc)) @ '', '' @
      styled 35 (if func_name then function_name loc else []) @ [newline]" "dump_color d = col"
    using assms(1-3) by (auto simp: Dump_ctor_def views_split_def last_split_parts)
  have out: "dump_print thread_id (fold dump_comma ms d) = concat (map (\<lambda>l. l @ [newline]) ?ls) @ [newline]"
    by (simp add: dump_print_def fold_dump_comma d comp_def)
  have "\<forall>l \<in> set ?ls. newline \<notin> set l"
    using assms(4-7) by (auto simp: one_line_def) (simp_all add: newline_def)
  from split_lines [OF this, of "[newline]"] show ?thesis unfolding out by simp
qed

lemma dump_prints_lines_witness:
  "\<exists>d. Dump_ctor White True \<lparr>file_name = ''src/a.cpp'', loc_line = 7, function_name = ''main''\<rparr> = Inr d \<and>
     split_parts newline (dump_print ''1'' (fold dump_comma [CString (CHR ''a'' # newline # ''b''), OtherValue ''42''] d)) =
       (''Thread '' @ ''1'' @ '', '' @ styled 31 ''a.cpp'' @ '': '' @ styled 36 (decimal 7) @ '', '' @ styled 35 ''main'') #
       [styled 37 (CHR ''a'' # backslash # ''nb''), styled 37 ''42''] @ [[], []]"
proof -
  let ?loc = "\<lparr>file_name = ''src/a.cpp'', loc_line = 7, function_name = ''main''\<rparr>"
  obtain d where d: "Dump_ctor White True ?loc = Inr d" by (simp add: Dump_ctor_def views_split_def)
  from dump_prints_lines [OF d, of "''src''" "''a.cpp''" "''1''" "[CString (CHR ''a'' # newline # ''b''), OtherValue ''42'']"]
  show ?thesis using d by (simp add: one_line_def newline_def backslash_def)
qed

section \<open>Types that hold a direct descriptor\<close>

datatype cpp_type =
    DirectSocketType
  | TcpConnectionType
  | VoidType
  | OtherType string
  | Const cpp_type
  | Volatile cpp_type
  | LvalueRef cpp_type
  | RvalueRef cpp_type

fun remove_reference :: "cpp_type \<Rightarrow> cpp_type" where
  "remove_reference (LvalueRef t) = t"
| "remove_reference (RvalueRef t) = t"
| "remove_reference t = t"

fun remove_cv :: "cpp_type \<Rightarrow> cpp_type" where
  "remove_cv (Const t) = remove_cv t"
| "remove_cv (Volatile t) = remove_cv t"
| "remove_cv t = t"

definition remove_cvref :: "cpp_type \<Rightarrow> cpp_type" where
  "remove_cvref t = remove_cv (remove_reference t)"

text \<open>The parameters of the requires expression have the types given, so none of them can be void.\<close>

definition has_direct_fd :: "cpp_type list \<Rightarrow> bool" where
  "has_direct_fd ts \<longleftrightarrow> list_all (\<lambda>t. remove_cv t \<noteq> VoidType) ts \<and>
     (list_ex (\<lambda>t. remove_cvref t = DirectSocketType) ts \<or> list_ex (\<lambda>t. remove_cvref t = TcpConnectionType) ts)"

text \<open>The instances that \<open>test/direct_traits.cpp\<close> prints.\<close>

lemma direct_traits:
  "\<not> has_direct_fd [OtherType ''int'', OtherType ''double'']"
  "\<not> has_direct_fd [OtherType ''float'']"
  "has_direct_fd [LvalueRef TcpConnectionType, OtherType ''int'']"
  "has_direct_fd [RvalueRef TcpConnectionType, OtherType ''int'']"
  "has_direct_fd [OtherType ''int'', TcpConnectionType]"
  "has_direct_fd [TcpConnectionType, DirectSocketType]"
  "has_direct_fd [OtherType ''float'', DirectSocketType]"
  by (simp_all add: has_direct_fd_def remove_cvref_def)

end
