(* ===== verification/Spec2Isabelle.thy ===== *)
theory Spec2Isabelle
  imports Coroutine_Properties Ring_Properties Net_Properties Served Handover
    Accepted Control Library_Types Teardown Utilities
begin

text \<open>
  co-net is a header-only C++ library for asynchronous networking on top of io_uring (everything below
  is under \<^verbatim>\<open>src/include/co_net/\<close>). A program calls \<^verbatim>\<open>context::block_on\<close> with
  a coroutine. The system loop keeps a list of scheduled tasks and a ring on the main thread and starts
  one worker per hardware thread, each with a task list and a ring of its own. An iteration of a thread
  resumes the tasks that are not waiting, submits what they queued, waits for completions and handles
  them. An operation such as a read queues a submission entry whose user data is the address of a token
  in the awaiting coroutine, marks its task as pending, and suspends; the handler of the completion
  writes the result into the token and clears the mark. Threads talk to each other by messages between
  rings: a task, or a function together with a direct descriptor, is sent as the address of an object
  that the receiver takes over.

  \<^bold>\<open>The state.\<close> A \<^verbatim>\<open>world\<close> (Coroutine, World) has the coroutine frames and the objects of the heap
  under addresses, the task list of every thread, and an environment with the rings and provided buffers
  of all threads, the connections, and the members of \<^verbatim>\<open>SystemLoop\<close> and \<^verbatim>\<open>Workers\<close>. Thread 0 is the main
  thread. A pointer to a \<^verbatim>\<open>ScheduledTask\<close> is a thread and a position, which is stable since the list only
  grows. Exceptions and undefined behaviour are values of \<^verbatim>\<open>fault\<close> (Prelude): \<^verbatim>\<open>Throws e\<close> is an exception
  that leaves a function, \<^verbatim>\<open>Terminated e\<close> one that leaves a \<^verbatim>\<open>noexcept\<close> function, and dangling pointers, null
  entries, dead coroutines and so on have a value each, so that a theorem can say that they are reached or
  are not. A coroutine body is a function from the point where it is suspended, with its live locals, and
  what its \<^verbatim>\<open>co_await\<close> returned, to what it does next: the state machine that the compiler makes of it.

  \<^bold>\<open>The theories.\<close>
  \<^item> Prelude, Config (config.hpp), Timer (timer/timer.hpp), Tokens (io/prep/completion_token.hpp,
    io/uring_msg.hpp), Utilities (dump.hpp, traits.hpp).
  \<^item> Coroutine and Chain: results, promises, tasks and awaiters (async/), the awaiters of
    io/prep/uring_awaiter.hpp, the scheduled tasks and the task loop (async/scheduled_task.hpp,
    context/task_loop.hpp), and \<^verbatim>\<open>cstep\<close>, one transfer of control. Chain_Invariant, Chain_Growth, Chain_Safety
    and Task_Loop show that every transfer keeps the invariant of the layer: each task owns a chain of
    frames, linked downwards by what is awaited and upwards by the callers. Direct_Style gives the meaning of
    awaiting as a function call, and the machine refines it. Coroutine_Properties has the properties.
  \<^item> Liburing, Ring_Buffer (io/buffer.hpp), Uring (io/uring.hpp), World (context/this_ctx.hpp),
    Tcp_Connection (the class of net/tcp/connection.hpp), Ring_Events (the handlers of completions).
    Ring_Safety, Ring_Effects, Ring_Batch and Handler_Relations show what handling completions keeps and what
    it does to the rings and to the tasks; Buffer_Pool is the contract of provided buffers; Ring_Properties has the properties.
  \<^item> Ip_Addr (net/ip_addr.hpp), Net_Socket (net/socket.hpp and the system calls of net/tcp/listener.hpp),
    Ownership (objects that are moved and closed once), Net_Properties.
  \<^item> Prep (the coroutines of io/prep), Spawn (the sending half of context/context.hpp), Library_Code (the
    coroutines of connections, listeners and sockets, and \<^verbatim>\<open>lib_code\<close>, the code of all library coroutines
    together with the user's). Library_Safety: this code keeps to the interface of the coroutine layer.
    Loop_Termination and Library_Rank: a pass of the task loop over it returns. Machine_Runs, Control,
    Typed_Machine and Library_Types: what runs of it cannot change, and the types of its values.
    Operations and Transfers: what an operation leaves behind, and reading and writing from the call to
    the result. Handover and Accepted: the way of a task, of a connection and of an accepted descriptor
    from the main thread to a worker.
  \<^item> System_Loop (the loops of context/context.hpp and context/worker.hpp and the start-up), Transitions,
    Startup, Loop_Properties and System_Properties: all threads together. Teardown: the destructors of
    tasks, task lists, threads and of the system loop, in the order in which the locals and members were
    declared. Which connections a frame of the user's code holds is an argument there (\<^verbatim>\<open>locals\<close>), and the
    threads end between two of their iterations.
  \<^item> Ledger to Ledger_Properties: the account of what the kernel holds. Every entry that has been queued and
    not completed and every completion that has not been handled refers to objects of the heap, and the
    account has, in every state, one live object of the right kind for each reference, and for the token of
    an awaited operation a task that waits for it. Ledger and Ledger_Steps say what the operations do to the
    account, Ledger_Machine, Ledger_Run, Ledger_Keeps and Ledger_Exec what a transfer of control and a pass
    do, Ledger_Events and Ledger_Batch what handling completions does, Ledger_Library that the library's
    coroutines keep to it, Ledger_System that all threads together do. Ledger_Waits and Ledger_Wakeups are
    the other direction: whoever waits for an operation is accounted for, so no wake-up is lost. Served
    puts them together with Transfers: the way of a result from the kernel to the caller of a read or write.

  \<^bold>\<open>Interfaces.\<close> The locales are \<^verbatim>\<open>owner\<close> (move-only objects; for sockets, listeners and the connections
  of workers), \<^verbatim>\<open>buffer_pool\<close> (for the provided buffers), \<^verbatim>\<open>ring_effects\<close> (what each primitive does to a ring
  carries over to the handlers), \<^verbatim>\<open>transition_invariant\<close> and \<^verbatim>\<open>monotone_measure\<close> (for the start-up and for the
  interleaved threads), \<^verbatim>\<open>env_steps\<close> (runs of coroutines and the environment), \<^verbatim>\<open>typed_code\<close>,
  \<^verbatim>\<open>handler_relation\<close> (what each step of a handler does to the tasks carries over to batches) and
  \<^verbatim>\<open>ledger_code\<close> (code that keeps the account of what the kernel holds).

  \<^bold>\<open>What is not in the repository.\<close> io_uring and liburing are the parameter \<^verbatim>\<open>liburing\<close> (whether an entry is
  left, how many are submitted, the results of set-up calls) and the completions that arrive, which are
  arguments of an iteration. The hypotheses on them are \<^verbatim>\<open>fills_entry\<close>, \<^verbatim>\<open>submits_all\<close>, \<^verbatim>\<open>lu_room\<close> and
  \<^verbatim>\<open>queue_room\<close>, the limit on buffer rings, and \<^verbatim>\<open>events_ok\<close>: a completion carries the user data of an
  object that is still alive, and none that is used once comes twice. This last hypothesis is a consequence of what
  the kernel documents: \<^verbatim>\<open>may_deliver\<close> and \<^verbatim>\<open>tracked_step\<close> let it complete each queued entry once, but for the
  multishot accept, and Ledger_Properties proves that then all completions lead to live objects, for
  users that wait through the library's awaiters and queue operations only through them (\<^verbatim>\<open>ledger_user\<close>). The calls of the C library are
  \<^verbatim>\<open>inet\<close> and \<^verbatim>\<open>libc\<close>. The user's coroutines are the parameter \<^verbatim>\<open>user\<close>, with the interface \<^verbatim>\<open>safe_action\<close>: between
  two suspensions they only extend the process. The functions that are sent to workers are the parameter
  \<^verbatim>\<open>client\<close>.

  \<^bold>\<open>Bounds and fuel.\<close> There is no fuel: resuming and the pass of the task loop are partial functions, whose
  termination is proved for ranked code. Words keep their width where the code depends on it (timer fields,
  ports, flags, the flags of completions). Sizes and counts of \<^verbatim>\<open>size_t\<close> that stay far below its range are
  natural numbers. The threads interleave at whole iterations; inside an iteration a thread touches only
  its own ring and tasks, except that destroying a connection of the main ring uses the main ring from
  wherever it happens, which is listed among the findings of the development.

  \<^bold>\<open>Not modelled.\<close> The thread-local and global pointers of context/this_ctx.hpp (the running thread is an
  argument), deleted copy operations, includes, the \<^verbatim>\<open>DirectSocket\<close> class that is commented out, the
  multishot receive that is declared and never defined, the installation of the signal handler (it is a call
  of \<^verbatim>\<open>terminate\<close> at any time), and the client programs in the example and test directories.
\<close>

end
